(* ===== verification/Prelude.thy ===== *)
theory Prelude
  imports Main "HOL-Library.Word" "HOL-Library.Char_ord"
begin

text \<open>
  What every component of the development shares: the C integer types and their
  conversions (\<open>int\<close>, \<open>unsigned int\<close> and \<open>long\<close> of the LP64 platforms the program is
  built for), the character classes of \<open>ctype.h\<close>, C strings as \<open>string\<close> without the
  terminating NUL, and the collections of rewrite rules the components fill.
  Pointers to linked structures are the lists they reach (\<open>[]\<close> is NULL), or \<open>int\<close>
  addresses with \<open>0\<close> for NULL where identity matters.  An operation that would
  dereference NULL or leave an array is an \<open>option\<close> value with \<open>None\<close> for that outcome.
\<close>

named_theorems conv_simps "conversions between C integer types inside their range"
named_theorems cell_simps "conservation of list cells"
named_theorems status_simps "job status words and masks"

section \<open>Integers\<close>

type_synonym long = int
type_synonym pointer = int

text \<open>\<open>INFINIT_INT\<close> of lsf.h: the value that stands for "no limit".\<close>

definition INFINIT_INT :: int where
  "INFINIT_INT = 0x7fffffff"

text \<open>Conversion to \<open>int\<close> (two's complement, 32 bits) and to \<open>unsigned int\<close>.\<close>

definition c_int :: "int \<Rightarrow> int" where
  "c_int x = (x + 2 ^ 31) mod 2 ^ 32 - 2 ^ 31"

definition c_uint :: "int \<Rightarrow> int" where
  "c_uint x = x mod 2 ^ 32"

definition is_int32 :: "int \<Rightarrow> bool" where
  "is_int32 x \<longleftrightarrow> - (2 ^ 31) \<le> x \<and> x < 2 ^ 31"

section \<open>Characters and strings\<close>

definition isspace :: "char \<Rightarrow> bool" where
  "isspace c \<longleftrightarrow> of_char c = (32::nat) \<or> (9 \<le> (of_char c :: nat) \<and> (of_char c :: nat) \<le> 13)"

definition isdigit :: "char \<Rightarrow> bool" where
  "isdigit c \<longleftrightarrow> 48 \<le> (of_char c :: nat) \<and> (of_char c :: nat) \<le> 57"

definition isupper :: "char \<Rightarrow> bool" where
  "isupper c \<longleftrightarrow> 65 \<le> (of_char c :: nat) \<and> (of_char c :: nat) \<le> 90"

definition islower :: "char \<Rightarrow> bool" where
  "islower c \<longleftrightarrow> 97 \<le> (of_char c :: nat) \<and> (of_char c :: nat) \<le> 122"

definition isalpha :: "char \<Rightarrow> bool" where
  "isalpha c \<longleftrightarrow> isupper c \<or> islower c"

definition isalnum :: "char \<Rightarrow> bool" where
  "isalnum c \<longleftrightarrow> isalpha c \<or> isdigit c"

definition digit_val :: "char \<Rightarrow> int" where
  "digit_val c = int (of_char c) - 48"

text \<open>The value of a digit string, most significant digit first.\<close>

fun digits_val :: "int \<Rightarrow> string \<Rightarrow> int" where
  "digits_val acc [] = acc"
| "digits_val acc (c # cs) = digits_val (10 * acc + digit_val c) cs"

section \<open>Facts on conversions\<close>

lemma c_int_id [conv_simps]: "is_int32 x \<Longrightarrow> c_int x = x"
  by (simp add: c_int_def is_int32_def)

lemma c_int_range: "is_int32 (c_int x)"
proof -
  have "0 \<le> (x + 2 ^ 31) mod 2 ^ 32" "(x + 2 ^ 31) mod 2 ^ 32 < (2::int) ^ 32"
    by simp_all
  then show ?thesis by (simp add: c_int_def is_int32_def)
qed

lemma c_int_idem [simp]: "c_int (c_int x) = c_int x"
  by (rule c_int_id [OF c_int_range])

lemma c_uint_id [conv_simps]: "0 \<le> x \<Longrightarrow> x < 2 ^ 32 \<Longrightarrow> c_uint x = x"
  by (simp add: c_uint_def)

lemma c_uint_range: "0 \<le> c_uint x" "c_uint x < 2 ^ 32"
  by (simp_all add: c_uint_def)

lemma digit_val_range: "isdigit c \<Longrightarrow> 0 \<le> digit_val c \<and> digit_val c \<le> 9"
  by (simp add: isdigit_def digit_val_def)

lemma digits_val_nonneg: "0 \<le> acc \<Longrightarrow> list_all isdigit cs \<Longrightarrow> 0 \<le> digits_val acc cs"
proof (induction cs arbitrary: acc)
  case (Cons c cs)
  have "0 \<le> 10 * acc + digit_val c" using Cons.prems digit_val_range [of c] by simp
  with Cons show ?case by simp
qed simp

section \<open>Facts on lists\<close>

lemma takeWhile_dropWhile_length:
  "length (takeWhile P xs) + length (dropWhile P xs) = length xs"
  by (metis length_append takeWhile_dropWhile_id)

lemma length_dropWhile_tl: "dropWhile P xs = y # ys \<Longrightarrow> length ys < length xs"
  by (metis length_Cons length_dropWhile_le Suc_le_lessD)

lemma option_eqI: "(\<And>d. x = Some d \<longleftrightarrow> y = Some d) \<Longrightarrow> x = y"
  by (cases x; cases y) auto

lemma int_image_iff: "x \<in> int ` A \<longleftrightarrow> 0 \<le> x \<and> nat x \<in> A"
  by (auto simp: image_iff intro: bexI [of _ "nat x"])

lemma sum_list_remove1:
  "x \<in> set xs \<Longrightarrow> sum_list (map f (remove1 x xs)) = sum_list (map f xs) - (f x :: int)"
  by (induction xs) auto

end
