(* ===== verification/Interfaces.thy ===== *)
theory Interfaces
  imports Prelude
begin

text \<open>
  The contracts that components rely on, as locales.  \<open>int_set_store\<close> is what the
  clients of a set of integers assume of it: it is interpreted on the sorted linked
  lists of listset.c and on the bit vectors of bitset.c.  An insertion is promised
  only while the store has \<open>room\<close> for it, because both implementations allocate.
\<close>

locale int_set_store =
  fixes invar :: "'s \<Rightarrow> bool"
    and elems :: "'s \<Rightarrow> int set"
    and room :: "int \<Rightarrow> 's \<Rightarrow> bool"
    and memb :: "int \<Rightarrow> 's \<Rightarrow> bool"
    and ins :: "int \<Rightarrow> 's \<Rightarrow> 's"
    and del :: "int \<Rightarrow> 's \<Rightarrow> 's"
  assumes memb_law: "invar s \<Longrightarrow> room x s \<Longrightarrow> memb x s \<longleftrightarrow> x \<in> elems s"
    and ins_elems: "invar s \<Longrightarrow> room x s \<Longrightarrow> elems (ins x s) = insert x (elems s)"
    and ins_invar: "invar s \<Longrightarrow> room x s \<Longrightarrow> invar (ins x s)"
    and del_elems: "invar s \<Longrightarrow> x \<in> elems s \<Longrightarrow> elems (del x s) = elems s - {x}"
    and del_invar: "invar s \<Longrightarrow> x \<in> elems s \<Longrightarrow> invar (del x s)"
begin

primrec ins_all :: "int list \<Rightarrow> 's \<Rightarrow> 's" where
  "ins_all [] s = s"
| "ins_all (x # xs) s = ins_all xs (ins x s)"

primrec room_all :: "int list \<Rightarrow> 's \<Rightarrow> bool" where
  "room_all [] s = True"
| "room_all (x # xs) s = (room x s \<and> room_all xs (ins x s))"

lemma ins_all_elems:
  "invar s \<Longrightarrow> room_all xs s \<Longrightarrow> invar (ins_all xs s) \<and> elems (ins_all xs s) = set xs \<union> elems s"
  by (induction xs arbitrary: s) (auto simp: ins_elems ins_invar)

lemma del_after_ins:
  "invar s \<Longrightarrow> room x s \<Longrightarrow> elems (del x (ins x s)) = elems s - {x}"
  by (simp add: del_elems ins_elems ins_invar)

lemma memb_ins_other:
  "invar s \<Longrightarrow> room x s \<Longrightarrow> room y s \<Longrightarrow> room y (ins x s) \<Longrightarrow> memb y (ins x s) \<longleftrightarrow> y = x \<or> memb y s"
  by (auto simp: memb_law ins_elems ins_invar)

lemma memb_del:
  "invar s \<Longrightarrow> x \<in> elems s \<Longrightarrow> room y s \<Longrightarrow> room y (del x s) \<Longrightarrow> memb y (del x s) \<longleftrightarrow> y \<noteq> x \<and> memb y s"
  by (auto simp: memb_law del_elems del_invar)

end

text \<open>
  \<open>keyed_table\<close> is what the daemons assume of their tables of named records: a lookup
  after an insertion or a removal, with the invariant kept.  It is interpreted on the
  hash table of lib.table.c.
\<close>

locale keyed_table =
  fixes invar :: "'t \<Rightarrow> bool"
    and lookup :: "'t \<Rightarrow> string \<Rightarrow> 'v option"
    and put :: "string \<Rightarrow> 'v \<Rightarrow> 't \<Rightarrow> 't"
    and drop_key :: "string \<Rightarrow> 't \<Rightarrow> 't"
  assumes put_lookup: "invar t \<Longrightarrow> lookup (put k v t) = (lookup t)(k \<mapsto> v)"
    and put_invar: "invar t \<Longrightarrow> invar (put k v t)"
    and drop_lookup: "invar t \<Longrightarrow> lookup (drop_key k t) = (lookup t)(k := None)"
    and drop_invar: "invar t \<Longrightarrow> invar (drop_key k t)"
begin

primrec put_all :: "(string \<times> 'v) list \<Rightarrow> 't \<Rightarrow> 't" where
  "put_all [] t = t"
| "put_all (kv # kvs) t = put_all kvs (put (fst kv) (snd kv) t)"

lemma put_all_lookup:
  "invar t \<Longrightarrow> invar (put_all kvs t) \<and> lookup (put_all kvs t) = lookup t ++ map_of (rev kvs)"
  by (induction kvs arbitrary: t) (auto simp: put_lookup put_invar map_add_def fun_eq_iff split: option.splits)

lemma drop_after_put:
  "invar t \<Longrightarrow> lookup t k = None \<Longrightarrow> lookup (drop_key k (put k v t)) = lookup t"
  by (auto simp: drop_lookup put_lookup put_invar fun_eq_iff)

lemma put_other: "invar t \<Longrightarrow> k \<noteq> j \<Longrightarrow> lookup (put k v t) j = lookup t j"
  by (simp add: put_lookup)

end

text \<open>
  \<open>entry_list\<close> is what the daemons assume of their lists of records: an entry is put before
  another (or before the header, at the end), and taken out.  It is interpreted on the
  doubly linked lists of list.c.
\<close>

locale entry_list =
  fixes header :: 'e
    and holds :: "'s \<Rightarrow> 'e list \<Rightarrow> bool"
    and loose :: "'s \<Rightarrow> 'e \<Rightarrow> bool"
    and put_before :: "'e \<Rightarrow> 'e \<Rightarrow> 's \<Rightarrow> 's option"
    and take_out :: "'e \<Rightarrow> 's \<Rightarrow> 's option"
  assumes put_law: "holds s (pre @ post) \<Longrightarrow> loose s e \<Longrightarrow> e \<notin> set (header # pre @ post) \<Longrightarrow>
      \<exists>s'. put_before (hd (post @ [header])) e s = Some s' \<and> holds s' (pre @ e # post)"
    and take_law: "holds s (pre @ e # post) \<Longrightarrow> \<exists>s'. take_out e s = Some s' \<and> holds s' (pre @ post) \<and> loose s' e"
    and holds_distinct: "holds s xs \<Longrightarrow> distinct (header # xs)"
begin

text \<open>The loop that looks for the first entry to stop at, and puts an entry before it.\<close>

definition put_where :: "('e \<Rightarrow> bool) \<Rightarrow> 'e list \<Rightarrow> 'e \<Rightarrow> 's \<Rightarrow> 's option" where
  "put_where stop xs e s = put_before (case find stop xs of None \<Rightarrow> header | Some x \<Rightarrow> x) e s"

lemma put_where_place:
  assumes "holds s xs" "loose s e" "e \<notin> set (header # xs)"
  shows "\<exists>s'. put_where stop xs e s = Some s' \<and> holds s' (takeWhile (Not \<circ> stop) xs @ e # dropWhile (Not \<circ> stop) xs)"
proof -
  let ?post = "dropWhile (Not \<circ> stop) xs"
  have "(case find stop xs of None \<Rightarrow> header | Some x \<Rightarrow> x) = hd (?post @ [header])"
    by (induction xs) auto
  then show ?thesis unfolding put_where_def
    using put_law [of s "takeWhile (Not \<circ> stop) xs" ?post e] assms by simp
qed

lemma move_entry:
  assumes "holds s (a @ e # b)" "a @ b = c @ d"
  shows "\<exists>s1 s2. take_out e s = Some s1 \<and> put_before (hd (d @ [header])) e s1 = Some s2 \<and> holds s2 (c @ e # d)"
proof -
  obtain s1 where s1: "take_out e s = Some s1" "holds s1 (c @ d)" "loose s1 e" using take_law [OF assms(1)] assms(2) by auto
  have "e \<notin> set (a @ b)" "e \<noteq> header" using holds_distinct [OF assms(1)] by auto
  then have "e \<notin> set (header # c @ d)" using assms(2) by (metis set_ConsD)
  then show ?thesis using put_law [OF s1(2,3)] s1(1) by blast
qed

end

end
