(* ===== verification/ListSet.thy ===== *)
theory ListSet
  imports Interfaces "HOL-Library.Multiset"
begin

text \<open>
  lsf/intlib/listset.c: sets of \<open>long\<close> as sorted singly linked lists whose cells come
  from a pool.  A pointer to \<open>struct listSet\<close> is the list of elements it reaches, NULL is
  \<open>[]\<close>; the two arguments of a binary operation are disjoint chains.  The global state is
  the record \<open>pool\<close>: the chain \<open>FreeSet\<close> of recycled cells and the number of cells that
  \<open>safe_calloc\<close> can still provide, so that every allocation failure is a branch.
\<close>

record pool =
  FreeSet :: "long list"
  avail :: nat

definition collectFreeSet :: "pool \<Rightarrow> pool" where
  "collectFreeSet p = p\<lparr>FreeSet := [], avail := avail p + length (FreeSet p)\<rparr>"

fun listSetEqual :: "long list \<Rightarrow> long list \<Rightarrow> bool" where
  "listSetEqual (x # xs) (y # ys) = (if x = y then listSetEqual xs ys else False)"
| "listSetEqual [] [] = True"
| "listSetEqual _ _ = False"

definition listSetAlloc :: "long \<Rightarrow> pool \<Rightarrow> long list \<times> pool" where
  "listSetAlloc elem p =
     (case FreeSet p of
        _ # fs \<Rightarrow> ([elem], p\<lparr>FreeSet := fs\<rparr>)
      | [] \<Rightarrow> (case avail p of
                0 \<Rightarrow> ([], p)
              | Suc n \<Rightarrow> ([elem], p\<lparr>avail := n\<rparr>)))"

definition listSetFree :: "long list \<Rightarrow> pool \<Rightarrow> pool" where
  "listSetFree s p = p\<lparr>FreeSet := s @ FreeSet p\<rparr>"

text \<open>The merge loop of \<open>listSetUnion\<close>, with the final linking of the remainder.\<close>

fun union_loop :: "long list \<Rightarrow> long list \<Rightarrow> long list" where
  "union_loop (x # xs) (y # ys) =
     (if x \<le> y then x # union_loop xs (y # ys) else y # union_loop (x # xs) ys)"
| "union_loop [] ys = ys"
| "union_loop xs [] = xs"

definition listSetUnion :: "long list \<Rightarrow> long list \<Rightarrow> pool \<Rightarrow> long list \<times> pool" where
  "listSetUnion set1 set2 p =
     (let (setHead, p1) = listSetAlloc (- 1) p in
      if setHead = [] then ([], listSetFree set2 (listSetFree set1 p1))
      else (union_loop set1 set2, listSetFree setHead p1))"

text \<open>The first loop of \<open>listSetIntersect\<close>: what is not in the second set becomes -1.\<close>

fun intersect_mark :: "long list \<Rightarrow> long list \<Rightarrow> long list" where
  "intersect_mark [] _ = []"
| "intersect_mark (a # as) [] = - 1 # intersect_mark as []"
| "intersect_mark (a # as) (b # bs) =
     (if a = b then a # intersect_mark as bs
      else if a < b then - 1 # intersect_mark as (b # bs)
      else intersect_mark (a # as) bs)"

text \<open>The second loop: unlink and free every marked cell after the first one.\<close>

fun sweep_next :: "long list \<Rightarrow> pool \<Rightarrow> long list \<times> pool" where
  "sweep_next [] p = ([], p)"
| "sweep_next (x # xs) p =
     (if x < 0 then sweep_next xs (listSetFree [x] p)
      else (let (ys, p') = sweep_next xs p in (x # ys, p')))"

text \<open>That loop followed by the test of the first cell.\<close>

fun sweep :: "long list \<Rightarrow> pool \<Rightarrow> long list \<times> pool" where
  "sweep [] p = ([], p)"
| "sweep (x # xs) p =
     (let (ys, p') = sweep_next xs p in
      if x < 0 then (ys, listSetFree [x] p') else (x # ys, p'))"

definition listSetIntersect :: "long list \<Rightarrow> long list \<Rightarrow> pool \<Rightarrow> long list \<times> pool" where
  "listSetIntersect set1 set2 p =
     sweep (intersect_mark set1 set2) (listSetFree set2 p)"

text \<open>The copy loop of \<open>listSetDuplicate\<close>; \<open>head\<close> is the chain built so far.\<close>

fun duplicate_loop :: "long list \<Rightarrow> long list \<Rightarrow> pool \<Rightarrow> long list \<times> pool" where
  "duplicate_loop [] head p = (tl head, listSetFree (take 1 head) p)"
| "duplicate_loop (x # xs) head p =
     (let (cell, p1) = listSetAlloc x p in
      if cell = [] then ([], listSetFree head p1)
      else duplicate_loop xs (head @ cell) p1)"

definition listSetDuplicate :: "long list \<Rightarrow> pool \<Rightarrow> long list \<times> pool" where
  "listSetDuplicate s p =
     (let (setHead, p1) = listSetAlloc (- 1) p in
      if setHead = [] then ([], p1) else duplicate_loop s setHead p1)"

fun listSetMember :: "long \<Rightarrow> long list \<Rightarrow> bool" where
  "listSetMember elem [] = False"
| "listSetMember elem (x # xs) = (if x = elem then True else listSetMember elem xs)"

text \<open>The search for the predecessor of \<open>elem\<close>, with the unlinking after it.\<close>

fun del_next :: "long \<Rightarrow> long list \<Rightarrow> pool \<Rightarrow> long list \<times> pool" where
  "del_next elem [] p = ([], p)"
| "del_next elem (x # xs) p =
     (if x \<noteq> elem then (let (ys, p') = del_next elem xs p in (x # ys, p'))
      else (xs, listSetFree [x] p))"

fun listSetDel :: "long \<Rightarrow> long list \<Rightarrow> pool \<Rightarrow> long list \<times> pool" where
  "listSetDel elem [] p = ([], p)"
| "listSetDel elem (x # xs) p =
     (if x = elem then (xs, listSetFree [x] p)
      else (let (ys, p') = del_next elem xs p in (x # ys, p')))"

text \<open>
  \<open>listSetInsert\<close>: the loop stops at the last cell whose successor is not smaller; a
  failed allocation returns NULL, and the cells of \<open>s\<close> stay with nobody.
\<close>

fun listSetInsert :: "long \<Rightarrow> long list \<Rightarrow> pool \<Rightarrow> long list \<times> pool" where
  "listSetInsert elem s p =
     (if listSetMember elem s then (s, p)
      else (case s of
         [] \<Rightarrow> (let (ptr, p1) = listSetAlloc elem p in if ptr = [] then ([], p1) else (ptr, p1))
       | x # xs \<Rightarrow>
           (if elem < x then
              (let (ptr, p1) = listSetAlloc elem p in
               if ptr = [] then ([], p1) else (ptr @ x # xs, p1))
            else
              (let (ptr, p1) = listSetAlloc elem p in
               if ptr = [] then ([], p1)
               else (x # takeWhile (\<lambda>e. e < elem) xs @ ptr
                       @ dropWhile (\<lambda>e. e < elem) xs, p1)))))"

text \<open>The marking loop of \<open>listSetSub\<close>: what is in the second set becomes -1.\<close>

fun sub_mark :: "long list \<Rightarrow> long list \<Rightarrow> long list" where
  "sub_mark (a # as) (b # bs) =
     (if a = b then - 1 # sub_mark as bs
      else if a > b then sub_mark (a # as) bs
      else a # sub_mark as (b # bs))"
| "sub_mark as _ = as"

definition listSetSub :: "long list \<Rightarrow> long list \<Rightarrow> pool \<Rightarrow> long list \<times> pool" where
  "listSetSub set1 set2 p =
     (if set1 = [] then ([], listSetFree set2 p)
      else if set2 = [] then (set1, p)
      else sweep (sub_mark set1 set2) (listSetFree set2 p))"

text \<open>\<open>listSetGetEle\<close> counts from 1 and converts the \<open>long\<close> element to \<open>int\<close>.\<close>

fun getEle_loop :: "nat \<Rightarrow> long list \<Rightarrow> long list option" where
  "getEle_loop 0 s = Some s"
| "getEle_loop (Suc n) [] = None"
| "getEle_loop (Suc n) (x # xs) = getEle_loop n xs"

definition listSetGetEle :: "int \<Rightarrow> long list \<Rightarrow> int" where
  "listSetGetEle k s =
     (if k < 1 then 0
      else (case getEle_loop (nat (k - 1)) s of
              None \<Rightarrow> 0
            | Some [] \<Rightarrow> 0
            | Some (x # _) \<Rightarrow> c_int x))"

fun numEle_loop :: "int \<Rightarrow> long list \<Rightarrow> int" where
  "numEle_loop len [] = len"
| "numEle_loop len (_ # xs) = numEle_loop (c_int (len + 1)) xs"

definition listSetNumEle :: "long list \<Rightarrow> int" where
  "listSetNumEle s = numEle_loop 0 s"

text \<open>
  The scan of \<open>listSetSelect\<close>: the positions of \<open>low\<close> and \<open>up\<close> when the loop stops.
\<close>

fun select_scan :: "long \<Rightarrow> long \<Rightarrow> nat \<Rightarrow> long list \<Rightarrow> nat option \<Rightarrow> nat option
                    \<Rightarrow> nat option \<times> nat option" where
  "select_scan start end i [] low up = (low, up)"
| "select_scan start end i (x # xs) low up =
     (if x \<le> end
      then select_scan start end (Suc i) xs
             (if x < start then Some i else low) (if x \<le> end then Some i else up)
      else (low, up))"

definition listSetSelect :: "long \<Rightarrow> long \<Rightarrow> long list \<Rightarrow> pool \<Rightarrow> long list \<times> pool" where
  "listSetSelect start end s p =
     (if start > end then ([], listSetFree s p)
      else (case select_scan start end 0 s None None of
              (low, None) \<Rightarrow> ([], listSetFree s p)
            | (low, Some u) \<Rightarrow>
               (if low \<noteq> None \<and> Suc (the low) = length s then ([], listSetFree s p)
                else
                 (let p1 = listSetFree (drop (Suc u) s) p;
                      kept = take (Suc u) s in
                  case low of
                    Some l \<Rightarrow> (drop (Suc l) kept, listSetFree (take (Suc l) kept) p1)
                  | None \<Rightarrow> (kept, p1)))))"

text \<open>
  Iterators: the position is the remaining chain.  \<open>listSetIteratorBegin\<close> reads
  \<open>iter->pos->next\<close> without a test, so it has no result on an empty set.
\<close>

record listSetIterator =
  pos :: "long list"

definition listSetIteratorAttach :: "long list \<Rightarrow> listSetIterator \<Rightarrow> listSetIterator" where
  "listSetIteratorAttach s iter = iter\<lparr>pos := s\<rparr>"

definition listSetIteratorBegin :: "listSetIterator \<Rightarrow> (long \<times> listSetIterator) option" where
  "listSetIteratorBegin iter =
     (case pos iter of [] \<Rightarrow> None | x # xs \<Rightarrow> Some (x, iter\<lparr>pos := xs\<rparr>))"

definition listSetIteratorGetNext :: "listSetIterator \<Rightarrow> long option \<times> listSetIterator" where
  "listSetIteratorGetNext iter =
     (case pos iter of [] \<Rightarrow> (None, iter) | x # xs \<Rightarrow> (Some x, iter\<lparr>pos := xs\<rparr>))"

definition listSetIteratorEnd :: "listSetIterator \<Rightarrow> long option" where
  "listSetIteratorEnd iter = None"

definition listSetIteratorDetach :: "listSetIterator \<Rightarrow> listSetIterator" where
  "listSetIteratorDetach iter = iter\<lparr>pos := []\<rparr>"


section \<open>Cells and sorted chains\<close>

definition cells :: "pool \<Rightarrow> nat" where
  "cells p = length (FreeSet p) + avail p"

definition ls_wf :: "long list \<Rightarrow> bool" where
  "ls_wf s \<longleftrightarrow> sorted_wrt (<) s \<and> (\<forall>x\<in>set s. 0 \<le> x)"

lemma listSetAlloc_ok:
  "0 < cells p \<Longrightarrow> \<exists>p'. listSetAlloc e p = ([e], p') \<and> cells p = Suc (cells p')"
  by (auto simp: listSetAlloc_def cells_def split: list.splits nat.splits)

lemma listSetAlloc_fail: "cells p = 0 \<Longrightarrow> listSetAlloc e p = ([], p)"
  by (auto simp: listSetAlloc_def cells_def split: list.splits nat.splits)

lemma cells_listSetFree [cell_simps]: "cells (listSetFree s p) = length s + cells p"
  by (simp add: cells_def listSetFree_def)

lemma cells_collectFreeSet [cell_simps]: "cells (collectFreeSet p) = cells p"
  by (simp add: cells_def collectFreeSet_def)

lemma ls_wf_Nil [simp]: "ls_wf []"
  by (simp add: ls_wf_def)

lemma ls_wf_Cons [simp]: "ls_wf (x # xs) \<longleftrightarrow> 0 \<le> x \<and> (\<forall>y\<in>set xs. x < y) \<and> ls_wf xs"
  by (auto simp: ls_wf_def)

lemma ls_wf_filter: "ls_wf s \<Longrightarrow> ls_wf (filter P s)"
  by (simp add: ls_wf_def sorted_wrt_filter)

lemma ls_wf_sorted: "ls_wf s \<Longrightarrow> sorted s \<and> distinct s"
  by (simp add: ls_wf_def strict_sorted_iff)

lemma ls_wf_eq: "ls_wf s \<Longrightarrow> ls_wf t \<Longrightarrow> set s = set t \<Longrightarrow> s = t"
  by (meson ls_wf_sorted sorted_distinct_set_unique)

section \<open>What each loop computes\<close>

lemma listSetEqual_iff: "listSetEqual s t \<longleftrightarrow> s = t"
  by (induction s t rule: listSetEqual.induct) auto

lemma listSetMember_iff [simp]: "listSetMember e s \<longleftrightarrow> e \<in> set s"
  by (induction s) auto

lemma union_loop_mset: "mset (union_loop s t) = mset s + mset t"
  by (induction s t rule: union_loop.induct) auto

lemma union_loop_set: "set (union_loop s t) = set s \<union> set t"
  by (metis set_mset_mset set_mset_union union_loop_mset)

lemma union_loop_sorted: "sorted s \<Longrightarrow> sorted t \<Longrightarrow> sorted (union_loop s t)"
  by (induction s t rule: union_loop.induct) (auto simp: union_loop_set)

lemma sweep_next_spec:
  "fst (sweep_next xs p) = filter (\<lambda>x. 0 \<le> x) xs"
  "length (fst (sweep_next xs p)) + cells (snd (sweep_next xs p)) = length xs + cells p"
  by (induction xs p rule: sweep_next.induct; auto simp: cell_simps split: prod.splits)+

lemma sweep_spec:
  "fst (sweep xs p) = filter (\<lambda>x. 0 \<le> x) xs"
  "length (fst (sweep xs p)) + cells (snd (sweep xs p)) = length xs + cells p"
  using sweep_next_spec [of "tl xs" p]
  by (cases xs; fastforce simp: cell_simps split: prod.splits)+

lemma length_intersect_mark: "length (intersect_mark s t) = length s"
  by (induction s t rule: intersect_mark.induct) auto

lemma length_sub_mark: "length (sub_mark s t) = length s"
  by (induction s t rule: sub_mark.induct) auto

lemma intersect_mark_filter:
  "ls_wf s \<Longrightarrow> sorted_wrt (<) t \<Longrightarrow>
   filter (\<lambda>x. 0 \<le> x) (intersect_mark s t) = filter (\<lambda>x. x \<in> set t) s"
proof (induction s t rule: intersect_mark.induct)
  case (3 a as b bs)
  show ?case
  proof (cases "a = b")
    case True
    have "filter (\<lambda>x. x \<in> set bs) as = filter (\<lambda>x. x \<in> set (b # bs)) as"
      using "3.prems" True by (auto intro!: filter_cong)
    then show ?thesis using 3 True by simp
  next
    case False
    then consider "a < b" | "b < a" by linarith
    then show ?thesis
    proof cases
      case 1
      then have "a \<notin> set (b # bs)" using "3.prems" by auto
      then show ?thesis using 1 3 False by simp
    next
      case 2
      have "filter (\<lambda>x. x \<in> set bs) (a # as) = filter (\<lambda>x. x \<in> set (b # bs)) (a # as)"
        using "3.prems" 2 by (intro filter_cong) auto
      then show ?thesis using 2 3 False by simp
    qed
  qed
qed auto

lemma sub_mark_filter:
  "ls_wf s \<Longrightarrow> sorted_wrt (<) t \<Longrightarrow>
   filter (\<lambda>x. 0 \<le> x) (sub_mark s t) = filter (\<lambda>x. x \<notin> set t) s"
proof (induction s t rule: sub_mark.induct)
  case (1 a as b bs)
  show ?case
  proof (cases "a = b")
    case True
    have "filter (\<lambda>x. x \<notin> set bs) as = filter (\<lambda>x. x \<notin> set (b # bs)) as"
      using "1.prems" True by (auto intro!: filter_cong)
    then show ?thesis using 1 True by simp
  next
    case False
    then consider "a < b" | "b < a" by linarith
    then show ?thesis
    proof cases
      assume "a < b"
      then have "a \<notin> set (b # bs)" using "1.prems" by auto
      then show ?thesis using \<open>a < b\<close> 1 False by simp
    next
      assume "b < a"
      have "filter (\<lambda>x. x \<notin> set bs) (a # as) = filter (\<lambda>x. x \<notin> set (b # bs)) (a # as)"
        using "1.prems" \<open>b < a\<close> by (intro filter_cong) auto
      then show ?thesis using \<open>b < a\<close> 1 False by simp
    qed
  qed
qed (auto simp: ls_wf_def filter_id_conv)

lemma duplicate_loop_spec:
  "fst (duplicate_loop s head p) = (if length s \<le> cells p then tl head @ s else [])"
  if "head \<noteq> []"
  using that
proof (induction s arbitrary: head p)
  case (Cons x xs)
  show ?case
  proof (cases "cells p = 0")
    case True
    then show ?thesis by (simp add: listSetAlloc_fail)
  next
    case False
    then obtain p' where p': "listSetAlloc x p = ([x], p')" "cells p = Suc (cells p')"
      using listSetAlloc_ok by blast
    then show ?thesis using Cons.IH [of "head @ [x]" p'] Cons.prems by simp
  qed
qed simp

lemma duplicate_loop_cells:
  "head \<noteq> [] \<Longrightarrow>
   length (fst (duplicate_loop s head p)) + cells (snd (duplicate_loop s head p)) = length head + cells p"
proof (induction s arbitrary: head p)
  case Nil
  then show ?case by (cases head) (auto simp: cell_simps)
next
  case (Cons x xs)
  show ?case
  proof (cases "cells p = 0")
    case True
    then show ?thesis by (simp add: listSetAlloc_fail cell_simps)
  next
    case False
    then obtain p' where p': "listSetAlloc x p = ([x], p')" "cells p = Suc (cells p')"
      using listSetAlloc_ok by blast
    then show ?thesis using Cons.IH [of "head @ [x]" p'] by simp
  qed
qed

lemma del_next_spec:
  "fst (del_next e s p) = remove1 e s"
  "length (fst (del_next e s p)) + cells (snd (del_next e s p)) = length s + cells p"
  by (induction e s p rule: del_next.induct; auto simp: cell_simps split: prod.splits)+

lemma listSetDel_spec:
  "fst (listSetDel e s p) = remove1 e s"
  "length (fst (listSetDel e s p)) + cells (snd (listSetDel e s p)) = length s + cells p"
  using del_next_spec [of e "tl s" p] by (cases s; auto simp: cell_simps split: prod.splits)+

lemma ls_wf_remove1: "ls_wf s \<Longrightarrow> ls_wf (remove1 e s)"
  by (metis distinct_remove1_removeAll ls_wf_filter ls_wf_sorted removeAll_filter_not_eq)

lemma ls_wf_insert_between:
  "ls_wf (a @ b) \<Longrightarrow> \<forall>y\<in>set a. y < e \<Longrightarrow> \<forall>y\<in>set b. e < y \<Longrightarrow> 0 \<le> e \<Longrightarrow> ls_wf (a @ e # b)"
  by (auto simp: ls_wf_def sorted_wrt_append)

lemma ls_wf_after:
  "ls_wf s \<Longrightarrow> e \<notin> set s \<Longrightarrow> \<forall>y\<in>set (dropWhile (\<lambda>y. y < e) s). e < y"
  by (induction s) auto

lemma insert_wf:
  assumes "ls_wf s" "0 \<le> e" "e \<notin> set s"
  shows "ls_wf (takeWhile (\<lambda>y. y < e) s @ e # dropWhile (\<lambda>y. y < e) s)"
proof (rule ls_wf_insert_between)
  show "\<forall>y\<in>set (takeWhile (\<lambda>y. y < e) s). y < e" by (blast dest: set_takeWhileD)
qed (use assms ls_wf_after in \<open>simp_all only: takeWhile_dropWhile_id\<close>)

lemma listSetInsert_new:
  assumes "e \<notin> set s" "listSetAlloc e p = ([e], p')"
  shows "listSetInsert e s p =
           (takeWhile (\<lambda>y. y < e) s @ e # dropWhile (\<lambda>y. y < e) s, p')"
  using assms by (cases s) auto

lemma listSetInsert_cells:
  "cells p \<noteq> 0 \<or> e \<in> set s \<Longrightarrow>
   length (fst (listSetInsert e s p)) + cells (snd (listSetInsert e s p)) = length s + cells p"
proof (cases "e \<in> set s")
  case False
  assume "cells p \<noteq> 0 \<or> e \<in> set s"
  then obtain p' where "listSetAlloc e p = ([e], p')" "cells p = Suc (cells p')"
    using False listSetAlloc_ok by blast
  then show ?thesis
    using listSetInsert_new [OF False] takeWhile_dropWhile_length [of "\<lambda>y. y < e" s] by auto
qed simp

lemma listSetInsert_spec:
  assumes "ls_wf s" "0 \<le> e" "cells p \<noteq> 0 \<or> e \<in> set s"
  shows "ls_wf (fst (listSetInsert e s p)) \<and> set (fst (listSetInsert e s p)) = insert e (set s)"
proof (cases "e \<in> set s")
  case False
  then obtain p' where p': "listSetAlloc e p = ([e], p')"
    using assms(3) listSetAlloc_ok by blast
  have "set (takeWhile (\<lambda>y. y < e) s) \<union> set (dropWhile (\<lambda>y. y < e) s) = set s"
    by (metis set_append takeWhile_dropWhile_id)
  then show ?thesis
    using listSetInsert_new [OF False p'] insert_wf [OF assms(1,2) False] by auto
qed (use assms in auto)

lemma select_scan_sorted:
  "sorted s \<Longrightarrow> start \<le> end \<Longrightarrow>
   select_scan start end i s low up =
     ((let a = length (takeWhile (\<lambda>x. x < start) s) in if a = 0 then low else Some (i + a - 1)),
      (let b = length (takeWhile (\<lambda>x. x \<le> end) s) in if b = 0 then up else Some (i + b - 1)))"
proof (induction s arbitrary: i low up)
  case (Cons x xs)
  have "start \<le> x \<Longrightarrow> takeWhile (\<lambda>x. x < start) xs = []"
    using Cons.prems by (cases xs) auto
  then show ?case using Cons by (auto simp: Let_def)
qed simp

lemma takeWhile_sorted_filter:
  "sorted s \<Longrightarrow> takeWhile (\<lambda>x. x \<le> (n::int)) s = filter (\<lambda>x. x \<le> n) s"
  "sorted s \<Longrightarrow> dropWhile (\<lambda>x. x < n) s = filter (\<lambda>x. n \<le> x) s"
proof (induction s)
  case (Cons x xs)
  { case 1 then show ?case using Cons by (auto intro!: filter_False [symmetric]) }
  { case 2 then show ?case using Cons by (auto intro!: filter_True [symmetric]) }
qed auto

lemma takeWhile_sub_length:
  "(\<And>x. P x \<Longrightarrow> Q x) \<Longrightarrow> length (takeWhile P s) \<le> length (takeWhile Q s)"
  by (induction s) auto

lemma range_sorted_filter:
  assumes "sorted s" "start \<le> (end::int)"
  shows "drop (length (takeWhile (\<lambda>x. x < start) s)) (takeWhile (\<lambda>x. x \<le> end) s)
         = filter (\<lambda>x. start \<le> x \<and> x \<le> end) s"
proof -
  let ?t = "takeWhile (\<lambda>x. x \<le> end) s"
  have "takeWhile (\<lambda>x. x < start) s = takeWhile (\<lambda>x. x < start) ?t"
    using assms(2) by (induction s) auto
  then have "drop (length (takeWhile (\<lambda>x. x < start) s)) ?t = dropWhile (\<lambda>x. x < start) ?t"
    by (simp add: dropWhile_eq_drop)
  also have "\<dots> = filter (\<lambda>x. start \<le> x) ?t"
    by (rule takeWhile_sorted_filter(2)) (simp add: assms(1) sorted_takeWhile)
  also have "\<dots> = filter (\<lambda>x. start \<le> x \<and> x \<le> end) s"
    by (simp add: takeWhile_sorted_filter(1) [OF assms(1)] conj_commute)
  finally show ?thesis .
qed

lemma listSetSelect_spec:
  assumes "sorted s"
  shows "fst (listSetSelect start end s p) = filter (\<lambda>x. start \<le> x \<and> x \<le> end) s"
proof (cases "start \<le> end")
  case True
  define a where "a = length (takeWhile (\<lambda>x. x < start) s)"
  define b where "b = length (takeWhile (\<lambda>x. x \<le> end) s)"
  have "a \<le> b" unfolding a_def b_def
    by (rule takeWhile_sub_length) (use True in simp)
  moreover have "b \<le> length s" unfolding b_def by (rule length_takeWhile_le)
  ultimately have ab: "a \<le> b" "b \<le> length s" by simp_all
  have "takeWhile (\<lambda>x. x \<le> end) s = take b s"
    unfolding b_def by (rule takeWhile_eq_take)
  then have f: "filter (\<lambda>x. start \<le> x \<and> x \<le> end) s = drop a (take b s)"
    using range_sorted_filter [OF assms True] by (simp add: a_def)
  have scan: "select_scan start end 0 s None None =
      (if a = 0 then None else Some (a - 1), if b = 0 then None else Some (b - 1))"
    by (simp add: select_scan_sorted [OF assms True] a_def b_def Let_def)
  show ?thesis
  proof (cases "b = 0")
    case False
    then show ?thesis
      using True ab by (cases "a = 0") (simp_all add: f listSetSelect_def scan Let_def)
  qed (use True ab f in \<open>simp add: listSetSelect_def scan\<close>)
qed (auto simp: listSetSelect_def filter_empty_conv)

lemma listSetSelect_cells:
  "length (fst (listSetSelect start end s p)) + cells (snd (listSetSelect start end s p))
   = length s + cells p"
proof (cases "select_scan start end 0 s None None")
  case (Pair low up)
  then show ?thesis
    by (cases low; cases up) (auto simp: listSetSelect_def cell_simps Let_def min_def)
qed


lemma listSetUnion_ok:
  "cells p \<noteq> 0 \<Longrightarrow> fst (listSetUnion s t p) = union_loop s t"
  using listSetAlloc_ok [of p "- 1"] by (auto simp: listSetUnion_def)

lemma listSetUnion_cells:
  "length (fst (listSetUnion s t p)) + cells (snd (listSetUnion s t p)) = length s + length t + cells p"
proof (cases "cells p = 0")
  case False
  then obtain p' where "listSetAlloc (- 1) p = ([- 1], p')" "cells p = Suc (cells p')"
    using listSetAlloc_ok by blast
  moreover have "length (union_loop s t) = length s + length t"
    by (metis size_mset size_union union_loop_mset)
  ultimately show ?thesis by (simp add: listSetUnion_def cell_simps)
qed (simp add: listSetUnion_def listSetAlloc_fail cell_simps)

lemma listSetDuplicate_cells:
  "length (fst (listSetDuplicate s p)) + cells (snd (listSetDuplicate s p)) = cells p"
proof (cases "cells p = 0")
  case False
  then obtain p' where "listSetAlloc (- 1) p = ([- 1], p')" "cells p = Suc (cells p')"
    using listSetAlloc_ok by blast
  then show ?thesis using duplicate_loop_cells [of "[- 1]" s p'] by (simp add: listSetDuplicate_def)
qed (simp add: listSetDuplicate_def listSetAlloc_fail)

lemma listSetIntersect_cells:
  "length (fst (listSetIntersect s t p)) + cells (snd (listSetIntersect s t p)) = length s + length t + cells p"
  using sweep_spec(2) [of "intersect_mark s t" "listSetFree t p"]
  by (simp add: listSetIntersect_def cell_simps length_intersect_mark)

lemma listSetSub_cells:
  "length (fst (listSetSub s t p)) + cells (snd (listSetSub s t p)) = length s + length t + cells p"
  using sweep_spec(2) [of "sub_mark s t" "listSetFree t p"]
  by (simp add: listSetSub_def cell_simps length_sub_mark)

lemma listSetInsert_fails:
  "cells p = 0 \<Longrightarrow> e \<notin> set s \<Longrightarrow> listSetInsert e s p = ([], p)"
  by (cases s) (auto simp: listSetAlloc_fail)

declare listSetInsert.simps [simp del]

section \<open>The chains as a set store\<close>

text \<open>
  The interface \<open>int_set_store\<close> on a chain together with the pool it allocates from.
  Elements are job and array indices, so they are not negative; an insertion needs one
  cell unless the element is there.
\<close>

interpretation ls: int_set_store
  "\<lambda>(s, p). ls_wf s" "\<lambda>(s, p). set s" "\<lambda>e (s, p). 0 \<le> e \<and> (cells p \<noteq> 0 \<or> e \<in> set s)"
  "\<lambda>e (s, p). listSetMember e s" "\<lambda>e (s, p). listSetInsert e s p" "\<lambda>e (s, p). listSetDel e s p"
  by unfold_locales
    (auto simp: case_prod_beta listSetDel_spec(1) listSetInsert_spec ls_wf_remove1 ls_wf_sorted)

section \<open>Properties\<close>

text \<open>C19: On sorted chains of non-negative elements the in-place operations compute the
  set operations they are named after and keep the order: intersection, difference and
  the selection of an interval are filters of the first chain.\<close>

theorem listSet_algebra:
  assumes "ls_wf s" "ls_wf t"
  shows "fst (listSetIntersect s t p) = filter (\<lambda>x. x \<in> set t) s \<and>
         fst (listSetSub s t p) = filter (\<lambda>x. x \<notin> set t) s \<and>
         fst (listSetSelect a b s p) = filter (\<lambda>x. a \<le> x \<and> x \<le> b) s \<and>
         (listSetEqual s t \<longleftrightarrow> set s = set t)"
proof -
  have t: "sorted_wrt (<) t" using assms(2) by (simp add: ls_wf_def)
  have "fst (listSetIntersect s t p) = filter (\<lambda>x. x \<in> set t) s"
    by (simp add: listSetIntersect_def sweep_spec(1) intersect_mark_filter [OF assms(1) t])
  moreover have "fst (listSetSub s t p) = filter (\<lambda>x. x \<notin> set t) s"
    by (simp add: listSetSub_def sweep_spec(1) sub_mark_filter [OF assms(1) t])
  ultimately show ?thesis
    using listSetSelect_spec [of s a b p] ls_wf_sorted [of s] ls_wf_eq [of s t] assms
    by (auto simp: listSetEqual_iff)
qed

theorem listSet_algebra_witness:
  "fst (listSetIntersect [1, 3, 5] [3, 4, 5] \<lparr>FreeSet = [], avail = 0\<rparr>) = [3, 5] \<and>
   fst (listSetSub [1, 3, 5] [3, 4, 5] \<lparr>FreeSet = [], avail = 0\<rparr>) = [1] \<and>
   fst (listSetSelect 2 4 [1, 3, 5] \<lparr>FreeSet = [], avail = 0\<rparr>) = [3]"
  using listSet_algebra [of "[1, 3, 5]" "[3, 4, 5]" "\<lparr>FreeSet = [], avail = 0\<rparr>" 2 4] by simp

text \<open>C20: No operation loses or invents a cell: the cells of the result and of the pool
  afterwards are the cells of the arguments and of the pool before, on the failure
  branches too.  Only \<open>listSetInsert\<close> can lose cells, exactly when it fails to
  allocate for a non-empty set: it returns NULL and drops the chain.\<close>

theorem listSet_cells:
  "length (fst (listSetUnion s t p)) + cells (snd (listSetUnion s t p)) = length s + length t + cells p \<and>
   length (fst (listSetIntersect s t p)) + cells (snd (listSetIntersect s t p)) = length s + length t + cells p \<and>
   length (fst (listSetSub s t p)) + cells (snd (listSetSub s t p)) = length s + length t + cells p \<and>
   length (fst (listSetDuplicate s p)) + cells (snd (listSetDuplicate s p)) = cells p \<and>
   length (fst (listSetDel e s p)) + cells (snd (listSetDel e s p)) = length s + cells p \<and>
   length (fst (listSetSelect a b s p)) + cells (snd (listSetSelect a b s p)) = length s + cells p \<and>
   (length (fst (listSetInsert e s p)) + cells (snd (listSetInsert e s p)) = length s + cells p
    \<longleftrightarrow> 0 < cells p \<or> e \<in> set s \<or> s = [])"
proof -
  have "length (fst (listSetInsert e s p)) + cells (snd (listSetInsert e s p)) = length s + cells p
    \<longleftrightarrow> 0 < cells p \<or> e \<in> set s \<or> s = []"
    using listSetInsert_cells [of p e s] listSetInsert_fails [of p e s]
    by (cases "cells p \<noteq> 0 \<or> e \<in> set s") auto
  then show ?thesis
    by (simp add: listSetUnion_cells listSetIntersect_cells listSetSub_cells
        listSetDuplicate_cells listSetDel_spec(2) listSetSelect_cells)
qed

text \<open>C34: \<open>listSetUnion\<close> merges and does not remove duplicates: the result is sorted and
  holds every element as often as the two arguments together, so that it is a strictly
  sorted chain only for disjoint arguments, and deleting a common element from a union
  leaves it a member.\<close>

theorem listSetUnion_keeps_duplicates:
  assumes "ls_wf s" "ls_wf t" "cells p \<noteq> 0"
  shows "sorted (fst (listSetUnion s t p)) \<and>
         mset (fst (listSetUnion s t p)) = mset s + mset t \<and>
         (ls_wf (fst (listSetUnion s t p)) \<longleftrightarrow> set s \<inter> set t = {}) \<and>
         (e \<in> set s \<inter> set t \<longrightarrow>
            e \<in> set (fst (listSetDel e (fst (listSetUnion s t p)) q)))"
proof -
  let ?u = "union_loop s t"
  have st: "sorted s" "distinct s" "sorted t" "distinct t"
    using assms ls_wf_sorted by blast+
  have "sorted ?u" by (rule union_loop_sorted [OF st(1,3)])
  moreover have "distinct ?u \<longleftrightarrow> set s \<inter> set t = {}"
    using st(2,4) mset_eq_imp_distinct_iff [of ?u "s @ t"] by (simp add: union_loop_mset)
  moreover have "\<forall>x\<in>set ?u. 0 \<le> x" using assms by (auto simp: union_loop_set ls_wf_def)
  moreover have "e \<in> set s \<inter> set t \<Longrightarrow> e \<in> set (remove1 e ?u)"
  proof -
    assume "e \<in> set s \<inter> set t"
    then have "0 < count (mset s) e" "0 < count (mset t) e" by simp_all
    then have "e \<in># mset (remove1 e ?u)"
      unfolding mset_remove1 union_loop_mset in_diff_count
      by (simp del: count_greater_zero_iff)
    then show ?thesis by (simp only: set_mset_mset)
  qed
  ultimately show ?thesis
    by (auto simp: listSetUnion_ok [OF assms(3)] union_loop_mset listSetDel_spec(1)
        ls_wf_def strict_sorted_iff)
qed

theorem listSetUnion_keeps_duplicates_witness:
  "fst (listSetUnion [1, 2] [2] \<lparr>FreeSet = [], avail = 1\<rparr>) = [1, 2, 2] \<and>
   2 \<in> set (fst (listSetDel 2 (fst (listSetUnion [1, 2] [2] \<lparr>FreeSet = [], avail = 1\<rparr>))
                  \<lparr>FreeSet = [], avail = 1\<rparr>))"
  using listSetUnion_keeps_duplicates
    [of "[1, 2]" "[2]" "\<lparr>FreeSet = [], avail = 1\<rparr>" 2 "\<lparr>FreeSet = [], avail = 1\<rparr>"]
  by (simp add: cells_def listSetUnion_def listSetAlloc_def)



end
