(* ===== verification/BitSet.thy ===== *)
theory BitSet
  imports Interfaces
begin

text \<open>
  lsf/intlib/bitset.c and bitset.h: sets of small integers as vectors of 32-bit words,
  with iterators and observers.  \<open>unsigned int\<close> fields are \<open>int\<close> values reduced by
  \<open>c_uint\<close>; a set pointer is an \<open>option\<close> (\<open>None\<close> is NULL), a bitmask that \<open>realloc\<close> failed
  to provide is \<open>[]\<close>.  The environment gives what \<open>*(int *)obj\<close> reads and which
  allocations succeed.  Functions pointers and objects are \<open>int\<close> addresses.  Each operation
  returns \<open>None\<close> when it would read or write outside the bitmask.
\<close>

unbundle bit_operations_syntax

datatype bserr =
    LS_BITSET_ERR_NOERR | LS_BITSET_ERR_BADARG | LS_BITSET_ERR_SETEMPTY
  | LS_BITSET_ERR_NOMEM | LS_BITSET_ERR_FUNC | LS_BITSET_ERR_ISALREDY
  | LS_BITSET_ERR_EINVAL | LS_BITSET_ERR_NOOBSVR

datatype LS_BITSET_EVENT_TYPE_T =
    LS_BITSET_EVENT_ENTER | LS_BITSET_EVENT_LEAVE | LS_BITSET_EVENT_NULL

record LS_BITSET_EVENT_T =
  ev_type :: LS_BITSET_EVENT_TYPE_T
  ev_entry :: pointer

record LS_BITSET_OBSERVER_T =
  ob_name :: string
  ob_extra :: pointer
  ob_select :: "(pointer \<Rightarrow> LS_BITSET_EVENT_T \<Rightarrow> bool) option"
  ob_enter :: pointer
  ob_leave :: pointer

record LS_BITSET_T =
  setDescription :: string
  bitmask :: "32 word list"
  setSize :: int
  setWidth :: int
  setNumElements :: int
  allowObservers :: bool
  observers :: "LS_BITSET_OBSERVER_T list"
  getIndexByObject :: "(pointer \<Rightarrow> int) option"
  getObjectByIndex :: "(int \<Rightarrow> pointer) option"

record bs_env =
  deref :: "pointer \<Rightarrow> int"
  grant :: "int \<Rightarrow> bool"

text \<open>A callback made: the function, its \<open>extra\<close> argument and the event.\<close>

type_synonym callback = "pointer \<times> pointer \<times> LS_BITSET_EVENT_T"

record bs_result =
  rc :: int
  bset :: "LS_BITSET_T option"
  bitseterrno :: bserr
  calls :: "callback list"

definition SET_GET_WORD :: "int \<Rightarrow> int" where
  "SET_GET_WORD position = c_int ((position mod 2 ^ 64) div 32)"

definition SET_GET_BIT_IN_WORD :: "int \<Rightarrow> nat" where
  "SET_GET_BIT_IN_WORD position = nat (position mod 32)"

definition read_word :: "32 word list \<Rightarrow> int \<Rightarrow> 32 word option" where
  "read_word bm w = (if 0 \<le> w \<and> nat w < length bm then Some (bm ! nat w) else None)"

definition SET_BIT_ON_shift :: "nat \<Rightarrow> 32 word" where
  "SET_BIT_ON_shift off = push_bit off 1"

definition setCreate :: "bs_env \<Rightarrow> int \<Rightarrow> (pointer \<Rightarrow> int) option \<Rightarrow> (int \<Rightarrow> pointer) option
                         \<Rightarrow> string \<Rightarrow> LS_BITSET_T option \<times> bserr" where
  "setCreate env n directFunction inverseFunction caller =
     (if \<not> grant env 56 then (None, LS_BITSET_ERR_NOMEM)
      else
        (let sz = (if n > 0 then n else 32);
             width = c_uint ((sz + 32 - 1) div 32) in
         if \<not> grant env (width * 4) then (None, LS_BITSET_ERR_NOMEM)
         else (Some \<lparr>setDescription = caller, bitmask = replicate (nat width) 0,
                     setSize = c_uint (width * 32), setWidth = width, setNumElements = 0,
                     allowObservers = False, observers = [],
                     getIndexByObject = directFunction, getObjectByIndex = inverseFunction\<rparr>,
               LS_BITSET_ERR_NOERR)))"

definition simpleSetCreate :: "bs_env \<Rightarrow> int \<Rightarrow> string \<Rightarrow> LS_BITSET_T option \<times> bserr" where
  "simpleSetCreate env n caller = setCreate env n None None caller"

text \<open>
  \<open>setDup\<close> copies the structure, allocates a zeroed mask and then copies that new mask
  onto itself.
\<close>

definition setDup :: "bs_env \<Rightarrow> LS_BITSET_T \<Rightarrow> bserr \<Rightarrow> (LS_BITSET_T option \<times> bserr) option" where
  "setDup env s err =
     (if \<not> grant env 56 then Some (None, LS_BITSET_ERR_NOMEM)
      else if \<not> grant env (setWidth s * 4) then None
      else (let set2 = s\<lparr>bitmask := replicate (nat (setWidth s)) 0\<rparr> in
            Some (Some (set2\<lparr>bitmask := bitmask set2\<rparr>), err)))"

definition setTestValue :: "LS_BITSET_T \<Rightarrow> int \<Rightarrow> bool option" where
  "setTestValue s value =
     map_option (\<lambda>w. w AND SET_BIT_ON_shift (SET_GET_BIT_IN_WORD value) \<noteq> 0)
       (read_word (bitmask s) (SET_GET_WORD value))"

text \<open>
  The position of an object: the client's function or the integer it points to;
  \<open>None\<close> when the client's function gives a negative number and \<open>check\<close> is on.
\<close>

definition object_index :: "bs_env \<Rightarrow> LS_BITSET_T \<Rightarrow> pointer \<Rightarrow> bool \<Rightarrow> int option" where
  "object_index env s obj check =
     (case getIndexByObject s of
        None \<Rightarrow> Some (deref env obj)
      | Some f \<Rightarrow> (if check \<and> f obj < 0 then None else Some (f obj)))"

definition setIsMember :: "bs_env \<Rightarrow> LS_BITSET_T option \<Rightarrow> pointer \<Rightarrow> bserr \<Rightarrow> (int \<times> bserr) option" where
  "setIsMember env sp obj err =
     (case sp of
        None \<Rightarrow> Some (0, LS_BITSET_ERR_BADARG)
      | Some s \<Rightarrow>
         (if setNumElements s = 0 then Some (0, LS_BITSET_ERR_SETEMPTY)
          else (case object_index env s obj True of
                  None \<Rightarrow> Some (- 1, LS_BITSET_ERR_FUNC)
                | Some x \<Rightarrow>
                    (if c_uint x \<ge> setSize s then Some (0, err)
                     else map_option (\<lambda>b. (if b then 1 else 0, err)) (setTestValue s x)))))"

definition setEnlarge :: "bs_env \<Rightarrow> LS_BITSET_T \<Rightarrow> int \<Rightarrow> bserr \<Rightarrow> (bool \<times> LS_BITSET_T \<times> bserr) option" where
  "setEnlarge env s newSize err =
     (let oldWidth = setWidth s;
          width = c_uint (oldWidth + c_uint (newSize + 2)) in
      if \<not> grant env (4 * width)
      then Some (False, s\<lparr>setWidth := width, bitmask := []\<rparr>, LS_BITSET_ERR_NOMEM)
      else if width < oldWidth then None
      else Some (True, s\<lparr>setWidth := width,
                         bitmask := bitmask s @ replicate (nat (width - oldWidth)) 0,
                         setSize := c_uint (width * 32)\<rparr>, err))"

fun notify_loop :: "LS_BITSET_OBSERVER_T list \<Rightarrow> LS_BITSET_EVENT_T \<Rightarrow> bserr
                    \<Rightarrow> int \<times> callback list \<times> bserr" where
  "notify_loop [] ev err = (0, [], err)"
| "notify_loop (ob # obs) ev err =
     (if (case ob_select ob of None \<Rightarrow> False | Some f \<Rightarrow> \<not> f (ob_extra ob) ev)
      then notify_loop obs ev err
      else (case ev_type ev of
          LS_BITSET_EVENT_ENTER \<Rightarrow>
            (let (r, cs, e) = notify_loop obs ev err in
             (r, (if ob_enter ob \<noteq> 0 then [(ob_enter ob, ob_extra ob, ev)] else []) @ cs, e))
        | LS_BITSET_EVENT_LEAVE \<Rightarrow>
            (let (r, cs, e) = notify_loop obs ev err in
             (r, (if ob_leave ob \<noteq> 0 then [(ob_leave ob, ob_extra ob, ev)] else []) @ cs, e))
        | LS_BITSET_EVENT_NULL \<Rightarrow> (- 1, [], LS_BITSET_ERR_BADARG)))"

definition setNotifyObservers :: "LS_BITSET_T option \<Rightarrow> LS_BITSET_EVENT_T \<Rightarrow> bserr
                                  \<Rightarrow> int \<times> callback list \<times> bserr" where
  "setNotifyObservers sp ev err =
     (case sp of None \<Rightarrow> (- 1, [], LS_BITSET_ERR_BADARG)
      | Some s \<Rightarrow> notify_loop (observers s) ev err)"

text \<open>
  \<open>setAddElement\<close> tests the pointer \<open>set\<close> after \<open>setEnlarge\<close>, not its result: after a failed
  \<open>realloc\<close> it goes on and writes through the NULL bitmask.
\<close>

definition put_element :: "pointer \<Rightarrow> int \<Rightarrow> LS_BITSET_T \<Rightarrow> bserr \<Rightarrow> bs_result option" where
  "put_element obj x s err =
     (let word = SET_GET_WORD x; offset = SET_GET_BIT_IN_WORD x in
      case read_word (bitmask s) word of
        None \<Rightarrow> None
      | Some w \<Rightarrow>
          (let s2 = s\<lparr>bitmask := (bitmask s)[nat word := w OR SET_BIT_ON_shift offset],
                      setNumElements := c_uint (setNumElements s + 1)\<rparr> in
           if allowObservers s2
           then (let (r, cs, e2) = setNotifyObservers (Some s2)
                       \<lparr>ev_type = LS_BITSET_EVENT_ENTER, ev_entry = obj\<rparr> err in
                 Some \<lparr>rc = 0, bset = Some s2, bitseterrno = e2, calls = cs\<rparr>)
           else Some \<lparr>rc = 0, bset = Some s2, bitseterrno = err, calls = []\<rparr>))"

definition setAddElement :: "bs_env \<Rightarrow> LS_BITSET_T option \<Rightarrow> pointer \<Rightarrow> bserr \<Rightarrow> bs_result option" where
  "setAddElement env sp obj err =
     (case sp of
        None \<Rightarrow> Some \<lparr>rc = - 1, bset = None, bitseterrno = LS_BITSET_ERR_BADARG, calls = []\<rparr>
      | Some s \<Rightarrow>
         (case object_index env s obj True of
            None \<Rightarrow> Some \<lparr>rc = - 1, bset = sp, bitseterrno = LS_BITSET_ERR_FUNC, calls = []\<rparr>
          | Some x \<Rightarrow>
             (if c_uint x \<ge> setSize s
              then (case setEnlarge env s (c_uint x) err of
                      None \<Rightarrow> None
                    | Some (ok, s1, e1) \<Rightarrow> put_element obj x s1 e1)
              else (case setTestValue s x of
                      None \<Rightarrow> None
                    | Some b \<Rightarrow>
                       (if b then Some \<lparr>rc = - 1, bset = sp,
                                        bitseterrno = LS_BITSET_ERR_ISALREDY, calls = []\<rparr>
                        else put_element obj x s err)))))"

text \<open>
  \<open>setRemoveElement\<close> guards on the pointer \<open>value\<close>, which is never negative, so a negative
  index is not rejected; the count is decreased whether or not the bit was set.
\<close>

definition setRemoveElement :: "bs_env \<Rightarrow> LS_BITSET_T option \<Rightarrow> pointer \<Rightarrow> bserr \<Rightarrow> bs_result option" where
  "setRemoveElement env sp obj err =
     (case sp of
        None \<Rightarrow> Some \<lparr>rc = - 1, bset = None, bitseterrno = LS_BITSET_ERR_BADARG, calls = []\<rparr>
      | Some s \<Rightarrow>
         (if setNumElements s = 0
          then Some \<lparr>rc = - 1, bset = sp, bitseterrno = LS_BITSET_ERR_SETEMPTY, calls = []\<rparr>
          else (case object_index env s obj False of
                  None \<Rightarrow> None
                | Some x \<Rightarrow>
                    (if c_uint x \<ge> setSize s
                     then Some \<lparr>rc = 0, bset = sp, bitseterrno = err, calls = []\<rparr>
                     else (let word = SET_GET_WORD x; offset = SET_GET_BIT_IN_WORD x in
                           case read_word (bitmask s) word of
                             None \<Rightarrow> None
                           | Some w \<Rightarrow>
                              (let s2 = s\<lparr>bitmask := (bitmask s)[nat word := w AND NOT (SET_BIT_ON_shift offset)],
                                          setNumElements := c_uint (setNumElements s - 1)\<rparr> in
                               Some \<lparr>rc = 0, bset = Some s2, bitseterrno = err, calls = []\<rparr>))))))"

definition setClear :: "LS_BITSET_T option \<Rightarrow> bserr \<Rightarrow> bs_result option" where
  "setClear sp err =
     (case sp of
        None \<Rightarrow> Some \<lparr>rc = - 1, bset = None, bitseterrno = LS_BITSET_ERR_BADARG, calls = []\<rparr>
      | Some s \<Rightarrow>
         (if nat (setWidth s) \<le> length (bitmask s)
          then Some \<lparr>rc = 0,
                     bset = Some (s\<lparr>bitmask := replicate (nat (setWidth s)) 0 @ drop (nat (setWidth s)) (bitmask s),
                                    setNumElements := 0\<rparr>),
                     bitseterrno = err, calls = []\<rparr>
          else None))"

text \<open>The 256 entries of the table \<open>nbits\<close>, as 16 rows of 16.\<close>

definition nbits :: "nat list" where
  "nbits =
    [0, 1, 1, 2, 1, 2, 2, 3, 1, 2, 2, 3, 2, 3, 3, 4,
     1, 2, 2, 3, 2, 3, 3, 4, 2, 3, 3, 4, 3, 4, 4, 5,
     1, 2, 2, 3, 2, 3, 3, 4, 2, 3, 3, 4, 3, 4, 4, 5,
     2, 3, 3, 4, 3, 4, 4, 5, 3, 4, 4, 5, 4, 5, 5, 6,
     1, 2, 2, 3, 2, 3, 3, 4, 2, 3, 3, 4, 3, 4, 4, 5,
     2, 3, 3, 4, 3, 4, 4, 5, 3, 4, 4, 5, 4, 5, 5, 6,
     2, 3, 3, 4, 3, 4, 4, 5, 3, 4, 4, 5, 4, 5, 5, 6,
     3, 4, 4, 5, 4, 5, 5, 6, 4, 5, 5, 6, 5, 6, 6, 7,
     1, 2, 2, 3, 2, 3, 3, 4, 2, 3, 3, 4, 3, 4, 4, 5,
     2, 3, 3, 4, 3, 4, 4, 5, 3, 4, 4, 5, 4, 5, 5, 6,
     2, 3, 3, 4, 3, 4, 4, 5, 3, 4, 4, 5, 4, 5, 5, 6,
     3, 4, 4, 5, 4, 5, 5, 6, 4, 5, 5, 6, 5, 6, 6, 7,
     2, 3, 3, 4, 3, 4, 4, 5, 3, 4, 4, 5, 4, 5, 5, 6,
     3, 4, 4, 5, 4, 5, 5, 6, 4, 5, 5, 6, 5, 6, 6, 7,
     3, 4, 4, 5, 4, 5, 5, 6, 4, 5, 5, 6, 5, 6, 6, 7,
     4, 5, 5, 6, 5, 6, 6, 7, 5, 6, 6, 7, 6, 7, 7, 8]"

text \<open>The bytes of a word in memory (little endian).\<close>

definition word_bytes :: "32 word \<Rightarrow> nat list" where
  "word_bytes w = map (\<lambda>i. unat (take_bit 8 (drop_bit (8 * i) w))) [0, 1, 2, 3]"

definition getNum1BitsInWord :: "32 word \<Rightarrow> nat" where
  "getNum1BitsInWord w = sum_list (map (\<lambda>b. nbits ! b) (word_bytes w))"

definition setGetNumElements :: "LS_BITSET_T option \<Rightarrow> bserr \<Rightarrow> (int \<times> bserr) option" where
  "setGetNumElements sp err =
     (case sp of
        None \<Rightarrow> Some (- 1, LS_BITSET_ERR_BADARG)
      | Some s \<Rightarrow>
         (let n = nat (c_int (4 * setWidth s)); bytes = concat (map word_bytes (bitmask s)) in
          if n \<le> length bytes
          then Some (c_int (int (sum_list (map (\<lambda>b. nbits ! b) (take n bytes)))), err)
          else None))"

text \<open>
  \<open>setOperate\<close>: \<open>n\<close> words of the source are combined into the destination, then for
  intersection and assignment the \<open>tail\<close> words after them are cleared.
\<close>

fun clear_loop :: "nat \<Rightarrow> 32 word list \<Rightarrow> 32 word list option" where
  "clear_loop 0 d = Some d"
| "clear_loop (Suc n) (x # d) = map_option (\<lambda>ys. 0 # ys) (clear_loop n d)"
| "clear_loop (Suc n) [] = None"

fun operate_loop :: "(32 word \<Rightarrow> 32 word \<Rightarrow> 32 word) \<Rightarrow> nat \<Rightarrow> nat \<Rightarrow> 32 word list \<Rightarrow> 32 word list
                     \<Rightarrow> 32 word list option" where
  "operate_loop f 0 tail d s = clear_loop tail d"
| "operate_loop f (Suc n) tail (x # d) (y # s) =
     map_option (\<lambda>ys. f x y # ys) (operate_loop f n tail d s)"
| "operate_loop f (Suc n) tail _ _ = None"

definition setOperate :: "bs_env \<Rightarrow> LS_BITSET_T \<Rightarrow> LS_BITSET_T \<Rightarrow> int \<Rightarrow> bserr \<Rightarrow> (LS_BITSET_T \<times> bserr) option" where
  "setOperate env dest src op err =
     (if op \<noteq> 0 \<and> op \<noteq> 1 \<and> op \<noteq> 2 \<and> op \<noteq> 5 then Some (dest, LS_BITSET_ERR_EINVAL)
      else
       (case (if setWidth dest < setWidth src then setEnlarge env dest (setWidth src) err
              else Some (True, dest, err)) of
          None \<Rightarrow> None
        | Some (ok, d, e) \<Rightarrow>
           (let nwords = c_int (setWidth src);
                tail = nat (c_int (setWidth d - nwords));
                n = nat nwords;
                res = (if op = 0 then operate_loop (OR) n 0 (bitmask d) (bitmask src)
                       else if op = 1 then operate_loop (AND) n tail (bitmask d) (bitmask src)
                       else if op = 2 then operate_loop (XOR) n 0 (bitmask d) (bitmask src)
                       else operate_loop (\<lambda>x y. y) n tail (bitmask d) (bitmask src)) in
            map_option (\<lambda>bm. (d\<lparr>bitmask := bm\<rparr>, e)) res)))"

section \<open>Iterators\<close>

record LS_BITSET_ITERATOR_T =
  it_set :: "LS_BITSET_T option"
  setCurrentBit :: int
  it_setSize :: int

definition setIteratorAttach :: "LS_BITSET_ITERATOR_T \<Rightarrow> LS_BITSET_T option \<Rightarrow> bserr
                                 \<Rightarrow> int \<times> LS_BITSET_ITERATOR_T \<times> bserr" where
  "setIteratorAttach iter sp err =
     (case sp of
        None \<Rightarrow> (- 1, iter, LS_BITSET_ERR_BADARG)
      | Some s \<Rightarrow> (0, iter\<lparr>it_set := sp, setCurrentBit := 0, it_setSize := setSize s\<rparr>, err))"

definition setIteratorCreate :: "bs_env \<Rightarrow> LS_BITSET_T option \<Rightarrow> bserr \<Rightarrow> LS_BITSET_ITERATOR_T option \<times> bserr" where
  "setIteratorCreate env sp err =
     (case sp of
        None \<Rightarrow> (None, LS_BITSET_ERR_BADARG)
      | Some s \<Rightarrow>
         (if \<not> grant env 16 then (None, LS_BITSET_ERR_NOMEM)
          else (Some \<lparr>it_set = sp, setCurrentBit = 0, it_setSize = setSize s\<rparr>, err)))"

definition setIteratorDetach :: "LS_BITSET_ITERATOR_T \<Rightarrow> bserr \<Rightarrow> LS_BITSET_ITERATOR_T \<times> bserr" where
  "setIteratorDetach iter err =
     (case it_set iter of
        None \<Rightarrow> (iter, LS_BITSET_ERR_BADARG)
      | Some s \<Rightarrow> (iter\<lparr>it_set := None, setCurrentBit := 0, it_setSize := 0\<rparr>, err))"

text \<open>
  The search loop of \<open>setIteratorGetNextElement\<close>: the object found (0 for none), the next
  position and \<open>bitseterrno\<close>.  Without an inverse function the object is the position
  itself, cast to a pointer.
\<close>

function next_loop :: "LS_BITSET_T \<Rightarrow> int \<Rightarrow> bserr \<Rightarrow> (pointer \<times> int \<times> bserr) option" where
  "next_loop s cur err =
     (if cur < setSize s
      then (case setTestValue s (c_int cur) of
              None \<Rightarrow> None
            | Some b \<Rightarrow>
               (if b
                then (case getObjectByIndex s of
                        None \<Rightarrow> Some (cur, cur + 1, err)
                      | Some f \<Rightarrow> (if f cur = 0 then Some (0, cur, LS_BITSET_ERR_FUNC)
                                   else Some (f cur, cur + 1, err)))
                else next_loop s (cur + 1) err))
      else Some (0, cur, err))"
  by pat_completeness auto
termination
  by (relation "measure (\<lambda>(s, cur, err). nat (setSize s - cur))") auto

definition setIteratorGetNextElement :: "LS_BITSET_ITERATOR_T \<Rightarrow> bserr
                                         \<Rightarrow> (pointer \<times> LS_BITSET_ITERATOR_T \<times> bserr) option" where
  "setIteratorGetNextElement iter err =
     (case it_set iter of
        None \<Rightarrow> Some (0, iter, LS_BITSET_ERR_BADARG)
      | Some s \<Rightarrow>
         (if setNumElements s = 0 then Some (0, iter, LS_BITSET_ERR_SETEMPTY)
          else map_option (\<lambda>(object, cur, e). (object, iter\<lparr>setCurrentBit := cur\<rparr>, e))
                 (next_loop s (setCurrentBit iter) err)))"

definition setIteratorBegin :: "LS_BITSET_ITERATOR_T \<Rightarrow> bserr
                                \<Rightarrow> (pointer \<times> LS_BITSET_ITERATOR_T \<times> bserr) option" where
  "setIteratorBegin iter err = setIteratorGetNextElement iter err"

definition setIteratorIsEndOfSet :: "LS_BITSET_ITERATOR_T \<Rightarrow> bserr \<Rightarrow> bool \<times> bserr" where
  "setIteratorIsEndOfSet iter err =
     (case it_set iter of
        None \<Rightarrow> (False, LS_BITSET_ERR_BADARG)
      | Some s \<Rightarrow> (setCurrentBit iter \<ge> it_setSize iter, err))"

text \<open>
  The loop of \<open>setCat\<close>.  \<open>catFunc\<close> gives the text of an entry (None is NULL); the fuel
  counts the rounds, and every round but the last moves the iterator forward.
\<close>

fun setCat_loop :: "nat \<Rightarrow> (pointer \<Rightarrow> string option) \<Rightarrow> int \<Rightarrow> pointer \<Rightarrow> LS_BITSET_ITERATOR_T
                    \<Rightarrow> string \<Rightarrow> bserr \<Rightarrow> (string \<times> bserr) option" where
  "setCat_loop 0 catFunc bufferSize entry iter buffer err = None"
| "setCat_loop (Suc k) catFunc bufferSize entry iter buffer err =
     (if entry \<noteq> 0 \<and> \<not> fst (setIteratorIsEndOfSet iter err)
      then (case catFunc entry of
              None \<Rightarrow> (case setIteratorGetNextElement iter err of
                        None \<Rightarrow> None
                      | Some (entry', iter', err') \<Rightarrow>
                          setCat_loop k catFunc bufferSize entry' iter' buffer err')
            | Some str \<Rightarrow>
               (if int (length buffer + length str) > (bufferSize - 1) mod 2 ^ 64 then Some (buffer, err)
                else (case setIteratorGetNextElement iter err of
                        None \<Rightarrow> None
                      | Some (entry', iter', err') \<Rightarrow>
                          setCat_loop k catFunc bufferSize entry' iter' (buffer @ str) err')))
      else Some (buffer, err))"

definition setCat :: "LS_BITSET_T \<Rightarrow> int \<Rightarrow> (pointer \<Rightarrow> string option) \<Rightarrow> bserr \<Rightarrow> (string \<times> bserr) option" where
  "setCat s bufferSize catFunc err =
     (let iter = \<lparr>it_set = Some s, setCurrentBit = 0, it_setSize = setSize s\<rparr> in
      case setIteratorBegin iter err of
        None \<Rightarrow> None
      | Some (entry, iter', err') \<Rightarrow>
          setCat_loop (nat (setSize s) + 2) catFunc bufferSize entry iter' [] err')"

section \<open>Observers\<close>

definition setAllowObservers :: "bs_env \<Rightarrow> LS_BITSET_T option \<Rightarrow> bserr \<Rightarrow> bs_result" where
  "setAllowObservers env sp err =
     (case sp of
        None \<Rightarrow> \<lparr>rc = - 1, bset = None, bitseterrno = LS_BITSET_ERR_BADARG, calls = []\<rparr>
      | Some s \<Rightarrow>
         (if allowObservers s then \<lparr>rc = 0, bset = sp, bitseterrno = err, calls = []\<rparr>
          else \<lparr>rc = (if grant env 48 then 0 else - 1),
                bset = Some (s\<lparr>allowObservers := True, observers := []\<rparr>),
                bitseterrno = err, calls = []\<rparr>))"

text \<open>
  The variable arguments of \<open>setObserverCreate\<close>: pairs of an event number and a callback,
  up to the event number of \<open>LS_BITSET_EVENT_NULL\<close>.  A list without it reads past the
  arguments.
\<close>

fun observer_args :: "LS_BITSET_OBSERVER_T \<Rightarrow> (int \<times> pointer) list \<Rightarrow> bserr
                      \<Rightarrow> (LS_BITSET_OBSERVER_T option \<times> bserr) option" where
  "observer_args ob [] err = None"
| "observer_args ob ((etype, callback) # args) err =
     (if etype = 2 then Some (Some ob, err)
      else if etype = 0 then observer_args (ob\<lparr>ob_enter := callback\<rparr>) args err
      else if etype = 1 then observer_args (ob\<lparr>ob_leave := callback\<rparr>) args err
      else Some (None, LS_BITSET_ERR_BADARG))"

definition setObserverCreate :: "bs_env \<Rightarrow> string \<Rightarrow> pointer \<Rightarrow> (pointer \<Rightarrow> LS_BITSET_EVENT_T \<Rightarrow> bool) option
     \<Rightarrow> (int \<times> pointer) list \<Rightarrow> bserr \<Rightarrow> (LS_BITSET_OBSERVER_T option \<times> bserr) option" where
  "setObserverCreate env name extra select args err =
     (if \<not> grant env 64 then Some (None, LS_BITSET_ERR_NOMEM)
      else observer_args \<lparr>ob_name = name, ob_extra = extra, ob_select = select,
                          ob_enter = 0, ob_leave = 0\<rparr> args err)"

definition setObserverAttach :: "LS_BITSET_OBSERVER_T option \<Rightarrow> LS_BITSET_T option \<Rightarrow> bserr \<Rightarrow> bs_result" where
  "setObserverAttach obp sp err =
     (case (obp, sp) of
        (Some ob, Some s) \<Rightarrow>
          (if \<not> allowObservers s
           then \<lparr>rc = - 1, bset = sp, bitseterrno = LS_BITSET_ERR_NOOBSVR, calls = []\<rparr>
           else \<lparr>rc = 0, bset = Some (s\<lparr>observers := observers s @ [ob]\<rparr>), bitseterrno = err, calls = []\<rparr>)
      | _ \<Rightarrow> \<lparr>rc = - 1, bset = sp, bitseterrno = LS_BITSET_ERR_BADARG, calls = []\<rparr>)"

section \<open>The set a bitmask stands for\<close>

definition mask_set :: "32 word list \<Rightarrow> nat set" where
  "mask_set bm = {i. i div 32 < length bm \<and> bit (bm ! (i div 32)) (i mod 32)}"

definition bs_inv :: "LS_BITSET_T \<Rightarrow> bool" where
  "bs_inv s \<longleftrightarrow> 0 \<le> setWidth s \<and> length (bitmask s) = nat (setWidth s) \<and>
     setSize s = 32 * setWidth s \<and> setSize s < 2 ^ 31 \<and>
     setNumElements s = int (card (mask_set (bitmask s)))"

text \<open>What a set accepts: an index it holds already, or one that a granted enlargement reaches.\<close>

definition bs_room :: "bs_env \<Rightarrow> int \<Rightarrow> LS_BITSET_T \<Rightarrow> bool" where
  "bs_room env x s \<longleftrightarrow> 0 \<le> x \<and> x < 2 ^ 31 \<and>
     (x < setSize s \<or> (grant env (4 * (setWidth s + x + 2)) \<and> 32 * (setWidth s + x + 2) < 2 ^ 31))"

lemma mask_set_bound: "i \<in> mask_set bm \<Longrightarrow> i < 32 * length bm"
  by (auto simp: mask_set_def)

lemma finite_mask_set [simp]: "finite (mask_set bm)"
  by (rule finite_subset [of _ "{..<32 * length bm}"]) (auto dest: mask_set_bound)

lemma card_mask_set: "card (mask_set bm) \<le> 32 * length bm"
  using card_mono [of "{..<32 * length bm}" "mask_set bm"] by (auto dest: mask_set_bound)

lemma mask_set_zeros [simp]: "mask_set (replicate n 0) = {}"
  by (auto simp: mask_set_def)

lemma mask_set_append_zeros [simp]: "mask_set (bm @ replicate n 0) = mask_set bm"
proof (rule set_eqI)
  fix i
  show "i \<in> mask_set (bm @ replicate n 0) \<longleftrightarrow> i \<in> mask_set bm"
    by (cases "i div 32 < length bm") (auto simp: mask_set_def nth_append)
qed

lemma mask_set_add:
  assumes "x div 32 < length bm"
  shows "mask_set (bm[x div 32 := bm ! (x div 32) OR push_bit (x mod 32) 1]) = insert x (mask_set bm)"
proof (rule set_eqI)
  fix i
  show "i \<in> mask_set (bm[x div 32 := bm ! (x div 32) OR push_bit (x mod 32) 1]) \<longleftrightarrow> i \<in> insert x (mask_set bm)"
  proof (cases "i div 32 = x div 32")
    case True
    then have "i mod 32 = x mod 32 \<longleftrightarrow> i = x" by (metis div_mult_mod_eq)
    with True assms show ?thesis by (auto simp: mask_set_def bit_simps)
  next
    case False
    then have "i \<noteq> x" by auto
    with False show ?thesis by (simp add: mask_set_def nth_list_update)
  qed
qed

lemma mask_set_remove:
  assumes "x div 32 < length bm"
  shows "mask_set (bm[x div 32 := bm ! (x div 32) AND NOT (push_bit (x mod 32) 1)]) = mask_set bm - {x}"
proof (rule set_eqI)
  fix i
  show "i \<in> mask_set (bm[x div 32 := bm ! (x div 32) AND NOT (push_bit (x mod 32) 1)]) \<longleftrightarrow> i \<in> mask_set bm - {x}"
  proof (cases "i div 32 = x div 32")
    case True
    then have "i mod 32 = x mod 32 \<longleftrightarrow> i = x" by (metis div_mult_mod_eq)
    with True assms show ?thesis by (auto simp: mask_set_def bit_simps)
  next
    case False
    then have "i \<noteq> x" by auto
    with False show ?thesis by (simp add: mask_set_def nth_list_update)
  qed
qed

lemma SET_GET_WORD_pos: "0 \<le> x \<Longrightarrow> x < 2 ^ 31 \<Longrightarrow> SET_GET_WORD x = x div 32"
proof -
  assume x: "0 \<le> x" "x < 2 ^ 31"
  then have "is_int32 (x div 32)" unfolding is_int32_def by simp presburger
  with x show ?thesis by (simp add: SET_GET_WORD_def c_int_id)
qed

lemma read_word_pos:
  "0 \<le> x \<Longrightarrow> x < 2 ^ 31 \<Longrightarrow> nat x div 32 < length bm \<Longrightarrow>
   read_word bm (SET_GET_WORD x) = Some (bm ! (nat x div 32)) \<and> nat (SET_GET_WORD x) = nat x div 32 \<and>
   SET_GET_BIT_IN_WORD x = nat x mod 32"
  by (simp add: SET_GET_WORD_pos read_word_def SET_GET_BIT_IN_WORD_def nat_div_distrib nat_mod_distrib)

lemma index_below:
  "bs_inv s \<Longrightarrow> 0 \<le> x \<Longrightarrow> x < setSize s \<Longrightarrow> nat x div 32 < length (bitmask s) \<and> x < 2 ^ 31"
  by (auto simp: bs_inv_def)

lemma setTestValue_iff:
  "bs_inv s \<Longrightarrow> 0 \<le> x \<Longrightarrow> x < setSize s \<Longrightarrow> setTestValue s x = Some (nat x \<in> mask_set (bitmask s))"
  using index_below [of s x] read_word_pos [of x "bitmask s"]
  by (simp add: setTestValue_def SET_BIT_ON_shift_def mask_set_def bit_iff_and_push_bit_not_eq_0)

lemma mask_set_size: "bs_inv s \<Longrightarrow> i \<in> mask_set (bitmask s) \<Longrightarrow> int i < setSize s"
  using mask_set_bound [of i "bitmask s"] by (auto simp: bs_inv_def)

lemma bs_inv_count: "bs_inv s \<Longrightarrow> 0 \<le> setNumElements s \<and> setNumElements s \<le> setSize s"
  using card_mask_set [of "bitmask s"] unfolding bs_inv_def by linarith

lemma setIsMember_iff:
  "bs_inv s \<Longrightarrow> 0 \<le> x \<Longrightarrow> x < 2 ^ 31 \<Longrightarrow> object_index env s obj True = Some x \<Longrightarrow>
   \<exists>e. setIsMember env (Some s) obj err = Some (if nat x \<in> mask_set (bitmask s) then 1 else 0, e)"
  using mask_set_size [of s "nat x"]
  by (auto simp: setIsMember_def setTestValue_iff c_uint_id bs_inv_def [of s])


section \<open>Adding and removing\<close>

definition added :: "int \<Rightarrow> LS_BITSET_T \<Rightarrow> LS_BITSET_T" where
  "added x s = s\<lparr>bitmask := (bitmask s)[nat x div 32 := bitmask s ! (nat x div 32) OR push_bit (nat x mod 32) 1],
                 setNumElements := setNumElements s + 1\<rparr>"

definition enlarged :: "int \<Rightarrow> LS_BITSET_T \<Rightarrow> LS_BITSET_T" where
  "enlarged x s = s\<lparr>setWidth := setWidth s + x + 2, bitmask := bitmask s @ replicate (nat (x + 2)) 0,
                    setSize := 32 * (setWidth s + x + 2)\<rparr>"

definition notified :: "LS_BITSET_T \<Rightarrow> LS_BITSET_EVENT_T \<Rightarrow> callback list" where
  "notified s ev =
     (if allowObservers s
      then map (\<lambda>ob. (ob_enter ob, ob_extra ob, ev))
             (filter (\<lambda>ob. ob_enter ob \<noteq> 0 \<and>
                (case ob_select ob of None \<Rightarrow> True | Some f \<Rightarrow> f (ob_extra ob) ev)) (observers s))
      else [])"

lemma notify_loop_enter:
  "ev_type ev = LS_BITSET_EVENT_ENTER \<Longrightarrow>
   notify_loop obs ev err =
     (0, map (\<lambda>ob. (ob_enter ob, ob_extra ob, ev))
           (filter (\<lambda>ob. ob_enter ob \<noteq> 0 \<and>
              (case ob_select ob of None \<Rightarrow> True | Some f \<Rightarrow> f (ob_extra ob) ev)) obs), err)"
  by (induction obs) (auto split: option.split)

lemma setEnlarge_ok:
  "bs_inv s \<Longrightarrow> 0 \<le> x \<Longrightarrow> grant env (4 * (setWidth s + x + 2)) \<Longrightarrow> 32 * (setWidth s + x + 2) < 2 ^ 31 \<Longrightarrow>
   setEnlarge env s x err = Some (True, enlarged x s, err)"
  by (simp add: setEnlarge_def enlarged_def bs_inv_def c_uint_id Let_def algebra_simps)

lemma enlarged_inv:
  "bs_inv s \<Longrightarrow> 0 \<le> x \<Longrightarrow> 32 * (setWidth s + x + 2) < 2 ^ 31 \<Longrightarrow>
   bs_inv (enlarged x s) \<and> mask_set (bitmask (enlarged x s)) = mask_set (bitmask s)"
  by (auto simp: enlarged_def bs_inv_def)

lemma added_inv:
  assumes "bs_inv s" "0 \<le> x" "x < setSize s" "nat x \<notin> mask_set (bitmask s)"
  shows "bs_inv (added x s) \<and> mask_set (bitmask (added x s)) = insert (nat x) (mask_set (bitmask s))"
  using mask_set_add [of "nat x" "bitmask s"] index_below [OF assms(1-3)] assms
  by (simp add: added_def bs_inv_def)

lemma put_element_ok:
  assumes "bs_inv s" "0 \<le> x" "x < setSize s" "nat x \<notin> mask_set (bitmask s)"
  shows "put_element obj x s err =
    Some \<lparr>rc = 0, bset = Some (added x s), bitseterrno = err,
          calls = notified s \<lparr>ev_type = LS_BITSET_EVENT_ENTER, ev_entry = obj\<rparr>\<rparr>"
proof -
  have "setNumElements s < 2 ^ 32 - 1" "0 \<le> setNumElements s"
    using bs_inv_count [OF assms(1)] assms(1) by (auto simp: bs_inv_def)
  then show ?thesis
    using index_below [OF assms(1-3)] read_word_pos [of x "bitmask s"] assms(2)
    by (simp add: put_element_def Let_def SET_BIT_ON_shift_def added_def c_uint_id notified_def
        setNotifyObservers_def notify_loop_enter)
qed

lemma setAddElement_member:
  "bs_inv s \<Longrightarrow> object_index env s obj True = Some x \<Longrightarrow> 0 \<le> x \<Longrightarrow> nat x \<in> mask_set (bitmask s) \<Longrightarrow>
   setAddElement env (Some s) obj err =
     Some \<lparr>rc = - 1, bset = Some s, bitseterrno = LS_BITSET_ERR_ISALREDY, calls = []\<rparr>"
  using mask_set_size [of s "nat x"] setTestValue_iff [of s x]
  by (simp add: setAddElement_def c_uint_id bs_inv_def)

definition add_target :: "int \<Rightarrow> LS_BITSET_T \<Rightarrow> LS_BITSET_T" where
  "add_target x s = (if x < setSize s then s else enlarged x s)"

lemma add_target_ok:
  assumes "bs_inv s" "bs_room env x s"
  shows "bs_inv (add_target x s)" "mask_set (bitmask (add_target x s)) = mask_set (bitmask s)"
    "x < setSize (add_target x s)"
  using assms enlarged_inv [of s x] by (auto simp: add_target_def bs_room_def enlarged_def bs_inv_def)

lemma setAddElement_new:
  assumes "bs_inv s" "object_index env s obj True = Some x" "bs_room env x s"
    "nat x \<notin> mask_set (bitmask s)"
  shows "setAddElement env (Some s) obj err =
    Some \<lparr>rc = 0, bset = Some (added x (add_target x s)), bitseterrno = err,
          calls = notified s \<lparr>ev_type = LS_BITSET_EVENT_ENTER, ev_entry = obj\<rparr>\<rparr>"
proof -
  have x: "0 \<le> x" "c_uint x = x" using assms(3) by (auto simp: bs_room_def c_uint_id)
  have n: "notified (add_target x s) ev = notified s ev" for ev
    by (simp add: notified_def add_target_def enlarged_def)
  have put: "put_element obj x (add_target x s) err =
      Some \<lparr>rc = 0, bset = Some (added x (add_target x s)), bitseterrno = err,
            calls = notified s \<lparr>ev_type = LS_BITSET_EVENT_ENTER, ev_entry = obj\<rparr>\<rparr>"
    using put_element_ok [of "add_target x s" x obj err] add_target_ok [OF assms(1,3)] x assms(4)
    by (simp add: n)
  show ?thesis
  proof (cases "x < setSize s")
    case True
    then show ?thesis
      using put setTestValue_iff [OF assms(1) x(1)] assms x by (simp add: setAddElement_def add_target_def)
  next
    case False
    then show ?thesis
      using put setEnlarge_ok [of s x env err] assms x
      by (simp add: setAddElement_def add_target_def bs_room_def)
  qed
qed

definition removed :: "int \<Rightarrow> LS_BITSET_T \<Rightarrow> LS_BITSET_T" where
  "removed x s = s\<lparr>bitmask := (bitmask s)[nat x div 32 := bitmask s ! (nat x div 32) AND NOT (push_bit (nat x mod 32) 1)],
                   setNumElements := setNumElements s - 1\<rparr>"

lemma removed_mask:
  "bs_inv s \<Longrightarrow> 0 \<le> x \<Longrightarrow> x < setSize s \<Longrightarrow>
   mask_set (bitmask (removed x s)) = mask_set (bitmask s) - {nat x}"
  using mask_set_remove [of "nat x" "bitmask s"] index_below [of s x] by (simp add: removed_def)

lemma removed_inv:
  assumes "bs_inv s" "0 \<le> x" "x < setSize s"
  shows "bs_inv (removed x s) \<longleftrightarrow> nat x \<in> mask_set (bitmask s)"
proof -
  let ?m = "mask_set (bitmask s)"
  have "bs_inv (removed x s) \<longleftrightarrow> int (card ?m) - 1 = int (card (?m - {nat x}))"
    using removed_mask [OF assms] assms(1) by (simp add: bs_inv_def removed_def)
  also have "\<dots> \<longleftrightarrow> nat x \<in> ?m"
    using card_Suc_Diff1 [of ?m "nat x"] by (cases "nat x \<in> ?m") auto
  finally show ?thesis .
qed

lemma setRemoveElement_ok:
  assumes "bs_inv s" "object_index env s obj False = Some x" "0 \<le> x" "x < setSize s"
    "setNumElements s \<noteq> 0"
  shows "setRemoveElement env (Some s) obj err =
    Some \<lparr>rc = 0, bset = Some (removed x s), bitseterrno = err, calls = []\<rparr>"
proof -
  have "0 < setNumElements s" "setNumElements s \<le> 2 ^ 31"
    using bs_inv_count [OF assms(1)] assms by (auto simp: bs_inv_def)
  then show ?thesis
    using assms index_below [OF assms(1,3,4)] read_word_pos [of x "bitmask s"]
    by (simp add: setRemoveElement_def c_uint_id removed_def SET_BIT_ON_shift_def)
qed

lemmas bs_update_simps = added_def add_target_def enlarged_def removed_def


section \<open>Counting bits\<close>

definition bit_sum :: "nat \<Rightarrow> (nat \<Rightarrow> bool) \<Rightarrow> nat" where
  "bit_sum n P = sum_list (map (\<lambda>i. of_bool (P i)) [0..<n])"

lemma card_bit_sum: "card {i. i < n \<and> P i} = bit_sum n P"
proof (induction n)
  case (Suc n)
  have "{i. i < Suc n \<and> P i} = (if P n then insert n {k. k < n \<and> P k} else {k. k < n \<and> P k})"
    by (auto elim: less_SucE)
  then show ?case using Suc by (simp add: bit_sum_def)
qed (simp add: bit_sum_def)

lemma bit_sum_cong: "(\<And>i. i < n \<Longrightarrow> P i = Q i) \<Longrightarrow> bit_sum n P = bit_sum n Q"
  unfolding bit_sum_def by (rule arg_cong [of _ _ sum_list]) auto

lemma bit_sum_Suc: "bit_sum (Suc n) P = bit_sum n P + of_bool (P n)"
  by (simp add: bit_sum_def)

text \<open>The table doubles: the upper half is the lower half plus the new top bit.\<close>

fun bit_table :: "nat \<Rightarrow> nat list" where
  "bit_table 0 = [0]"
| "bit_table (Suc n) = bit_table n @ map Suc (bit_table n)"

lemma length_bit_table: "length (bit_table n) = 2 ^ n"
  by (induction n) simp_all

lemma bit_table_nth: "b < 2 ^ n \<Longrightarrow> bit_table n ! b = bit_sum n (bit b)"
proof (induction n arbitrary: b)
  case (Suc n)
  show ?case
  proof (cases "b < 2 ^ n")
    case True
    then have "\<not> bit b n" by (simp add: bit_iff_odd)
    then show ?thesis using Suc.IH [OF True] True by (simp add: nth_append length_bit_table bit_sum_def)
  next
    case False
    define c where "c = b - 2 ^ n"
    have c: "b = 2 ^ n + c" "c < 2 ^ n" using False Suc.prems by (auto simp: c_def)
    have tb: "take_bit n b = take_bit n c" by (simp add: c(1) take_bit_eq_mod)
    have "bit b i = bit c i" if "i < n" for i
      using that tb by (metis bit_take_bit_iff)
    moreover have "bit b n" using c by (simp add: bit_iff_odd div_add_self1)
    ultimately have "bit_sum (Suc n) (bit b) = Suc (bit_sum n (bit c))"
      using bit_sum_cong [of n "bit b" "bit c"] by (simp add: bit_sum_Suc)
    then show ?thesis using Suc.IH [OF c(2)] c by (simp add: nth_append length_bit_table)
  qed
qed (simp add: bit_sum_def)

lemma nbits_table: "nbits = bit_table 8"
  by (simp add: nbits_def eval_nat_numeral)

lemma nbits_byte: "b < 256 \<Longrightarrow> nbits ! b = bit_sum 8 (bit b)"
  using bit_table_nth [of b 8] by (simp add: nbits_table)

lemma bit_sum_append: "bit_sum (m + n) P = bit_sum m P + bit_sum n (\<lambda>i. P (m + i))"
proof -
  have "[0..<m + n] = [0..<m] @ map (\<lambda>i. m + i) [0..<n]"
    using upt_add_eq_append [of 0 m n] map_add_upt [of m n] by (simp add: add.commute)
  then show ?thesis by (simp add: bit_sum_def comp_def)
qed

lemma byte_bits:
  "bit_sum 8 (bit (unat (take_bit 8 (drop_bit k w)))) = bit_sum 8 (\<lambda>i. bit (w :: 32 word) (k + i))"
  by (rule bit_sum_cong) (simp add: bit_unsigned_iff bit_take_bit_iff bit_drop_bit_eq)

lemma byte_bound: "unat (take_bit 8 (w :: 32 word)) < 256"
  using take_bit_nat_less_exp [of 8 "unat w"] by (simp add: unsigned_take_bit_eq)

lemma getNum1BitsInWord_card: "getNum1BitsInWord w = card {i. i < 32 \<and> bit w i}"
proof -
  have "getNum1BitsInWord w = bit_sum 8 (\<lambda>i. bit w (0 + i)) + bit_sum 8 (\<lambda>i. bit w (8 + i))
      + bit_sum 8 (\<lambda>i. bit w (16 + i)) + bit_sum 8 (\<lambda>i. bit w (24 + i))"
    unfolding getNum1BitsInWord_def word_bytes_def
    using byte_bits [of 0 w] by (simp add: nbits_byte byte_bound byte_bits del: unsigned_take_bit_eq)
  also have "\<dots> = bit_sum (8 + (8 + (8 + 8))) (bit w)"
    by (simp only: bit_sum_append add.assoc [symmetric] add_0) simp
  finally show ?thesis by (simp add: card_bit_sum)
qed

lemma mask_set_Cons: "mask_set (w # bm) = {i. i < 32 \<and> bit w i} \<union> (\<lambda>i. i + 32) ` mask_set bm"
proof (rule set_eqI)
  fix i
  show "i \<in> mask_set (w # bm) \<longleftrightarrow> i \<in> {i. i < 32 \<and> bit w i} \<union> (\<lambda>i. i + 32) ` mask_set bm"
  proof (cases "i < 32")
    case True
    then show ?thesis by (auto simp: mask_set_def)
  next
    case False
    then obtain j where "i = j + 32" by (metis add.commute le_Suc_ex not_less)
    moreover have "(j + 32) div 32 = Suc (j div 32)" by simp
    ultimately show ?thesis by (auto simp: mask_set_def simp del: div_add_self2)
  qed
qed

lemma card_mask_set_sum: "card (mask_set bm) = sum_list (map getNum1BitsInWord bm)"
proof (induction bm)
  case Nil
  then show ?case by (simp add: mask_set_def)
next
  case (Cons w bm)
  have "card (mask_set (w # bm)) = card {i. i < 32 \<and> bit w i} + card ((\<lambda>i. i + 32) ` mask_set bm)"
    unfolding mask_set_Cons by (rule card_Un_disjoint) auto
  also have "card ((\<lambda>i. i + 32) ` mask_set bm) = card (mask_set bm)"
    by (rule card_image) (simp add: inj_on_def)
  finally show ?case using Cons by (simp add: getNum1BitsInWord_card)
qed

lemma bytes_sum:
  "sum_list (map (\<lambda>b. nbits ! b) (concat (map word_bytes bm))) = card (mask_set bm)"
  by (induction bm) (simp_all add: card_mask_set_sum getNum1BitsInWord_def)

lemma length_bytes: "length (concat (map word_bytes bm)) = 4 * length bm"
  by (induction bm) (simp_all add: word_bytes_def)

section \<open>Word-wise operations\<close>

lemma clear_loop_spec: "n \<le> length d \<Longrightarrow> clear_loop n d = Some (replicate n 0 @ drop n d)"
  by (induction n d rule: clear_loop.induct) auto

lemma operate_loop_spec:
  "n = length s \<Longrightarrow> n + tail \<le> length d \<Longrightarrow>
   operate_loop f n tail d s = Some (map2 f (take n d) s @ replicate tail 0 @ drop (n + tail) d)"
  by (induction f n tail d s rule: operate_loop.induct) (auto simp: clear_loop_spec)

lemma mask_set_nth_eq:
  "length bm = n \<Longrightarrow> (\<And>k. k < n \<Longrightarrow> bm ! k = g k) \<Longrightarrow>
   mask_set bm = {i. i div 32 < n \<and> bit (g (i div 32)) (i mod 32)}"
  by (auto simp: mask_set_def)

definition operate_dest :: "LS_BITSET_T \<Rightarrow> LS_BITSET_T \<Rightarrow> LS_BITSET_T" where
  "operate_dest d s = (if setWidth d < setWidth s then enlarged (setWidth s) d else d)"

definition operate_room :: "bs_env \<Rightarrow> LS_BITSET_T \<Rightarrow> LS_BITSET_T \<Rightarrow> bool" where
  "operate_room env d s \<longleftrightarrow> setWidth s \<le> setWidth d \<or>
     (grant env (4 * (setWidth d + setWidth s + 2)) \<and> 32 * (setWidth d + setWidth s + 2) < 2 ^ 31)"

lemma operate_dest_ok:
  assumes "bs_inv d" "bs_inv s" "operate_room env d s"
  shows "bs_inv (operate_dest d s)" "mask_set (bitmask (operate_dest d s)) = mask_set (bitmask d)"
    "setWidth s \<le> setWidth (operate_dest d s)" "setNumElements (operate_dest d s) = setNumElements d"
    "(if setWidth d < setWidth s then setEnlarge env d (setWidth s) err else Some (True, d, err))
       = Some (True, operate_dest d s, err)"
  using assms enlarged_inv [of d "setWidth s"] setEnlarge_ok [of d "setWidth s" env err]
  by (auto simp: operate_dest_def operate_room_def bs_inv_def enlarged_def)


definition op_set :: "int \<Rightarrow> nat set \<Rightarrow> nat set \<Rightarrow> nat set" where
  "op_set op a b = (if op = 0 then a \<union> b else if op = 1 then a \<inter> b
                    else if op = 2 then (a - b) \<union> (b - a) else b)"

text \<open>The words of the destination after the loops, and the set they stand for.\<close>

definition op_words :: "int \<Rightarrow> 32 word list \<Rightarrow> 32 word list \<Rightarrow> 32 word list" where
  "op_words op d s =
     (let n = length s; f = (if op = 0 then (OR) else if op = 1 then (AND) else if op = 2 then (XOR) else (\<lambda>x y. y)) in
      map2 f (take n d) s @
      (if op = 0 \<or> op = 2 then drop n d else replicate (length d - n) 0))"

lemma op_words_set:
  assumes "length s \<le> length d"
  shows "mask_set (op_words op d s) = op_set op (mask_set d) (mask_set s)"
proof (rule set_eqI)
  fix i
  have l: "length (op_words op d s) = length d"
    using assms by (simp add: op_words_def Let_def)
  show "i \<in> mask_set (op_words op d s) \<longleftrightarrow> i \<in> op_set op (mask_set d) (mask_set s)"
  proof (cases "i div 32 < length s")
    case True
    then show ?thesis using assms
      by (simp add: mask_set_def l) (simp add: op_words_def op_set_def Let_def nth_append bit_simps; blast)
  next
    case False
    show ?thesis
    proof (cases "i div 32 < length d")
      case True
      with False assms show ?thesis
        by (simp add: mask_set_def l) (simp add: op_words_def op_set_def Let_def nth_append)
    next
      assume "\<not> i div 32 < length d"
      with False show ?thesis by (simp add: mask_set_def l op_set_def)
    qed
  qed
qed

lemma length_op_words: "length s \<le> length d \<Longrightarrow> length (op_words op d s) = length d"
  by (simp add: op_words_def Let_def)

lemma setOperate_ok:
  assumes "bs_inv d" "bs_inv s" "operate_room env d s" "op \<in> {0, 1, 2, 5}"
  shows "setOperate env d s op err =
     Some ((operate_dest d s)\<lparr>bitmask := op_words op (bitmask (operate_dest d s)) (bitmask s)\<rparr>, err)"
proof -
  let ?d = "operate_dest d s"
  note ok = operate_dest_ok [OF assms(1-3)]
  have w: "c_int (setWidth s) = setWidth s" "c_int (setWidth ?d - setWidth s) = setWidth ?d - setWidth s"
    using assms(2) ok(1,3) by (auto simp: bs_inv_def c_int_id is_int32_def)
  have l: "length (bitmask s) = nat (setWidth s)" "length (bitmask ?d) = nat (setWidth ?d)"
    "length (bitmask s) \<le> length (bitmask ?d)" "0 \<le> setWidth s"
    using assms(2) ok(1,3) by (auto simp: bs_inv_def)
  show ?thesis
    using assms(4) l ok(3)
    by (auto simp: setOperate_def ok(5) w Let_def operate_loop_spec op_words_def nat_diff_distrib)
qed

section \<open>Iteration\<close>

definition element_object :: "LS_BITSET_T \<Rightarrow> nat \<Rightarrow> pointer" where
  "element_object s i = (case getObjectByIndex s of None \<Rightarrow> int i | Some f \<Rightarrow> f (int i))"

text \<open>The elements from position \<open>cur\<close> on, in increasing order.\<close>

definition elements_from :: "LS_BITSET_T \<Rightarrow> nat \<Rightarrow> nat list" where
  "elements_from s cur = filter (\<lambda>i. i \<in> mask_set (bitmask s)) [cur..<nat (setSize s)]"

lemma elements_from_Cons:
  "cur < nat (setSize s) \<Longrightarrow> elements_from s cur =
     (if cur \<in> mask_set (bitmask s) then cur # elements_from s (Suc cur) else elements_from s (Suc cur))"
  by (simp add: elements_from_def upt_conv_Cons)

lemma elements_from_rest:
  "elements_from s cur = i # is \<Longrightarrow> is = elements_from s (Suc i) \<and> cur \<le> i \<and> i < nat (setSize s) \<and>
     i \<in> mask_set (bitmask s)"
proof (induction "nat (setSize s) - cur" arbitrary: cur)
  case 0
  then show ?case by (simp add: elements_from_def)
next
  case (Suc n)
  then have cur: "cur < nat (setSize s)" by simp
  show ?case
  proof (cases "cur \<in> mask_set (bitmask s)")
    case True
    then show ?thesis using Suc.prems elements_from_Cons [OF cur] cur by auto
  next
    case False
    then have "elements_from s (Suc cur) = i # is" using Suc.prems elements_from_Cons [OF cur] by simp
    moreover have "n = nat (setSize s) - Suc cur" using Suc.hyps(2) by simp
    ultimately show ?thesis using Suc.hyps(1) [of "Suc cur"] by simp
  qed
qed

lemma next_loop_spec:
  assumes "bs_inv s" "\<forall>i\<in>mask_set (bitmask s). element_object s i \<noteq> 0" "0 \<le> cur" "cur \<le> setSize s"
  shows "next_loop s cur err =
     (case elements_from s (nat cur) of
        [] \<Rightarrow> Some (0, setSize s, err)
      | i # is \<Rightarrow> Some (element_object s i, int i + 1, err))"
  using assms
proof (induction s cur err rule: next_loop.induct)
  case (1 s cur err)
  show ?case
  proof (cases "cur < setSize s")
    case True
    then have n: "nat cur < nat (setSize s)" "Suc (nat cur) = nat (cur + 1)" "c_int cur = cur"
      using "1.prems" by (auto simp: bs_inv_def c_int_id is_int32_def)
    have t: "setTestValue s (c_int cur) = Some (nat cur \<in> mask_set (bitmask s))"
      using setTestValue_iff [of s cur] "1.prems" True n by simp
    show ?thesis
    proof (cases "nat cur \<in> mask_set (bitmask s)")
      case True
      then have "element_object s (nat cur) \<noteq> 0" using "1.prems" by blast
      then show ?thesis using True \<open>cur < setSize s\<close> t "1.prems" n elements_from_Cons [OF n(1)]
        by (subst next_loop.simps) (auto simp: element_object_def split: option.splits)
    next
      case False
      then show ?thesis using \<open>cur < setSize s\<close> t "1.prems" n elements_from_Cons [OF n(1)]
          "1.IH" [OF \<open>cur < setSize s\<close> t]
        by (subst next_loop.simps) simp
    qed
  next
    case False
    then show ?thesis using "1.prems" by (subst next_loop.simps) (simp add: elements_from_def)
  qed
qed

abbreviation iter_at :: "LS_BITSET_T \<Rightarrow> int \<Rightarrow> LS_BITSET_ITERATOR_T" where
  "iter_at s cur \<equiv> \<lparr>it_set = Some s, setCurrentBit = cur, it_setSize = setSize s\<rparr>"

lemma setIteratorGetNextElement_spec:
  assumes "bs_inv s" "\<forall>i\<in>mask_set (bitmask s). element_object s i \<noteq> 0" "0 \<le> cur" "cur \<le> setSize s"
    "setNumElements s \<noteq> 0"
  shows "setIteratorGetNextElement (iter_at s cur) err =
     (case elements_from s (nat cur) of
        [] \<Rightarrow> Some (0, iter_at s (setSize s), err)
      | i # is \<Rightarrow> Some (element_object s i, iter_at s (int i + 1), err))"
  using next_loop_spec [OF assms(1-4), of err] assms(5)
  by (simp add: setIteratorGetNextElement_def split: list.splits)


text \<open>
  A round of the loop in \<open>setCat\<close> runs for the entry just fetched only while the iterator
  is not past the end: the entry at the last position is fetched and then dropped.
\<close>

lemma setCat_loop_spec:
  assumes "bs_inv s" "\<forall>i\<in>mask_set (bitmask s). element_object s i \<noteq> 0" "setNumElements s \<noteq> 0"
    and cat: "\<forall>i\<in>mask_set (bitmask s). catFunc (element_object s i) = Some (c i)"
  shows "i \<in> mask_set (bitmask s) \<Longrightarrow> is = elements_from s (Suc i) \<Longrightarrow> length is + 1 < k \<Longrightarrow>
    int (length buf + length (concat (map c (i # is)))) \<le> bufferSize - 1 \<Longrightarrow> bufferSize < 2 ^ 31 \<Longrightarrow>
    setCat_loop k catFunc bufferSize (element_object s i) (iter_at s (int i + 1)) buf err =
      Some (buf @ concat (map c (filter (\<lambda>j. int j + 1 < setSize s) (i # is))), err)"
proof (induction "is" arbitrary: i k buf)
  case Nil
  have i: "int i < setSize s" by (rule mask_set_size [OF assms(1) Nil.prems(1)])
  obtain k' where k: "k = Suc (Suc k')" using Nil.prems(3) by (metis add_0 less_natE list.size(3) plus_1_eq_Suc)
  have g: "setIteratorGetNextElement (iter_at s (int i + 1)) err = Some (0, iter_at s (setSize s), err)"
    using setIteratorGetNextElement_spec [OF assms(1,2), of "int i + 1" err] i Nil.prems(2) assms(3)
    by (simp add: nat_add_distrib)
  have b: "(bufferSize - 1) mod 2 ^ 64 = bufferSize - 1"
    using Nil.prems(4,5) by simp
  show ?case
    using Nil.prems assms(2) cat i g b by (simp add: k setIteratorIsEndOfSet_def)
next
  case (Cons j js)
  have i: "int i < setSize s" by (rule mask_set_size [OF assms(1) Cons.prems(1)])
  have j: "js = elements_from s (Suc j)" "Suc i \<le> j" "j \<in> mask_set (bitmask s)"
    using elements_from_rest [of s "Suc i" j js] Cons.prems(2) by simp_all
  then have ij: "int i + 1 < setSize s" using mask_set_size [OF assms(1) j(3)] by simp
  obtain k' where k: "k = Suc k'" using Cons.prems(3) by (cases k) auto
  have g: "setIteratorGetNextElement (iter_at s (int i + 1)) err =
      Some (element_object s j, iter_at s (int j + 1), err)"
    using setIteratorGetNextElement_spec [OF assms(1,2), of "int i + 1" err] i Cons.prems(2)[symmetric] assms(3)
    by (simp add: nat_add_distrib)
  have b: "(bufferSize - 1) mod 2 ^ 64 = bufferSize - 1"
    using Cons.prems(4,5) by simp
  have "setCat_loop k' catFunc bufferSize (element_object s j) (iter_at s (int j + 1)) (buf @ c i) err =
      Some ((buf @ c i) @ concat (map c (filter (\<lambda>j. int j + 1 < setSize s) (j # js))), err)"
    by (rule Cons.IH [OF j(3,1)]) (use Cons.prems(3-5) k in simp_all)
  then show ?case
    using Cons.prems assms(2) cat ij g b by (simp add: k setIteratorIsEndOfSet_def)
qed

section \<open>Bit vectors as a set store\<close>

text \<open>
  The interface \<open>int_set_store\<close> on a set and its environment.  The object for index \<open>x\<close>
  has address \<open>x\<close>, which both \<open>object_index\<close> lookups turn back into \<open>x\<close>.
\<close>

definition indexed :: "bs_env \<times> LS_BITSET_T \<Rightarrow> bool" where
  "indexed = (\<lambda>(env, s). \<forall>x\<ge>0. object_index env s x True = Some x \<and> object_index env s x False = Some x)"

definition bs_apply :: "(bs_env \<Rightarrow> LS_BITSET_T option \<Rightarrow> pointer \<Rightarrow> bserr \<Rightarrow> bs_result option) \<Rightarrow> int
                        \<Rightarrow> bs_env \<times> LS_BITSET_T \<Rightarrow> bs_env \<times> LS_BITSET_T" where
  "bs_apply op x = (\<lambda>(env, s).
     (env, case op env (Some s) x LS_BITSET_ERR_NOERR of
             None \<Rightarrow> s | Some r \<Rightarrow> (case bset r of None \<Rightarrow> s | Some s' \<Rightarrow> s')))"

lemma object_index_added [simp]:
  "object_index env (added x s) = object_index env s"
  "object_index env (add_target x s) = object_index env s"
  "object_index env (removed x s) = object_index env s"
  by (intro ext; simp add: object_index_def bs_update_simps)+

lemma bs_apply_add:
  assumes "bs_inv s" "indexed (env, s)" "bs_room env x s"
  shows "bs_apply setAddElement x (env, s) =
     (env, if nat x \<in> mask_set (bitmask s) then s else added x (add_target x s))"
  using assms setAddElement_member [of s env x x] setAddElement_new [of s env x x]
  by (simp add: bs_apply_def indexed_def bs_room_def)

lemma bs_apply_remove:
  assumes "bs_inv s" "indexed (env, s)" "i \<in> mask_set (bitmask s)"
  shows "bs_apply setRemoveElement (int i) (env, s) = (env, removed (int i) s)"
proof -
  have "setNumElements s \<noteq> 0" using assms by (auto simp: bs_inv_def card_eq_0_iff)
  then show ?thesis
    using setRemoveElement_ok [OF assms(1), of env "int i" "int i"] assms(2) mask_set_size [OF assms(1,3)]
    by (simp add: bs_apply_def indexed_def)
qed

interpretation bs: int_set_store
  "\<lambda>(env, s). bs_inv s \<and> indexed (env, s)" "\<lambda>(env, s). int ` mask_set (bitmask s)"
  "\<lambda>x (env, s). bs_room env x s"
  "\<lambda>x (env, s). map_option fst (setIsMember env (Some s) x LS_BITSET_ERR_NOERR) = Some 1"
  "bs_apply setAddElement" "bs_apply setRemoveElement"
proof (unfold_locales, goal_cases)
  case (1 s x)
  then show ?case
    using setIsMember_iff [of "snd s" x "fst s" x LS_BITSET_ERR_NOERR]
    by (auto simp: case_prod_beta indexed_def bs_room_def int_image_iff split: if_splits)
next
  case (2 s x)
  then show ?case
    using bs_apply_add [of "snd s" "fst s" x] add_target_ok [of "snd s" "fst s" x]
      added_inv [of "add_target x (snd s)" x]
    by (auto simp: case_prod_beta bs_room_def int_image_iff)
next
  case (3 s x)
  then show ?case
    using bs_apply_add [of "snd s" "fst s" x] add_target_ok [of "snd s" "fst s" x]
      added_inv [of "add_target x (snd s)" x]
    by (auto simp: case_prod_beta bs_room_def indexed_def)
next
  case (4 s x)
  then show ?case
    using bs_apply_remove [of "snd s" "fst s" "nat x"] removed_mask [of "snd s" x]
      mask_set_size [of "snd s" "nat x"]
    by (auto simp: case_prod_beta)
next
  case (5 s x)
  then show ?case
    using bs_apply_remove [of "snd s" "fst s" "nat x"] removed_inv [of "snd s" x]
      mask_set_size [of "snd s" "nat x"]
    by (auto simp: case_prod_beta indexed_def)
qed


section \<open>Properties\<close>

text \<open>C16: Adding an element.  For an index the set can hold, \<open>setAddElement\<close> reports an
  element that is there (-1, \<open>LS_BITSET_ERR_ISALREDY\<close>) and changes nothing; otherwise it
  adds exactly that index, enlarging the mask when needed, keeps the invariant with the
  count, and calls exactly the \<open>enter\<close> callbacks of the observers that select the event.\<close>

theorem setAddElement_correct:
  assumes "bs_inv s" "object_index env s obj True = Some x" "bs_room env x s"
  shows "\<exists>r. setAddElement env (Some s) obj err = Some r \<and>
     (if nat x \<in> mask_set (bitmask s)
      then rc r = - 1 \<and> bset r = Some s \<and> bitseterrno r = LS_BITSET_ERR_ISALREDY \<and> calls r = []
      else rc r = 0 \<and> bitseterrno r = err \<and>
           calls r = notified s \<lparr>ev_type = LS_BITSET_EVENT_ENTER, ev_entry = obj\<rparr> \<and>
           (\<exists>s'. bset r = Some s' \<and> bs_inv s' \<and>
                 mask_set (bitmask s') = insert (nat x) (mask_set (bitmask s)) \<and>
                 setNumElements s' = setNumElements s + 1))"
proof (cases "nat x \<in> mask_set (bitmask s)")
  case True
  then show ?thesis using setAddElement_member [OF assms(1,2)] assms(3) by (simp add: bs_room_def)
next
  case False
  let ?s = "added x (add_target x s)"
  have "0 \<le> x" using assms(3) by (simp add: bs_room_def)
  then have "bs_inv ?s \<and> mask_set (bitmask ?s) = insert (nat x) (mask_set (bitmask s))"
    using added_inv [of "add_target x s" x] add_target_ok [OF assms(1,3)] False by simp
  then show ?thesis
    using False setAddElement_new [OF assms False, of err] by (simp add: bs_update_simps)
qed

theorem setAddElement_correct_witness:
  "let env = \<lparr>deref = (\<lambda>p. p), grant = (\<lambda>n. True)\<rparr>;
       s = \<lparr>setDescription = ''s'', bitmask = [0], setSize = 32, setWidth = 1, setNumElements = 0,
            allowObservers = False, observers = [], getIndexByObject = None, getObjectByIndex = None\<rparr> in
   bs_inv s \<and> bs_room env 40 s \<and>
   (\<exists>r s'. setAddElement env (Some s) 40 LS_BITSET_ERR_NOERR = Some r \<and> bset r = Some s' \<and>
           bs_inv s' \<and> mask_set (bitmask s') = {40})"
proof -
  let ?env = "\<lparr>deref = (\<lambda>p. p), grant = (\<lambda>n. True)\<rparr>"
  let ?s = "\<lparr>setDescription = ''s'', bitmask = [0], setSize = 32, setWidth = 1, setNumElements = 0,
            allowObservers = False, observers = [], getIndexByObject = None, getObjectByIndex = None\<rparr>"
  have m: "mask_set [0] = {}" using mask_set_zeros [of 1] by simp
  have "bs_inv ?s" "bs_room ?env 40 ?s" "object_index ?env ?s 40 True = Some 40"
    by (simp_all add: bs_inv_def bs_room_def object_index_def m)
  then show ?thesis
    using setAddElement_correct [of ?s ?env 40 40 LS_BITSET_ERR_NOERR] m by auto
qed

text \<open>C35: Removing an element clears exactly its bit and decreases the count, so the count
  stays the number of elements exactly when the element was there: removing an absent
  element leaves a count that is one too small.\<close>

theorem setRemoveElement_correct:
  assumes "bs_inv s" "object_index env s obj False = Some x" "0 \<le> x" "x < setSize s"
    "setNumElements s \<noteq> 0"
  shows "\<exists>s'. setRemoveElement env (Some s) obj err =
           Some \<lparr>rc = 0, bset = Some s', bitseterrno = err, calls = []\<rparr> \<and>
         mask_set (bitmask s') = mask_set (bitmask s) - {nat x} \<and>
         setNumElements s' = setNumElements s - 1 \<and>
         (bs_inv s' \<longleftrightarrow> nat x \<in> mask_set (bitmask s))"
proof (intro exI conjI)
  show "setRemoveElement env (Some s) obj err =
      Some \<lparr>rc = 0, bset = Some (removed x s), bitseterrno = err, calls = []\<rparr>"
    by (rule setRemoveElement_ok [OF assms])
qed (use removed_mask removed_inv assms in \<open>auto simp: removed_def\<close>)

theorem setRemoveElement_correct_witness:
  "let env = \<lparr>deref = (\<lambda>p. p), grant = (\<lambda>n. True)\<rparr>;
       s = \<lparr>setDescription = ''s'', bitmask = [1], setSize = 32, setWidth = 1, setNumElements = 1,
            allowObservers = False, observers = [], getIndexByObject = None, getObjectByIndex = None\<rparr> in
   bs_inv s \<and>
   (\<exists>s'. setRemoveElement env (Some s) 5 LS_BITSET_ERR_NOERR =
           Some \<lparr>rc = 0, bset = Some s', bitseterrno = LS_BITSET_ERR_NOERR, calls = []\<rparr> \<and>
         mask_set (bitmask s') = {0} \<and> \<not> bs_inv s')"
proof -
  let ?env = "\<lparr>deref = (\<lambda>p. p), grant = (\<lambda>n. True)\<rparr>"
  let ?s = "\<lparr>setDescription = ''s'', bitmask = [1], setSize = 32, setWidth = 1, setNumElements = 1,
            allowObservers = False, observers = [], getIndexByObject = None, getObjectByIndex = None\<rparr>"
  have m: "mask_set [1] = {0}" by (auto simp: mask_set_Cons mask_set_def bit_simps)
  have "bs_inv ?s" "object_index ?env ?s 5 False = Some 5"
    by (simp_all add: bs_inv_def object_index_def m)
  then show ?thesis
    using setRemoveElement_correct [of ?s ?env 5 5 LS_BITSET_ERR_NOERR] m by auto
qed

text \<open>C25: The byte table counts bits: \<open>getNum1BitsInWord\<close> is the number of bits set in
  every word, and on a well-formed set \<open>setGetNumElements\<close>, which recounts the mask byte by
  byte, agrees with the number of elements and with the maintained count.\<close>

theorem bit_counts_correct:
  "getNum1BitsInWord w = card {i. i < 32 \<and> bit w i} \<and>
   (bs_inv s \<longrightarrow> setGetNumElements (Some s) err = Some (int (card (mask_set (bitmask s))), err) \<and>
                 setNumElements s = int (card (mask_set (bitmask s))))"
proof -
  have "setGetNumElements (Some s) err = Some (int (card (mask_set (bitmask s))), err)" if "bs_inv s"
  proof -
    have "c_int (4 * setWidth s) = 4 * setWidth s" using that
      by (auto simp: bs_inv_def c_int_id is_int32_def)
    moreover have "int (card (mask_set (bitmask s))) < 2 ^ 31"
      using bs_inv_count [OF that] that by (auto simp: bs_inv_def)
    ultimately show ?thesis using that
      by (auto simp: setGetNumElements_def bs_inv_def Let_def length_bytes bytes_sum c_int_id is_int32_def nat_mult_distrib)
  qed
  then show ?thesis by (auto simp: getNum1BitsInWord_card bs_inv_def)
qed


theorem bit_counts_correct_witness:
  "let s = \<lparr>setDescription = ''s'', bitmask = [1], setSize = 32, setWidth = 1, setNumElements = 1,
            allowObservers = False, observers = [], getIndexByObject = None, getObjectByIndex = None\<rparr> in
   bs_inv s \<and> setGetNumElements (Some s) LS_BITSET_ERR_NOERR = Some (1, LS_BITSET_ERR_NOERR)"
proof -
  let ?s = "\<lparr>setDescription = ''s'', bitmask = [1], setSize = 32, setWidth = 1, setNumElements = 1,
            allowObservers = False, observers = [], getIndexByObject = None, getObjectByIndex = None\<rparr>"
  have m: "mask_set [1] = {0}" by (auto simp: mask_set_Cons mask_set_def bit_simps)
  have "bs_inv ?s" by (simp add: bs_inv_def m)
  then show ?thesis using bit_counts_correct [of 1 ?s LS_BITSET_ERR_NOERR] by (simp add: m)
qed

text \<open>C17: The word loops of \<open>setOperate\<close> compute union, intersection and assignment of
  the sets; \<open>LS_SET_DIFFERENCE\<close> computes the symmetric difference.  None of them touches
  \<open>setNumElements\<close>, so the result is a well-formed set only when its size happens not to
  change.\<close>

theorem setOperate_correct:
  assumes "bs_inv d" "bs_inv s" "operate_room env d s" "op \<in> {0, 1, 2, 5}"
  shows "\<exists>d'. setOperate env d s op err = Some (d', err) \<and>
     mask_set (bitmask d') = op_set op (mask_set (bitmask d)) (mask_set (bitmask s)) \<and>
     setNumElements d' = setNumElements d \<and>
     (bs_inv d' \<longleftrightarrow> card (op_set op (mask_set (bitmask d)) (mask_set (bitmask s))) = card (mask_set (bitmask d)))"
proof -
  let ?e = "operate_dest d s"
  let ?d = "?e\<lparr>bitmask := op_words op (bitmask ?e) (bitmask s)\<rparr>"
  note ok = operate_dest_ok [OF assms(1-3)]
  have l: "length (bitmask s) \<le> length (bitmask ?e)"
    using ok(1,3) assms(2) by (auto simp: bs_inv_def)
  have m: "mask_set (bitmask ?d) = op_set op (mask_set (bitmask d)) (mask_set (bitmask s))"
    by (simp add: op_words_set [OF l] ok(2))
  moreover have "bs_inv ?d \<longleftrightarrow> setNumElements ?e = int (card (mask_set (bitmask ?d)))"
    using ok(1) by (simp add: bs_inv_def length_op_words [OF l])
  moreover have "setNumElements ?e = int (card (mask_set (bitmask d)))"
    using ok(1,2) by (simp add: bs_inv_def)
  ultimately show ?thesis using setOperate_ok [OF assms, of err] ok(4) by auto
qed

theorem setOperate_correct_witness:
  "let env = \<lparr>deref = (\<lambda>p. p), grant = (\<lambda>n. True)\<rparr>;
       s = (\<lambda>w n. \<lparr>setDescription = ''s'', bitmask = [w], setSize = 32, setWidth = 1, setNumElements = n,
            allowObservers = False, observers = [], getIndexByObject = None, getObjectByIndex = None\<rparr>) in
   bs_inv (s 0 0) \<and> bs_inv (s 1 1) \<and>
   (\<exists>d'. setOperate env (s 0 0) (s 1 1) 2 LS_BITSET_ERR_NOERR = Some (d', LS_BITSET_ERR_NOERR) \<and>
         mask_set (bitmask d') = {0} \<and> setNumElements d' = 0)"
proof -
  let ?env = "\<lparr>deref = (\<lambda>p. p), grant = (\<lambda>n. True)\<rparr>"
  let ?s = "\<lambda>w n. \<lparr>setDescription = ''s'', bitmask = [w], setSize = 32, setWidth = 1, setNumElements = n,
            allowObservers = False, observers = [], getIndexByObject = None, getObjectByIndex = None\<rparr>"
  have m: "mask_set [1] = {0}" "mask_set [0] = {}"
    using mask_set_zeros [of 1] by (auto simp: mask_set_Cons mask_set_def bit_simps)
  have "bs_inv (?s 0 0)" "bs_inv (?s 1 1)" "operate_room ?env (?s 0 0) (?s 1 1)"
    by (simp_all add: bs_inv_def operate_room_def m)
  then show ?thesis
    using setOperate_correct [of "?s 0 0" "?s 1 1" ?env 2 LS_BITSET_ERR_NOERR] m by (auto simp: op_set_def)
qed

text \<open>C18: The iteration idiom of the daemons, as \<open>setCat\<close> runs it: with enough room in
  the buffer it terminates and writes the text of the elements in increasing order, of
  all but one: an element at the last position \<open>setSize - 1\<close> is never visited, because
  the iterator is already past the end when its entry is tested.\<close>

theorem setCat_visits:
  assumes "bs_inv s" "\<forall>i\<in>mask_set (bitmask s). element_object s i \<noteq> 0 \<and> catFunc (element_object s i) = Some (c i)"
    "int (length (concat (map c (elements_from s 0)))) \<le> bufferSize - 1" "bufferSize < 2 ^ 31"
  shows "\<exists>e. setCat s bufferSize catFunc err =
     Some (concat (map c (filter (\<lambda>i. int i + 1 < setSize s) (elements_from s 0))), e)"
proof (cases "setNumElements s = 0")
  case True
  then have "elements_from s 0 = []" using assms(1) by (simp add: elements_from_def bs_inv_def)
  with True show ?thesis
    by (simp add: setCat_def setIteratorBegin_def setIteratorGetNextElement_def)
next
  case False
  have o: "\<forall>i\<in>mask_set (bitmask s). element_object s i \<noteq> 0"
    "\<forall>i\<in>mask_set (bitmask s). catFunc (element_object s i) = Some (c i)"
    using assms(2) by auto
  have z: "(0::int) \<le> setSize s" using assms(1) by (auto simp: bs_inv_def)
  note g = setIteratorGetNextElement_spec [OF assms(1) o(1) order_refl z False, of err]
  show ?thesis
  proof (cases "elements_from s 0")
    case Nil
    then show ?thesis using g by (simp add: setCat_def setIteratorBegin_def)
  next
    case (Cons i rest)
    note r = elements_from_rest [OF Cons]
    have "length rest \<le> length (elements_from s 0)" using Cons by simp
    also have "\<dots> \<le> nat (setSize s)"
      unfolding elements_from_def by (rule order_trans [OF length_filter_le]) simp
    finally have "length rest + 1 < nat (setSize s) + 2" by simp
    then show ?thesis
      using setCat_loop_spec [OF assms(1) o(1) False o(2), of i rest "nat (setSize s) + 2" "[]" bufferSize err]
        g r Cons assms(3,4) by (simp add: setCat_def setIteratorBegin_def)
  qed
qed

theorem setCat_visits_witness:
  "let s = \<lparr>setDescription = ''s'', bitmask = [0x80000002], setSize = 32, setWidth = 1, setNumElements = 2,
            allowObservers = False, observers = [], getIndexByObject = None, getObjectByIndex = None\<rparr> in
   mask_set (bitmask s) = {1, 31} \<and>
   (\<exists>e. setCat s 100 (\<lambda>p. Some (if p = 31 then ''b'' else ''a'')) LS_BITSET_ERR_NOERR = Some (''a'', e))"
proof -
  let ?s = "\<lparr>setDescription = ''s'', bitmask = [0x80000002], setSize = 32, setWidth = 1, setNumElements = 2,
            allowObservers = False, observers = [], getIndexByObject = None, getObjectByIndex = None\<rparr>"
  have b: "bit (0x80000002 :: 32 word) i \<longleftrightarrow> i = 1 \<or> i = 31" if "i < 32" for i
  proof -
    have "(0x80000002 :: 32 word) = push_bit 1 1 OR push_bit 31 1" by simp
    then show ?thesis using that by (simp only: bit_simps) auto
  qed
  have "mask_set [0x80000002] = {i. i < 32 \<and> bit (0x80000002 :: 32 word) i}"
    unfolding mask_set_Cons by (simp add: mask_set_def)
  also have "\<dots> = {1, 31}" using b by auto
  finally have m: "mask_set [0x80000002] = {1, 31}" .
  have e: "elements_from ?s 0 = [1, 31]"
    by (simp add: elements_from_def m upt_rec)
  have "bs_inv ?s" by (simp add: bs_inv_def m)
  then show ?thesis
    using setCat_visits [of ?s "\<lambda>p. Some (if p = 31 then ''b'' else ''a'')"
        "\<lambda>i. if i = 31 then ''b'' else ''a''" 100 LS_BITSET_ERR_NOERR]
    by (simp add: m e element_object_def)
qed

text \<open>C36: \<open>setDup\<close> gives an empty mask with the old count: the copy has no element, and it
  is a well-formed set only when the original is empty.\<close>

theorem setDup_loses_elements:
  assumes "bs_inv s" "grant env 56" "grant env (setWidth s * 4)"
  shows "\<exists>s'. setDup env s err = Some (Some s', err) \<and> mask_set (bitmask s') = {} \<and>
     setNumElements s' = setNumElements s \<and> (bs_inv s' \<longleftrightarrow> mask_set (bitmask s) = {})"
  using assms by (auto simp: setDup_def bs_inv_def)

theorem setDup_loses_elements_witness:
  "let env = \<lparr>deref = (\<lambda>p. p), grant = (\<lambda>n. True)\<rparr>;
       s = \<lparr>setDescription = ''s'', bitmask = [1], setSize = 32, setWidth = 1, setNumElements = 1,
            allowObservers = False, observers = [], getIndexByObject = None, getObjectByIndex = None\<rparr> in
   mask_set (bitmask s) = {0} \<and>
   (\<exists>s'. setDup env s LS_BITSET_ERR_NOERR = Some (Some s', LS_BITSET_ERR_NOERR) \<and>
         mask_set (bitmask s') = {} \<and> \<not> bs_inv s')"
proof -
  let ?env = "\<lparr>deref = (\<lambda>p. p), grant = (\<lambda>n. True)\<rparr>"
  let ?s = "\<lparr>setDescription = ''s'', bitmask = [1], setSize = 32, setWidth = 1, setNumElements = 1,
            allowObservers = False, observers = [], getIndexByObject = None, getObjectByIndex = None\<rparr>"
  have m: "mask_set [1] = {0}" by (auto simp: mask_set_Cons mask_set_def bit_simps)
  have "bs_inv ?s" by (simp add: bs_inv_def m)
  then show ?thesis
    using setDup_loses_elements [of ?s ?env LS_BITSET_ERR_NOERR] by (auto simp: m)
qed

end
