(* ===== verification/HashTab.thy ===== *)
theory HashTab
  imports Interfaces "HOL-Library.Multiset"
begin

text \<open>
  lsf/lib/lib.table.c: the chained hash table every daemon keeps its jobs, users, hosts
  and accounts in, and the membership tables built on it (lsbatch/lib/lsb.misc.c).
  A slot is the list of its entries in the order of \<open>bwPtr\<close> from the header, so that
  \<open>insList\<close> at the header is a cons.  Keys are unique in a table, so an entry pointer
  is named by its key.  A data pointer is \<open>'d option\<close> with \<open>None\<close> for NULL, a freed slot
  array is \<open>[]\<close>, and an operation that would index a missing slot array or divide by a
  zero size has the result \<open>None\<close>.  The trailing underscore of the C names is dropped.
\<close>

record 'd hEnt =
  keyname :: string
  hData :: "'d option"

record 'd hTab =
  slotPtr :: "'d hEnt list list"
  numEnts :: int
  tabSize :: int

definition primes :: "int list" where
  "primes = [101, 1009, 5009, 10007, 20011, 50021, 100003, 200003, 500009, 1030637]"

fun closest_loop :: "int \<Rightarrow> int list \<Rightarrow> int option" where
  "closest_loop x [] = None"
| "closest_loop x (q # qs) = (if x < q then Some q else closest_loop x qs)"

definition getClosestPrime :: "int \<Rightarrow> int" where
  "getClosestPrime x = (case closest_loop x primes of Some q \<Rightarrow> q | None \<Rightarrow> last primes)"

text \<open>A plain \<open>char\<close> is signed; it is converted to \<open>unsigned int\<close> in the hash.\<close>

definition char_val :: "char \<Rightarrow> int" where
  "char_val c = (let n = int (of_char c) in if n \<ge> 128 then n - 256 else n)"

fun addr_loop :: "int \<Rightarrow> int \<Rightarrow> string \<Rightarrow> int" where
  "addr_loop n ha [] = ha"
| "addr_loop n ha (c # cs) = addr_loop n (c_uint (ha * 128 + char_val c) mod n) cs"

definition getAddr :: "'d hTab \<Rightarrow> string \<Rightarrow> int" where
  "getAddr t key = addr_loop (tabSize t) 0 key"

definition slot_of :: "'d hTab \<Rightarrow> string \<Rightarrow> nat option" where
  "slot_of t key =
     (if tabSize t \<le> 0 \<or> int (length (slotPtr t)) \<le> getAddr t key then None
      else Some (nat (getAddr t key)))"

fun h_findEnt :: "string \<Rightarrow> 'd hEnt list \<Rightarrow> 'd hEnt option" where
  "h_findEnt key [] = None"
| "h_findEnt key (e # es) = (if keyname e = key then Some e else h_findEnt key es)"

definition h_initTab :: "int \<Rightarrow> 'd hTab" where
  "h_initTab numSlots =
     (let n = getClosestPrime numSlots in
      \<lparr>slotPtr = replicate (nat n) [], numEnts = 0, tabSize = n\<rparr>)"

text \<open>\<open>h_freeTab\<close>: the data handed to \<open>freeFunc\<close> (or \<open>free\<close>), in order, and the emptied table.\<close>

definition h_freeTab :: "'d hTab \<Rightarrow> 'd list \<times> 'd hTab" where
  "h_freeTab t = (List.map_filter hData (concat (slotPtr t)), t\<lparr>slotPtr := [], numEnts := 0\<rparr>)"

definition h_freeRefTab :: "'d hTab \<Rightarrow> 'd hTab" where
  "h_freeRefTab t = t\<lparr>slotPtr := [], numEnts := 0\<rparr>"

definition h_TabEmpty :: "'d hTab \<Rightarrow> bool" where
  "h_TabEmpty t \<longleftrightarrow> numEnts t = 0"

definition h_getEnt :: "'d hTab \<Rightarrow> string \<Rightarrow> 'd hEnt option option" where
  "h_getEnt t key =
     (if numEnts t = 0 then Some None
      else map_option (\<lambda>i. h_findEnt key (slotPtr t ! i)) (slot_of t key))"

text \<open>\<open>insList\<close> of an entry at the header of slot \<open>i\<close>.\<close>

definition insList :: "'d hEnt \<Rightarrow> nat \<Rightarrow> 'd hTab \<Rightarrow> 'd hTab" where
  "insList e i t = t\<lparr>slotPtr := (slotPtr t)[i := e # slotPtr t ! i]\<rparr>"

text \<open>The inner loop of \<open>resetTab\<close>: entries leave their old slot in \<open>bwPtr\<close> order.\<close>

fun move_loop :: "'d hEnt list \<Rightarrow> 'd hTab \<Rightarrow> 'd hTab option" where
  "move_loop [] t = Some t"
| "move_loop (e # es) t =
     (case slot_of t (keyname e) of
        None \<Rightarrow> None
      | Some i \<Rightarrow> move_loop es ((insList e i t)\<lparr>numEnts := numEnts t + 1\<rparr>))"

definition resetTab :: "'d hTab \<Rightarrow> 'd hTab option" where
  "resetTab t = move_loop (concat (take (nat (tabSize t)) (slotPtr t))) (h_initTab (tabSize t * 2))"

text \<open>
  \<open>h_addEnt\<close> returns the entry, whether it is new, and the table.  The limit is
  \<open>numEnts >= 1.5 * size\<close>, compared in \<open>double\<close>, that is \<open>2 * numEnts >= 3 * size\<close>.
\<close>

definition h_addEnt :: "'d hTab \<Rightarrow> string \<Rightarrow> ('d hEnt \<times> bool \<times> 'd hTab) option" where
  "h_addEnt t key =
     (case slot_of t key of
        None \<Rightarrow> None
      | Some i \<Rightarrow>
         (case h_findEnt key (slotPtr t ! i) of
            Some e \<Rightarrow> Some (e, False, t)
          | None \<Rightarrow>
             (case (if 2 * numEnts t \<ge> 3 * tabSize t then resetTab t else Some t) of
                None \<Rightarrow> None
              | Some t1 \<Rightarrow>
                 (case slot_of t1 key of
                    None \<Rightarrow> None
                  | Some j \<Rightarrow>
                     (let e = \<lparr>keyname = key, hData = None\<rparr> in
                      Some (e, True, (insList e j t1)\<lparr>numEnts := numEnts t1 + 1\<rparr>))))))"

text \<open>\<open>remList\<close> of the entry with a given key, wherever its slot is.\<close>

definition remList :: "string \<Rightarrow> 'd hTab \<Rightarrow> 'd hTab" where
  "remList key t = t\<lparr>slotPtr := map (filter (\<lambda>e. keyname e \<noteq> key)) (slotPtr t)\<rparr>"

definition h_rmEnt :: "'d hTab \<Rightarrow> 'd hEnt option \<Rightarrow> 'd hTab" where
  "h_rmEnt t ep = (case ep of None \<Rightarrow> t | Some e \<Rightarrow> (remList (keyname e) t)\<lparr>numEnts := numEnts t - 1\<rparr>)"

text \<open>\<open>h_delEnt\<close> also frees the data, which it returns.\<close>

definition h_delEnt :: "'d hTab \<Rightarrow> 'd hEnt option \<Rightarrow> 'd option \<times> 'd hTab" where
  "h_delEnt t ep =
     (case ep of None \<Rightarrow> (None, t)
      | Some e \<Rightarrow> (hData e, (remList (keyname e) t)\<lparr>numEnts := numEnts t - 1\<rparr>))"

definition h_delRef :: "'d hTab \<Rightarrow> 'd hEnt option \<Rightarrow> 'd hTab" where
  "h_delRef t ep = (case ep of None \<Rightarrow> t | Some e \<Rightarrow> (remList (keyname e) t)\<lparr>numEnts := numEnts t - 1\<rparr>)"

text \<open>The assignment \<open>ent->hData = d\<close> that clients make on the entry with key \<open>key\<close>.\<close>

definition set_hData :: "string \<Rightarrow> 'd option \<Rightarrow> 'd hTab \<Rightarrow> 'd hTab" where
  "set_hData key d t =
     t\<lparr>slotPtr := map (map (\<lambda>e. if keyname e = key then e\<lparr>hData := d\<rparr> else e)) (slotPtr t)\<rparr>"

text \<open>
  The iterator: the next slot, and the entries of the current slot still to come
  (none when \<open>hEntPtr\<close> is NULL or back at the header).
\<close>

record 'd sTab =
  nIndex :: nat
  pending :: "'d hEnt list"

function next_slot :: "'d hEnt list list \<Rightarrow> nat \<Rightarrow> ('d hEnt \<times> 'd sTab) option \<times> nat" where
  "next_slot slots i =
     (if length slots \<le> i then (None, i)
      else (case slots ! i of
              e # es \<Rightarrow> (Some (e, \<lparr>nIndex = Suc i, pending = es\<rparr>), Suc i)
            | [] \<Rightarrow> next_slot slots (Suc i)))"
  by pat_completeness auto
termination
  by (relation "measure (\<lambda>(slots, i). length slots - i)") auto

definition h_nextEnt :: "'d hTab \<Rightarrow> 'd sTab \<Rightarrow> 'd hEnt option \<times> 'd sTab" where
  "h_nextEnt t sp =
     (case pending sp of
        e # es \<Rightarrow> (Some e, sp\<lparr>pending := es\<rparr>)
      | [] \<Rightarrow> (case next_slot (slotPtr t) (nIndex sp) of
                (Some (e, sp'), _) \<Rightarrow> (Some e, sp')
              | (None, i) \<Rightarrow> (None, sp\<lparr>nIndex := i\<rparr>)))"

definition h_firstEnt :: "'d hTab \<Rightarrow> 'd hEnt option \<times> 'd sTab" where
  "h_firstEnt t =
     (let sp = \<lparr>nIndex = 0, pending = []\<rparr> in
      if slotPtr t = [] then (None, sp) else h_nextEnt t sp)"

section \<open>Membership tables\<close>

fun nat_digits :: "nat \<Rightarrow> string" where
  "nat_digits n = (if n < 10 then [char_of (48 + n)] else nat_digits (n div 10) @ [char_of (48 + n mod 10)])"

text \<open>
  \<open>sprintf(memberStr, "%lld", member)\<close>.  The operations below are on a table pointer that is
  not NULL; on NULL the code answers NULL or FALSE and does nothing.
\<close>

definition long_format :: "long \<Rightarrow> string" where
  "long_format n = (if n < 0 then CHR ''-'' # nat_digits (nat (- n)) else nat_digits (nat n))"

definition addMembStr :: "'d hTab \<Rightarrow> string \<Rightarrow> (bool \<times> 'd hTab) option" where
  "addMembStr t memberStr = map_option (\<lambda>(e, new, t'). (new, t')) (h_addEnt t memberStr)"

definition remvMembStr :: "'d hTab \<Rightarrow> string \<Rightarrow> (bool \<times> 'd hTab) option" where
  "remvMembStr t memberStr =
     (case h_getEnt t memberStr of
        None \<Rightarrow> None
      | Some None \<Rightarrow> Some (False, t)
      | Some (Some e) \<Rightarrow> Some (True, snd (h_delEnt (set_hData (keyname e) None t) (Some (e\<lparr>hData := None\<rparr>)))))"

definition chekMembStr :: "'d hTab \<Rightarrow> string \<Rightarrow> 'd hEnt option option" where
  "chekMembStr t memberStr = h_getEnt t memberStr"

definition addMemb :: "'d hTab \<Rightarrow> long \<Rightarrow> (bool \<times> 'd hTab) option" where
  "addMemb t member = map_option (\<lambda>(e, new, t'). (new, t')) (h_addEnt t (long_format member))"

definition remvMemb :: "'d hTab \<Rightarrow> long \<Rightarrow> (bool \<times> 'd hTab) option" where
  "remvMemb t member =
     (case h_getEnt t (long_format member) of
        None \<Rightarrow> None
      | Some None \<Rightarrow> Some (False, t)
      | Some (Some e) \<Rightarrow> Some (True, snd (h_delEnt (set_hData (keyname e) None t) (Some (e\<lparr>hData := None\<rparr>)))))"

definition chekMemb :: "'d hTab \<Rightarrow> long \<Rightarrow> 'd hEnt option option" where
  "chekMemb t member = h_getEnt t (long_format member)"


section \<open>The invariant\<close>

definition ents :: "'d hTab \<Rightarrow> 'd hEnt list" where
  "ents t = concat (slotPtr t)"

definition ht_inv :: "'d hTab \<Rightarrow> bool" where
  "ht_inv t \<longleftrightarrow> tabSize t \<in> set primes \<and> int (length (slotPtr t)) = tabSize t \<and>
     numEnts t = int (length (ents t)) \<and> distinct (map keyname (ents t)) \<and>
     (\<forall>i<length (slotPtr t). \<forall>e\<in>set (slotPtr t ! i). getAddr t (keyname e) = int i)"

definition keys :: "'d hTab \<Rightarrow> string set" where
  "keys t = keyname ` set (ents t)"

lemma primes_pos: "q \<in> set primes \<Longrightarrow> 0 < q"
  by (auto simp: primes_def)

lemma closest_loop_Some: "closest_loop x qs = Some q \<Longrightarrow> q \<in> set qs \<and> x < q"
  by (induction qs) (auto split: if_splits)

lemma closest_loop_None: "closest_loop x qs = None \<Longrightarrow> \<forall>q\<in>set qs. q \<le> x"
  by (induction qs) (auto split: if_splits)

lemma getClosestPrime_mem: "getClosestPrime x \<in> set primes"
  by (auto simp: getClosestPrime_def primes_def dest!: closest_loop_Some split: option.splits)

lemma getClosestPrime_greater: "x < 1030637 \<Longrightarrow> x < getClosestPrime x"
  by (auto simp: getClosestPrime_def dest: closest_loop_Some closest_loop_None split: option.splits)
    (auto simp: primes_def dest!: closest_loop_None)

lemma addr_loop_range: "0 < n \<Longrightarrow> 0 \<le> ha \<Longrightarrow> ha < n \<Longrightarrow> 0 \<le> addr_loop n ha key \<and> addr_loop n ha key < n"
  by (induction key arbitrary: ha) auto

lemma slot_of_inv:
  "ht_inv t \<Longrightarrow> slot_of t key = Some (nat (getAddr t key)) \<and> nat (getAddr t key) < length (slotPtr t) \<and> 0 \<le> getAddr t key"
  using primes_pos [of "tabSize t"] addr_loop_range [of "tabSize t" 0 key]
  by (auto simp: ht_inv_def slot_of_def getAddr_def)

lemma h_findEnt_iff:
  "distinct (map keyname es) \<Longrightarrow> h_findEnt key es = Some e \<longleftrightarrow> e \<in> set es \<and> keyname e = key"
  by (induction es) (auto simp: image_iff)

lemma h_findEnt_None: "h_findEnt key es = None \<longleftrightarrow> key \<notin> keyname ` set es"
  by (induction es) auto

lemma mem_ents: "e \<in> set (ents t) \<longleftrightarrow> (\<exists>i<length (slotPtr t). e \<in> set (slotPtr t ! i))"
  by (simp add: ents_def) (metis in_set_conv_nth)

lemma slot_ents:
  assumes "ht_inv t"
  shows "{e \<in> set (slotPtr t ! nat (getAddr t key)). keyname e = key} = {e \<in> set (ents t). keyname e = key}"
proof -
  have "i = nat (getAddr t (keyname e))" if "i < length (slotPtr t)" "e \<in> set (slotPtr t ! i)" for i e
    using that assms by (metis ht_inv_def nat_int)
  then show ?thesis using slot_of_inv [OF assms, of key] unfolding mem_ents by blast
qed

lemma distinct_concat_nth:
  "distinct (map f (concat xs)) \<Longrightarrow> i < length xs \<Longrightarrow> distinct (map f (xs ! i))"
  by (induction xs arbitrary: i) (auto simp: nth_Cons split: nat.splits)

lemma find_slot:
  assumes "ht_inv t"
  shows "h_findEnt key (slotPtr t ! nat (getAddr t key)) = h_findEnt key (ents t)"
proof -
  have d: "distinct (map keyname (ents t))" using assms by (simp add: ht_inv_def)
  then have "distinct (map keyname (slotPtr t ! nat (getAddr t key)))"
    using slot_of_inv [OF assms, of key] distinct_concat_nth unfolding ents_def by blast
  then have "h_findEnt key (slotPtr t ! nat (getAddr t key)) = Some e \<longleftrightarrow> h_findEnt key (ents t) = Some e" for e
    using slot_ents [OF assms, of key] d by (auto simp: h_findEnt_iff)
  then show ?thesis by (metis option.exhaust)
qed

lemma h_getEnt_inv:
  "ht_inv t \<Longrightarrow> h_getEnt t key = Some (h_findEnt key (ents t))"
  using slot_of_inv [of t key] find_slot [of t key] by (auto simp: h_getEnt_def ht_inv_def)

lemma find_ents_iff:
  "ht_inv t \<Longrightarrow> h_findEnt key (ents t) = Some e \<longleftrightarrow> e \<in> set (ents t) \<and> keyname e = key"
  by (simp add: ht_inv_def h_findEnt_iff)

lemma find_ents_None: "h_findEnt key (ents t) = None \<longleftrightarrow> key \<notin> keys t"
  by (simp add: h_findEnt_None keys_def)

section \<open>Insertion and growth\<close>

lemma concat_update_mset:
  "i < length xs \<Longrightarrow> mset (concat (xs[i := e # xs ! i])) = add_mset e (mset (concat xs))"
  by (induction xs arbitrary: i) (auto split: nat.splits)

definition inserted :: "'d hEnt \<Rightarrow> 'd hTab \<Rightarrow> 'd hTab" where
  "inserted e t = (insList e (nat (getAddr t (keyname e))) t)\<lparr>numEnts := numEnts t + 1\<rparr>"

lemma inserted_mset: "ht_inv t \<Longrightarrow> mset (ents (inserted e t)) = add_mset e (mset (ents t))"
  using slot_of_inv [of t "keyname e"] concat_update_mset
  by (auto simp: inserted_def insList_def ents_def)

lemma inserted_fields [simp]:
  "tabSize (inserted e t) = tabSize t" "numEnts (inserted e t) = numEnts t + 1"
  "getAddr (inserted e t) key = getAddr t key"
  by (simp_all add: inserted_def insList_def getAddr_def)

lemma inserted_inv:
  assumes "ht_inv t" "keyname e \<notin> keys t"
  shows "ht_inv (inserted e t) \<and> set (ents (inserted e t)) = insert e (set (ents t)) \<and>
         keys (inserted e t) = insert (keyname e) (keys t)"
proof -
  have m: "mset (ents (inserted e t)) = mset (e # ents t)" by (simp add: inserted_mset [OF assms(1)])
  have s: "set (ents (inserted e t)) = insert e (set (ents t))"
    using arg_cong [OF m, of set_mset] by simp
  have l: "length (ents (inserted e t)) = Suc (length (ents t))"
    using arg_cong [OF m, of size] by simp
  have "mset (map keyname (ents (inserted e t))) = mset (map keyname (e # ents t))"
    by (simp only: mset_map m)
  from mset_eq_imp_distinct_iff [OF this]
  have d: "distinct (map keyname (ents (inserted e t)))"
    using assms by (simp add: ht_inv_def keys_def)
  let ?i = "nat (getAddr t (keyname e))"
  have p: "slotPtr (inserted e t) = (slotPtr t)[?i := e # slotPtr t ! ?i]"
    by (simp add: inserted_def insList_def)
  have "getAddr t (keyname x) = int j" if "j < length (slotPtr t)" "x \<in> set (slotPtr (inserted e t) ! j)" for j x
  proof -
    have "(j = ?i \<and> x = e) \<or> x \<in> set (slotPtr t ! j)"
      using that unfolding p by (cases "j = ?i") auto
    then show ?thesis
      using slot_of_inv [OF assms(1), of "keyname e"] that(1) assms(1) unfolding ht_inv_def
      by (metis int_nat_eq)
  qed
  moreover have "length (slotPtr (inserted e t)) = length (slotPtr t)" by (simp add: p)
  ultimately have "ht_inv (inserted e t)"
    using assms(1) d l unfolding ht_inv_def by simp
  then show ?thesis by (simp add: s keys_def)
qed

lemma h_initTab_inv [simp]:
  "ht_inv (h_initTab n :: 'd hTab)" "ents (h_initTab n :: 'd hTab) = []"
  "keys (h_initTab n :: 'd hTab) = {}" "tabSize (h_initTab n :: 'd hTab) = getClosestPrime n"
  "numEnts (h_initTab n :: 'd hTab) = 0"
  using getClosestPrime_mem [of n] primes_pos [OF getClosestPrime_mem [of n]]
  by (auto simp: h_initTab_def ht_inv_def ents_def keys_def Let_def)

lemma move_loop_inv:
  "ht_inv t \<Longrightarrow> distinct (map keyname es) \<Longrightarrow> keyname ` set es \<inter> keys t = {} \<Longrightarrow>
   \<exists>t'. move_loop es t = Some t' \<and> ht_inv t' \<and> set (ents t') = set es \<union> set (ents t) \<and>
        tabSize t' = tabSize t \<and> numEnts t' = numEnts t + int (length es)"
proof (induction es arbitrary: t)
  case (Cons e es)
  have e: "keyname e \<notin> keys t" using Cons.prems by auto
  have i: "move_loop (e # es) t = move_loop es (inserted e t)"
    using slot_of_inv [OF Cons.prems(1), of "keyname e"] by (simp add: inserted_def)
  show ?case
    unfolding i using Cons.IH [of "inserted e t"] inserted_inv [OF Cons.prems(1) e] Cons.prems by auto
qed simp

lemma resetTab_inv:
  assumes "ht_inv t"
  shows "\<exists>t'. resetTab t = Some t' \<and> ht_inv t' \<and> set (ents t') = set (ents t) \<and>
     numEnts t' = numEnts t \<and> tabSize t' = getClosestPrime (2 * tabSize t)"
proof -
  let ?n = "h_initTab (tabSize t * 2) :: 'a hTab"
  have "take (nat (tabSize t)) (slotPtr t) = slotPtr t" using assms by (auto simp: ht_inv_def)
  then have r: "resetTab t = move_loop (ents t) ?n" by (simp add: resetTab_def ents_def)
  have "distinct (map keyname (ents t))" "numEnts t = int (length (ents t))"
    using assms by (simp_all add: ht_inv_def)
  then show ?thesis
    unfolding r using move_loop_inv [of ?n "ents t"] by (auto simp: mult.commute)
qed


definition load_ok :: "'d hTab \<Rightarrow> bool" where
  "load_ok t \<longleftrightarrow> 2 * numEnts t \<le> 3 * tabSize t + 2 \<or> tabSize t = 1030637"

lemma h_addEnt_old:
  "ht_inv t \<Longrightarrow> h_findEnt key (ents t) = Some e \<Longrightarrow> h_addEnt t key = Some (e, False, t)"
  using slot_of_inv [of t key] find_slot [of t key] by (simp add: h_addEnt_def)

lemma h_addEnt_new:
  assumes "ht_inv t" "key \<notin> keys t"
  defines "e \<equiv> \<lparr>keyname = key, hData = None\<rparr>"
  shows "\<exists>t'. h_addEnt t key = Some (e, True, t') \<and> ht_inv t' \<and> set (ents t') = insert e (set (ents t)) \<and>
     numEnts t' = numEnts t + 1 \<and>
     tabSize t' = (if 2 * numEnts t \<ge> 3 * tabSize t then getClosestPrime (2 * tabSize t) else tabSize t)"
proof -
  obtain t1 where t1: "(if 2 * numEnts t \<ge> 3 * tabSize t then resetTab t else Some t) = Some t1"
    "ht_inv t1" "set (ents t1) = set (ents t)" "numEnts t1 = numEnts t"
    "tabSize t1 = (if 2 * numEnts t \<ge> 3 * tabSize t then getClosestPrime (2 * tabSize t) else tabSize t)"
    using resetTab_inv [OF assms(1)] assms(1) by (cases "2 * numEnts t \<ge> 3 * tabSize t") auto
  have "keyname e \<notin> keys t1" using assms(2) t1(3) by (simp add: keys_def e_def)
  note i = inserted_inv [OF t1(2) this]
  have "h_findEnt key (slotPtr t ! nat (getAddr t key)) = None"
    using find_slot [OF assms(1), of key] assms(2) by (simp add: find_ents_None)
  then have "h_addEnt t key = Some (e, True, inserted e t1)"
    using slot_of_inv [OF assms(1), of key] slot_of_inv [OF t1(2), of key] t1(1)
    by (simp add: h_addEnt_def inserted_def e_def Let_def)
  then show ?thesis using i t1 by simp
qed

section \<open>Removal and data\<close>

lemma key_unique:
  "ht_inv t \<Longrightarrow> e \<in> set (ents t) \<Longrightarrow> x \<in> set (ents t) \<Longrightarrow> keyname x = keyname e \<Longrightarrow> x = e"
  by (simp add: ht_inv_def distinct_map inj_on_def)

lemma filter_key_remove1:
  "distinct (map keyname es) \<Longrightarrow> e \<in> set es \<Longrightarrow> filter (\<lambda>x. keyname x \<noteq> keyname e) es = remove1 e es"
proof (induction es)
  case (Cons x xs)
  show ?case
  proof (cases "x = e")
    case True
    then show ?thesis using Cons.prems by (auto simp: image_iff intro!: filter_True)
  next
    case False
    then have "keyname x \<noteq> keyname e" using Cons.prems by (metis distinct.simps(2) image_eqI list.set_map list.simps(9) set_ConsD)
    with False Cons show ?thesis by simp
  qed
qed simp

lemma remList_inv:
  assumes "ht_inv t" "e \<in> set (ents t)"
  defines "t' \<equiv> (remList (keyname e) t)\<lparr>numEnts := numEnts t - 1\<rparr>"
  shows "ht_inv t' \<and> set (ents t') = set (ents t) - {e}"
proof -
  have d: "distinct (map keyname (ents t))" using assms(1) by (simp add: ht_inv_def)
  have en: "ents t' = filter (\<lambda>x. keyname x \<noteq> keyname e) (ents t)"
    by (simp add: t'_def remList_def ents_def filter_concat)
  have "0 < length (ents t)" using assms(2) by (cases "ents t") auto
  then have l: "int (length (ents t')) = int (length (ents t)) - 1"
    unfolding en filter_key_remove1 [OF d assms(2)] using assms(2) by (simp add: length_remove1 of_nat_diff Suc_le_eq)
  have s: "set (ents t') = set (ents t) - {e}"
    unfolding en using key_unique [OF assms(1,2)] by auto
  have "distinct (map keyname (ents t'))" unfolding en using d by (rule distinct_map_filter)
  moreover have "getAddr t' k = getAddr t k" for k by (simp add: t'_def remList_def getAddr_def)
  ultimately have "ht_inv t'"
    using assms(1) l by (auto simp: ht_inv_def t'_def remList_def)
  with s show ?thesis by simp
qed

definition redata :: "string \<Rightarrow> 'd option \<Rightarrow> 'd hEnt \<Rightarrow> 'd hEnt" where
  "redata key d e = (if keyname e = key then e\<lparr>hData := d\<rparr> else e)"

lemma redata_keyname [simp]: "keyname (redata key d e) = keyname e"
  by (simp add: redata_def)

lemma set_hData_redata: "set_hData key d t = t\<lparr>slotPtr := map (map (redata key d)) (slotPtr t)\<rparr>"
  by (simp add: set_hData_def redata_def)

lemma set_hData_inv:
  assumes "ht_inv t"
  shows "ht_inv (set_hData key d t) \<and> ents (set_hData key d t) = map (redata key d) (ents t)"
proof -
  have e: "ents (set_hData key d t) = map (redata key d) (ents t)"
    by (simp add: set_hData_redata ents_def map_concat)
  have "getAddr (set_hData key d t) k = getAddr t k" for k by (simp add: set_hData_redata getAddr_def)
  moreover have "map keyname (ents (set_hData key d t)) = map keyname (ents t)" by (simp add: e)
  moreover have "length (slotPtr (set_hData key d t)) = length (slotPtr t)"
    "tabSize (set_hData key d t) = tabSize t" "numEnts (set_hData key d t) = numEnts t"
    by (simp_all add: set_hData_redata)
  ultimately have "ht_inv (set_hData key d t)"
    using assms e unfolding ht_inv_def by (simp add: set_hData_redata comp_def)
  with e show ?thesis by simp
qed

text \<open>The data stored under a key: what every client of the table reads.\<close>

definition h_lookup :: "'d hTab \<Rightarrow> string \<Rightarrow> 'd option" where
  "h_lookup t key = (case h_getEnt t key of Some (Some e) \<Rightarrow> hData e | _ \<Rightarrow> None)"

text \<open>The idiom \<open>ent = h_addEnt_(tab, key, &new); ent->hData = d\<close>.\<close>

definition h_put :: "string \<Rightarrow> 'd \<Rightarrow> 'd hTab \<Rightarrow> 'd hTab" where
  "h_put key d t = (case h_addEnt t key of Some (e, new, t') \<Rightarrow> set_hData key (Some d) t' | None \<Rightarrow> t)"

definition h_drop :: "string \<Rightarrow> 'd hTab \<Rightarrow> 'd hTab" where
  "h_drop key t = (case h_getEnt t key of Some ep \<Rightarrow> h_rmEnt t ep | None \<Rightarrow> t)"

lemma h_lookup_Some:
  "ht_inv t \<Longrightarrow> h_lookup t key = Some d \<longleftrightarrow> (\<exists>e\<in>set (ents t). keyname e = key \<and> hData e = Some d)"
proof (cases "h_findEnt key (ents t)")
  case None
  assume "ht_inv t"
  with None show ?thesis by (auto simp: h_lookup_def h_getEnt_inv) (auto simp: find_ents_None keys_def)
next
  case (Some e)
  assume t: "ht_inv t"
  then have e: "e \<in> set (ents t)" "keyname e = key" using Some find_ents_iff by auto
  from t Some have "h_lookup t key = hData e" by (simp add: h_lookup_def h_getEnt_inv)
  with e show ?thesis using key_unique [OF t e(1)] by metis
qed

lemma h_put_ents:
  assumes "ht_inv t"
  shows "ht_inv (h_put key d t) \<and>
     set (ents (h_put key d t)) = insert \<lparr>keyname = key, hData = Some d\<rparr> {e \<in> set (ents t). keyname e \<noteq> key}"
proof -
  have r: "redata key (Some d) ` {e. keyname e = key \<and> e \<in> A} = {\<lparr>keyname = key, hData = Some d\<rparr>}"
    if "\<exists>e\<in>A. keyname e = key" for A :: "'a hEnt set"
    using that by (force simp: redata_def)
  have split: "redata key (Some d) ` A = insert \<lparr>keyname = key, hData = Some d\<rparr> {e \<in> A. keyname e \<noteq> key}"
    if "\<exists>e\<in>A. keyname e = key" for A :: "'a hEnt set"
  proof -
    have "A = {e. keyname e = key \<and> e \<in> A} \<union> {e \<in> A. keyname e \<noteq> key}" by auto
    then have "redata key (Some d) ` A =
        redata key (Some d) ` {e. keyname e = key \<and> e \<in> A} \<union> redata key (Some d) ` {e \<in> A. keyname e \<noteq> key}"
      by (metis image_Un)
    moreover have "redata key (Some d) ` {e \<in> A. keyname e \<noteq> key} = {e \<in> A. keyname e \<noteq> key}"
      by (force simp: redata_def)
    ultimately show ?thesis by (simp add: r [OF that])
  qed
  show ?thesis
  proof (cases "key \<in> keys t")
    case True
    then obtain e where e: "h_findEnt key (ents t) = Some e" "e \<in> set (ents t)" "keyname e = key"
      by (metis find_ents_None find_ents_iff [OF assms] not_None_eq)
    then have "h_put key d t = set_hData key (Some d) t" by (simp add: h_put_def h_addEnt_old [OF assms])
    then show ?thesis using set_hData_inv [OF assms, of key "Some d"] split [of "set (ents t)"] e by auto
  next
    case False
    obtain t' where t': "h_addEnt t key = Some (\<lparr>keyname = key, hData = None\<rparr>, True, t')" "ht_inv t'"
      "set (ents t') = insert \<lparr>keyname = key, hData = None\<rparr> (set (ents t))"
      using h_addEnt_new [OF assms False] by blast
    then have "h_put key d t = set_hData key (Some d) t'" by (simp add: h_put_def)
    then show ?thesis using set_hData_inv [OF t'(2), of key "Some d"] split [of "set (ents t')"] t'(3) by auto
  qed
qed

lemma h_drop_ents:
  assumes "ht_inv t"
  shows "ht_inv (h_drop key t) \<and> set (ents (h_drop key t)) = {e \<in> set (ents t). keyname e \<noteq> key}"
proof (cases "h_findEnt key (ents t)")
  case None
  then have "h_drop key t = t" using assms by (simp add: h_drop_def h_getEnt_inv h_rmEnt_def)
  moreover have "key \<notin> keyname ` set (ents t)" using None by (simp add: find_ents_None keys_def)
  ultimately show ?thesis using assms by auto
next
  case (Some e)
  then have e: "e \<in> set (ents t)" "keyname e = key" using find_ents_iff [OF assms] by auto
  have "{x \<in> set (ents t). keyname x \<noteq> key} = set (ents t) - {e}"
    using e key_unique [OF assms] by blast
  then show ?thesis using remList_inv [OF assms e(1)] Some e(2)
    by (simp add: h_drop_def h_getEnt_inv [OF assms] h_rmEnt_def)
qed


interpretation kt: keyed_table ht_inv h_lookup h_put h_drop
proof (unfold_locales, goal_cases)
  case (1 t k v)
  note p = h_put_ents [OF 1, of k v]
  show ?case
  proof (rule ext, rule option_eqI)
    fix j d
    show "h_lookup (h_put k v t) j = Some d \<longleftrightarrow> ((h_lookup t)(k \<mapsto> v)) j = Some d"
      using p by (cases "j = k") (auto simp: h_lookup_Some 1)
  qed
next
  case (3 t k)
  note p = h_drop_ents [OF 3, of k]
  show ?case
  proof (rule ext, rule option_eqI)
    fix j d
    show "h_lookup (h_drop k t) j = Some d \<longleftrightarrow> ((h_lookup t)(k := None)) j = Some d"
      using p by (cases "j = k") (auto simp: h_lookup_Some 3)
  qed
qed (simp_all add: h_put_ents h_drop_ents)

section \<open>Iteration\<close>

definition to_come :: "'d hTab \<Rightarrow> 'd sTab \<Rightarrow> 'd hEnt list" where
  "to_come t sp = pending sp @ concat (drop (nIndex sp) (slotPtr t))"

declare next_slot.simps [simp del]

lemma next_slot_spec:
  "case concat (drop i slots) of
     [] \<Rightarrow> fst (next_slot slots i) = None
   | e # es \<Rightarrow> \<exists>sp. fst (next_slot slots i) = Some (e, sp) \<and> pending sp @ concat (drop (nIndex sp) slots) = es"
proof (induction slots i rule: next_slot.induct)
  case (1 slots i)
  show ?case
  proof (cases "length slots \<le> i")
    case True
    then show ?thesis by (simp add: next_slot.simps)
  next
    case False
    then have d: "drop i slots = slots ! i # drop (Suc i) slots" by (simp add: Cons_nth_drop_Suc)
    show ?thesis
    proof (cases "slots ! i")
      case Nil
      then have n: "next_slot slots i = next_slot slots (Suc i)" using False by (simp add: next_slot.simps [of slots i])
      have "concat (drop i slots) = concat (drop (Suc i) slots)" by (simp add: d Nil)
      then show ?thesis using 1 [OF False Nil] by (simp only: n)
    qed (use False d in \<open>simp add: next_slot.simps [of slots i]\<close>)
  qed
qed

lemma h_nextEnt_spec:
  "case to_come t sp of
     [] \<Rightarrow> fst (h_nextEnt t sp) = None
   | e # es \<Rightarrow> fst (h_nextEnt t sp) = Some e \<and> to_come t (snd (h_nextEnt t sp)) = es"
proof (cases "pending sp")
  case Nil
  then have p: "to_come t sp = concat (drop (nIndex sp) (slotPtr t))" by (simp add: to_come_def)
  note s = next_slot_spec [where i = "nIndex sp" and slots = "slotPtr t", folded p]
  show ?thesis
  proof (cases "to_come t sp")
    case (Cons e es)
    with s obtain sp' where "fst (next_slot (slotPtr t) (nIndex sp)) = Some (e, sp')" "to_come t sp' = es"
      by (auto simp: to_come_def)
    with Nil Cons show ?thesis by (cases "next_slot (slotPtr t) (nIndex sp)") (simp add: h_nextEnt_def)
  qed (use s Nil in \<open>cases "next_slot (slotPtr t) (nIndex sp)", simp add: h_nextEnt_def\<close>)
qed (simp add: to_come_def h_nextEnt_def)

text \<open>The loop of \<open>FOR_EACH_HTAB_ENTRY\<close>: the entries its body sees, in order.\<close>

fun for_each_loop :: "nat \<Rightarrow> 'd hTab \<Rightarrow> 'd hEnt option \<times> 'd sTab \<Rightarrow> 'd hEnt list option" where
  "for_each_loop 0 t _ = None"
| "for_each_loop (Suc n) t (None, sp) = Some []"
| "for_each_loop (Suc n) t (Some e, sp) = map_option (\<lambda>es. e # es) (for_each_loop n t (h_nextEnt t sp))"

definition for_each_htab_entry :: "'d hTab \<Rightarrow> 'd hEnt list option" where
  "for_each_htab_entry t = for_each_loop (nat (numEnts t) + 1) t (h_firstEnt t)"

lemma for_each_loop_spec:
  "length (to_come t sp) < n \<Longrightarrow> for_each_loop n t (h_nextEnt t sp) = Some (to_come t sp)"
proof (induction "to_come t sp" arbitrary: sp n)
  case Nil
  then show ?case using h_nextEnt_spec [of t sp]
    by (cases n; cases "h_nextEnt t sp") auto
next
  case (Cons e es)
  then have h: "fst (h_nextEnt t sp) = Some e" "to_come t (snd (h_nextEnt t sp)) = es"
    using h_nextEnt_spec [of t sp] by (auto split: list.splits)
  obtain m where m: "n = Suc m" "length es < m" using Cons.hyps(2) [symmetric] Cons.prems by (cases n) auto
  have "for_each_loop m t (h_nextEnt t (snd (h_nextEnt t sp))) = Some es"
    using Cons.hyps(1) [of "snd (h_nextEnt t sp)" m] h(2) m(2) by simp
  then show ?case using h(1) m(1) Cons.hyps(2) by (cases "h_nextEnt t sp") auto
qed

section \<open>Decimal keys\<close>

lemma char_of_digit: "n < 10 \<Longrightarrow> of_char (char_of (48 + n) :: char) = 48 + (n::nat)"
  by (simp add: of_char_of)

fun digits_nat :: "nat \<Rightarrow> string \<Rightarrow> nat" where
  "digits_nat acc [] = acc"
| "digits_nat acc (c # cs) = digits_nat (10 * acc + (of_char c - 48)) cs"

lemma digits_nat_snoc: "digits_nat acc (cs @ [c]) = 10 * digits_nat acc cs + (of_char c - 48)"
  by (induction cs arbitrary: acc) auto

declare nat_digits.simps [simp del]

lemma digits_nat_digits: "digits_nat 0 (nat_digits n) = n"
proof (induction n rule: nat_digits.induct)
  case (1 n)
  then show ?case
    by (cases "n < 10") (auto simp: nat_digits.simps [of n] digits_nat_snoc char_of_digit)
qed

lemma nat_digits_hd: "nat_digits n \<noteq> [] \<and> hd (nat_digits n) \<noteq> CHR ''-''"
proof (induction n rule: nat_digits.induct)
  case (1 n)
  show ?case
  proof (cases "n < 10")
    case True
    then have "of_char (char_of (48 + n) :: char) \<noteq> (45::nat)" by (simp add: char_of_digit)
    moreover have "of_char CHR ''-'' = (45::nat)" by code_simp
    ultimately have "char_of (48 + n) \<noteq> CHR ''-''" by metis
    then show ?thesis using True by (simp add: nat_digits.simps [of n])
  next
    case False
    then show ?thesis using 1 by (simp add: nat_digits.simps [of n])
  qed
qed

lemma long_format_inj: "long_format m = long_format n \<longleftrightarrow> m = n"
proof
  assume eq: "long_format m = long_format n"
  have s: "m < 0 \<longleftrightarrow> n < 0"
    using eq nat_digits_hd [of "nat m"] nat_digits_hd [of "nat n"]
    by (metis list.sel(1) long_format_def)
  have "nat \<bar>m\<bar> = nat \<bar>n\<bar>"
  proof (cases "m < 0")
    case True
    then have "nat_digits (nat (- m)) = nat_digits (nat (- n))" using eq s by (simp add: long_format_def)
    then show ?thesis using True s by (metis digits_nat_digits abs_of_neg)
  next
    case False
    then have "nat_digits (nat m) = nat_digits (nat n)" using eq s by (simp add: long_format_def)
    then show ?thesis using False s by (metis digits_nat_digits abs_of_nonneg not_less)
  qed
  with s show "m = n" by linarith
qed simp


section \<open>Membership tables as a set store\<close>

definition memb_keys :: "'d hTab \<Rightarrow> long set" where
  "memb_keys t = {n. long_format n \<in> keys t}"

definition ht_apply :: "('d hTab \<Rightarrow> long \<Rightarrow> (bool \<times> 'd hTab) option) \<Rightarrow> long \<Rightarrow> 'd hTab \<Rightarrow> 'd hTab" where
  "ht_apply op n t = (case op t n of None \<Rightarrow> t | Some (_, t') \<Rightarrow> t')"

lemma addMemb_spec:
  assumes "ht_inv t"
  shows "\<exists>t'. addMemb t n = Some (n \<notin> memb_keys t, t') \<and> ht_inv t' \<and> keys t' = insert (long_format n) (keys t)"
proof (cases "long_format n \<in> keys t")
  case True
  then obtain e where "h_findEnt (long_format n) (ents t) = Some e"
    by (metis find_ents_None not_None_eq)
  then show ?thesis using True assms by (auto simp: addMemb_def h_addEnt_old memb_keys_def)
next
  case False
  then obtain t' where "h_addEnt t (long_format n) = Some (\<lparr>keyname = long_format n, hData = None\<rparr>, True, t')"
    "ht_inv t'" "set (ents t') = insert \<lparr>keyname = long_format n, hData = None\<rparr> (set (ents t))"
    using h_addEnt_new [OF assms False] by blast
  then show ?thesis using False by (simp add: addMemb_def memb_keys_def keys_def)
qed

lemma remvMemb_spec:
  assumes "ht_inv t"
  shows "\<exists>t'. remvMemb t n = Some (n \<in> memb_keys t, t') \<and> ht_inv t' \<and> keys t' = keys t - {long_format n}"
proof (cases "h_findEnt (long_format n) (ents t)")
  case None
  then show ?thesis using assms find_ents_None [of "long_format n" t]
    by (auto simp: remvMemb_def h_getEnt_inv memb_keys_def)
next
  case (Some e)
  let ?t = "set_hData (keyname e) None t" and ?e = "e\<lparr>hData := None\<rparr>"
  have e: "e \<in> set (ents t)" "keyname e = long_format n" using Some find_ents_iff [OF assms] by auto
  have t: "ht_inv ?t" "ents ?t = map (redata (keyname e) None) (ents t)"
    using set_hData_inv [OF assms] by auto
  have "?e \<in> set (ents ?t)" using e(1) by (force simp: t(2) redata_def)
  note r = remList_inv [OF t(1) this]
  have k: "keys ?t = keys t" by (simp add: keys_def t(2) image_image)
  have "keyname x \<noteq> keyname e" if "x \<in> set (ents ?t) - {?e}" for x
    using that key_unique [OF t(1) \<open>?e \<in> set (ents ?t)\<close>] by auto
  then have "keyname ` (set (ents ?t) - {?e}) = keys ?t - {keyname e}"
    unfolding keys_def by fastforce
  then show ?thesis
    using r k e Some find_ents_None [of "long_format n" t]
    by (auto simp: remvMemb_def h_getEnt_inv [OF assms] h_delEnt_def keys_def memb_keys_def)
qed

interpretation mt: int_set_store ht_inv memb_keys "\<lambda>n t. True"
  "\<lambda>n t. \<exists>e. chekMemb t n = Some (Some e)" "ht_apply addMemb" "ht_apply remvMemb"
proof (unfold_locales, goal_cases)
  case (1 t n)
  then show ?case
    using find_ents_None [of "long_format n" t] by (auto simp: chekMemb_def h_getEnt_inv memb_keys_def)
next
  case (2 t n)
  then show ?case using addMemb_spec [OF 2(1), of n] by (auto simp: ht_apply_def memb_keys_def long_format_inj)
next
  case (3 t n)
  then show ?case using addMemb_spec [OF 3(1), of n] by (auto simp: ht_apply_def)
next
  case (4 t n)
  obtain t' where "remvMemb t n = Some (n \<in> memb_keys t, t')" "keys t' = keys t - {long_format n}"
    using remvMemb_spec [OF 4(1), of n] by blast
  then show ?case by (auto simp: ht_apply_def memb_keys_def long_format_inj)
next
  case (5 t n)
  obtain t' where "remvMemb t n = Some (n \<in> memb_keys t, t')" "ht_inv t'"
    using remvMemb_spec [OF 5(1), of n] by blast
  then show ?case by (simp add: ht_apply_def)
qed

section \<open>Properties\<close>

text \<open>C6: \<open>h_addEnt_\<close> on a well-formed table returns the entry of the key: the existing
  one with the table unchanged, or a new one with NULL data in a table that has exactly
  that entry more.  The invariant (unique keys, every entry in the slot of its hash, the
  count) is kept, through the growth and rehash of the table too.\<close>

theorem h_addEnt_correct:
  assumes "ht_inv t"
  shows "\<exists>e new t'. h_addEnt t key = Some (e, new, t') \<and> ht_inv t' \<and> keyname e = key \<and>
     (if key \<in> keys t then \<not> new \<and> t' = t \<and> e \<in> set (ents t)
      else new \<and> hData e = None \<and> set (ents t') = insert e (set (ents t)) \<and> numEnts t' = numEnts t + 1)"
proof (cases "key \<in> keys t")
  case True
  then obtain e where "h_findEnt key (ents t) = Some e" by (metis find_ents_None not_None_eq)
  then show ?thesis using True assms h_addEnt_old [of t key e] find_ents_iff [OF assms, of key e] by auto
next
  case False
  then show ?thesis using h_addEnt_new [OF assms False] by auto
qed

theorem h_addEnt_correct_witness:
  "\<exists>e new t'. h_addEnt (h_initTab 11 :: nat hTab) ''job'' = Some (e, new, t') \<and> ht_inv t' \<and>
     new \<and> keyname e = ''job'' \<and> numEnts t' = 1"
  using h_addEnt_correct [of "h_initTab 11 :: nat hTab" "''job''"] by auto

text \<open>C8: The table is a map: after any sequence of insertions the data found under a key
  is the last inserted, other keys keep theirs, and removing a key forgets exactly it.\<close>

theorem hash_table_is_map:
  assumes "ht_inv t"
  shows "h_lookup (h_put k v t) = (h_lookup t)(k \<mapsto> v) \<and> ht_inv (h_put k v t) \<and>
         h_lookup (h_drop k t) = (h_lookup t)(k := None) \<and> ht_inv (h_drop k t) \<and>
         h_lookup (fold (\<lambda>(j, d). h_put j d) kvs t) = h_lookup t ++ map_of (rev kvs)"
proof -
  have "fold (\<lambda>(j, d). h_put j d) kvs t = kt.put_all kvs t"
    by (induction kvs arbitrary: t) (auto simp: case_prod_beta)
  then show ?thesis
    using kt.put_lookup kt.put_invar kt.drop_lookup kt.drop_invar kt.put_all_lookup assms by metis
qed

theorem hash_table_is_map_witness:
  "h_lookup (fold (\<lambda>(j, d). h_put j d) [(''a'', 1), (''b'', 2), (''a'', 3)] (h_initTab 11 :: nat hTab)) ''a'' = Some 3"
  using hash_table_is_map [of "h_initTab 11 :: nat hTab" "''a''" 0 "[(''a'', 1), (''b'', 2), (''a'', 3)]"] by simp

text \<open>C22: Iteration with \<open>h_firstEnt_\<close> and \<open>h_nextEnt_\<close> ends after \<open>numEnts\<close> entries and
  yields every entry exactly once.\<close>

theorem for_each_visits_all:
  assumes "ht_inv t"
  shows "\<exists>es. for_each_htab_entry t = Some es \<and> set es = set (ents t) \<and> distinct es \<and>
     int (length es) = numEnts t"
proof -
  let ?sp = "\<lparr>nIndex = 0, pending = []\<rparr> :: 'a sTab"
  have "0 < length (slotPtr t)" using assms primes_pos [of "tabSize t"] by (auto simp: ht_inv_def)
  then have f: "h_firstEnt t = h_nextEnt t ?sp" by (auto simp: h_firstEnt_def Let_def)
  have c: "to_come t ?sp = ents t" by (simp add: to_come_def ents_def)
  have n: "numEnts t = int (length (ents t))" "distinct (ents t)"
    using assms by (auto simp: ht_inv_def distinct_map)
  have "for_each_htab_entry t = Some (ents t)"
    unfolding for_each_htab_entry_def f using for_each_loop_spec [of t ?sp "nat (numEnts t) + 1"] c n by simp
  with n show ?thesis by auto
qed

theorem for_each_visits_all_witness:
  "\<exists>es. for_each_htab_entry (h_put ''a'' 7 (h_initTab 11 :: nat hTab)) = Some es \<and> length es = 1"
proof -
  let ?t = "h_initTab 11 :: nat hTab"
  have i: "ht_inv ?t" "ents ?t = []" by simp_all
  then have "ht_inv (h_put ''a'' 7 ?t)" "set (ents (h_put ''a'' 7 ?t)) = {\<lparr>keyname = ''a'', hData = Some 7\<rparr>}"
    using h_put_ents [OF i(1), of "''a''" 7] by auto
  then obtain es where "for_each_htab_entry (h_put ''a'' 7 ?t) = Some es" "distinct es" "card (set es) = 1"
    using for_each_visits_all [of "h_put ''a'' 7 ?t"] by auto
  then show ?thesis using distinct_card [of es] by simp
qed

text \<open>C23: The load of a table stays below two entries per slot: the growth rule keeps
  \<open>numEnts\<close> within one entry of 1.5 times the size until the largest size is reached,
  because the next size is always more than twice the old one.\<close>

theorem h_addEnt_load:
  assumes "ht_inv t" "load_ok t" "h_addEnt t key = Some (e, new, t')"
  shows "load_ok t' \<and> (tabSize t' = tabSize t \<or> 2 * tabSize t < tabSize t' \<or> tabSize t = 1030637)"
proof (cases "key \<in> keys t")
  case True
  then obtain x where "h_findEnt key (ents t) = Some x" by (metis find_ents_None not_None_eq)
  then show ?thesis using assms h_addEnt_old [OF assms(1)] by simp
next
  case False
  have sz: "tabSize t \<in> set primes" using assms(1) by (simp add: ht_inv_def)
  have t': "numEnts t' = numEnts t + 1"
    "tabSize t' = (if 2 * numEnts t \<ge> 3 * tabSize t then getClosestPrime (2 * tabSize t) else tabSize t)"
    using h_addEnt_new [OF assms(1) False] assms(3) by auto
  show ?thesis
  proof (cases "tabSize t = 1030637")
    case True
    have "getClosestPrime (2 * 1030637) = 1030637" by code_simp
    then show ?thesis using t' True by (auto simp: load_ok_def)
  next
    assume n: "tabSize t \<noteq> 1030637"
    then have "2 * tabSize t < 1030637" using sz by (auto simp: primes_def)
    then have g: "2 * tabSize t < getClosestPrime (2 * tabSize t)" by (rule getClosestPrime_greater)
    have "0 < tabSize t" by (rule primes_pos [OF sz])
    with g n t' assms(2) show ?thesis by (auto simp: load_ok_def)
  qed
qed

theorem h_addEnt_load_witness:
  "\<exists>e new t'. h_addEnt (h_initTab 11 :: nat hTab) ''job'' = Some (e, new, t') \<and> load_ok t' \<and> tabSize t' = 101"
proof -
  let ?t = "h_initTab 11 :: nat hTab"
  have p: "getClosestPrime 11 = 101" by code_simp
  have i: "ht_inv ?t" and l: "load_ok ?t" by (simp_all add: load_ok_def p)
  obtain e new t' where a: "h_addEnt ?t ''job'' = Some (e, new, t')" "tabSize t' = 101"
    using h_addEnt_new [OF i, of "''job''"] p by auto
  from h_addEnt_load [OF i l a(1)] a show ?thesis by auto
qed



end
