(* ===== verification/CString.thy ===== *)
theory CString
  imports Prelude "HOL-Library.Sublist"
begin

text \<open>
  Numbers in text: the parts of the C library the configuration and command parsers use
  (\<open>strtol\<close>, \<open>atoi\<close>), and the checks built on them in lsf/lib/lib.misc.c (\<open>isint_\<close>,
  \<open>islongint_\<close>, \<open>isdigitstr_\<close>, \<open>atoi64_\<close>, \<open>getNextToken\<close>, \<open>getValPair\<close>), in
  lsbatch/daemons/mbd.init.c (\<open>my_atoi\<close>) and lsf/intlib/misc.c (\<open>matchName\<close>).  Strings
  have no NUL character; a NULL string is \<open>None\<close> where the code tests for it.
\<close>

section \<open>\<open>strtol\<close> and \<open>atoi\<close>\<close>

definition LONG_MAX :: int where
  "LONG_MAX = 2 ^ 63 - 1"

text \<open>
  The optional sign and the digits after the leading white space: the value, the text
  after the digits, and whether there was a digit.
\<close>

definition sign_digits :: "string \<Rightarrow> int \<times> string \<times> bool" where
  "sign_digits s =
     (let (neg, t) = (case s of [] \<Rightarrow> (False, [])
                      | c # cs \<Rightarrow> if c = CHR ''-'' then (True, cs)
                                 else if c = CHR ''+'' then (False, cs) else (False, s));
          ds = takeWhile isdigit t; v = digits_val 0 ds in
      (if neg then - v else v, dropWhile isdigit t, ds \<noteq> []))"

text \<open>\<open>strtol(word, &end, 10)\<close>: the value, the text at \<open>end\<close> and whether \<open>errno\<close> is \<open>ERANGE\<close>.\<close>

definition strtol :: "string \<Rightarrow> long \<times> string \<times> bool" where
  "strtol word =
     (let (v, rest, ok) = sign_digits (dropWhile isspace word) in
      if \<not> ok then (0, word, False)
      else if v > LONG_MAX then (LONG_MAX, rest, True)
      else if v < - LONG_MAX - 1 then (- LONG_MAX - 1, rest, True)
      else (v, rest, False))"

definition atoi :: "string \<Rightarrow> int" where
  "atoi word = c_int (fst (strtol word))"

section \<open>Checks on words\<close>

text \<open>\<open>isint_\<close> assigns the \<open>long\<close> result of \<open>strtol\<close> to an \<open>int\<close> before it compares it.\<close>

definition isint :: "string option \<Rightarrow> bool" where
  "isint wp =
     (case wp of
        None \<Rightarrow> False
      | Some word \<Rightarrow>
         (if word = [] then False
          else (let (v, rest, erange) = strtol word; number = c_int v in
                if rest = [] \<and> \<not> erange
                then number \<le> INFINIT_INT \<and> number > - INFINIT_INT else False)))"

definition isdigitstr :: "string \<Rightarrow> bool" where
  "isdigitstr s = list_all isdigit s"

text \<open>
  \<open>islongint_\<close> and \<open>atoi64_\<close> read with \<open>sscanf("%lld")\<close>, which assigns nothing when there is
  no number (the variable keeps the value \<open>junk\<close>), and compare with \<open>INFINIT_LONG_INT\<close>,
  which lsf.h defines as 0x7fffffff.
\<close>

definition INFINIT_LONG_INT :: int where
  "INFINIT_LONG_INT = 0x7fffffff"

definition sscanf_lld :: "int \<Rightarrow> string \<Rightarrow> int \<times> bool" where
  "sscanf_lld junk word =
     (let (v, rest, ok) = sign_digits (dropWhile isspace word) in
      if \<not> ok then (junk, False)
      else if v > LONG_MAX then (LONG_MAX, True)
      else if v < - LONG_MAX - 1 then (- LONG_MAX - 1, True) else (v, False))"

definition islongint :: "int \<Rightarrow> string option \<Rightarrow> bool" where
  "islongint junk wp =
     (case wp of
        None \<Rightarrow> False
      | Some word \<Rightarrow>
         (if word = [] then False
          else if \<not> isdigitstr word then False
          else (let (number, erange) = sscanf_lld junk word in
                if \<not> erange then number \<le> INFINIT_LONG_INT \<and> number > - INFINIT_LONG_INT else False)))"

definition atoi64 :: "int \<Rightarrow> string option \<Rightarrow> int" where
  "atoi64 junk wp =
     (case wp of
        None \<Rightarrow> 0
      | Some word \<Rightarrow>
         (if word = [] then 0
          else (let (number, erange) = sscanf_lld junk word in
                if \<not> erange \<and> number \<le> INFINIT_LONG_INT \<and> number > - INFINIT_LONG_INT
                then number else 0)))"

definition my_atoi :: "string option \<Rightarrow> int \<Rightarrow> int \<Rightarrow> int" where
  "my_atoi arg upBound botBound =
     (if \<not> isint arg then INFINIT_INT
      else (let num = atoi (the arg) in
            if num \<ge> upBound \<or> num \<le> botBound then INFINIT_INT else num))"

text \<open>
  \<open>getNextToken\<close>: one leading separator is skipped, then the text up to the next \<open>:\<close> or \<open>=\<close>
  is taken.  The first result is the token, the second the advanced pointer.
\<close>

definition cut_at :: "char \<Rightarrow> string \<Rightarrow> string" where
  "cut_at c s = takeWhile (\<lambda>x. x \<noteq> c) s"

definition getNextToken :: "string option \<Rightarrow> string option \<times> string option" where
  "getNextToken sp =
     (case sp of
        None \<Rightarrow> (None, None)
      | Some [] \<Rightarrow> (None, sp)
      | Some (c # cs) \<Rightarrow>
         (let s = (if c = CHR '':'' \<or> c = CHR ''='' \<or> c = CHR '' '' then cs else c # cs) in
          if s = [] then (None, Some s)
          else (let word = cut_at CHR ''='' (cut_at CHR '':'' s) in
                (Some word, Some (drop (length word) s)))))"

text \<open>
  \<open>getValPair\<close>: \<open>a,b\<close> or \<open>a/b\<close> with one side possibly empty; the return code, the two
  values and the advanced pointer.
\<close>

definition getValPair :: "string option \<Rightarrow> int \<times> int \<times> int \<times> string option" where
  "getValPair resReq =
     (let (token, sp) = getNextToken resReq in
      case token of
        None \<Rightarrow> (0, INFINIT_INT, INFINIT_INT, sp)
      | Some tok \<Rightarrow>
         (if tok = [] then (0, INFINIT_INT, INFINIT_INT, sp)
          else
           (let a = takeWhile (\<lambda>c. c \<noteq> CHR '','' \<and> c \<noteq> CHR ''/'') tok;
                n = length a;
                wd1 = (if n < length tok then (if n > 0 then Some a else None) else Some tok);
                wd2 = (if n < length tok then (if n < length tok - 1 then Some (drop (Suc n) tok) else None)
                       else None) in
            if wd1 \<noteq> None \<and> \<not> isint wd1 then (- 1, INFINIT_INT, INFINIT_INT, sp)
            else if wd2 \<noteq> None \<and> \<not> isint wd2 then (- 1, INFINIT_INT, INFINIT_INT, sp)
            else if wd1 = None \<and> wd2 = None then (- 1, INFINIT_INT, INFINIT_INT, sp)
            else (0, (case wd1 of Some w \<Rightarrow> atoi w | None \<Rightarrow> INFINIT_INT),
                     (case wd2 of Some w \<Rightarrow> atoi w | None \<Rightarrow> INFINIT_INT), sp))))"

section \<open>Names and patterns\<close>

text \<open>
  \<open>matchName\<close>: the pattern is read up to its end or an opening bracket; a star accepts
  whatever follows.
\<close>

definition name_end :: "string \<Rightarrow> bool" where
  "name_end name = (case name of [] \<Rightarrow> True | c # _ \<Rightarrow> c = CHR ''['')"

fun match_loop :: "string \<Rightarrow> string \<Rightarrow> bool" where
  "match_loop [] name = name_end name"
| "match_loop (c # p) name =
     (if c = CHR ''['' then name_end name
      else if c = CHR ''*'' then True
      else (case name of
              [] \<Rightarrow> False
            | d # ds \<Rightarrow> if d = CHR ''['' \<or> c \<noteq> d then False else match_loop p ds))"

definition matchName :: "string option \<Rightarrow> string option \<Rightarrow> bool" where
  "matchName pattern name =
     (case (pattern, name) of (Some p, Some n) \<Rightarrow> match_loop p n | _ \<Rightarrow> False)"

definition tolower :: "char \<Rightarrow> char" where
  "tolower c = (if isupper c then char_of (of_char c + 32 :: nat) else c)"

definition strToLower :: "string \<Rightarrow> string" where
  "strToLower name = map tolower name"

section \<open>What the checks accept\<close>

text \<open>A decimal literal: an optional sign and at least one digit, after white space.\<close>

definition is_literal :: "string \<Rightarrow> bool" where
  "is_literal w = (case sign_digits (dropWhile isspace w) of (v, rest, ok) \<Rightarrow> ok \<and> rest = [])"

definition literal_val :: "string \<Rightarrow> int" where
  "literal_val w = fst (sign_digits (dropWhile isspace w))"

text \<open>The name without its array part, and the part of a pattern that is compared.\<close>

definition base_name :: "string \<Rightarrow> string" where
  "base_name s = takeWhile (\<lambda>c. c \<noteq> CHR ''['') s"

lemma strtol_literal:
  "is_literal w \<Longrightarrow> strtol w =
     (if literal_val w > LONG_MAX then (LONG_MAX, [], True)
      else if literal_val w < - LONG_MAX - 1 then (- LONG_MAX - 1, [], True)
      else (literal_val w, [], False))"
  by (auto simp: is_literal_def literal_val_def strtol_def split: prod.splits)

lemma strtol_complete:
  "w \<noteq> [] \<Longrightarrow> fst (snd (strtol w)) = [] \<Longrightarrow> is_literal w"
  by (auto simp: is_literal_def strtol_def split: prod.splits if_splits)

lemma is_literal_nonempty: "is_literal w \<Longrightarrow> w \<noteq> []"
  by (auto simp: is_literal_def sign_digits_def)

lemma isint_iff:
  "isint (Some w) \<longleftrightarrow> is_literal w \<and> - LONG_MAX - 1 \<le> literal_val w \<and> literal_val w \<le> LONG_MAX \<and>
     - INFINIT_INT < c_int (literal_val w)"
proof (cases "is_literal w")
  case True
  have "c_int v \<le> INFINIT_INT" for v using c_int_range [of v] by (simp add: is_int32_def INFINIT_INT_def)
  then show ?thesis using True is_literal_nonempty [OF True] strtol_literal [OF True]
    by (auto simp: isint_def)
next
  case False
  then show ?thesis using strtol_complete [of w]
    by (auto simp: isint_def Let_def split: prod.splits)
qed

lemma match_loop_spec:
  "match_loop p n \<longleftrightarrow>
     (if CHR ''*'' \<in> set (base_name p)
      then prefix (takeWhile (\<lambda>c. c \<noteq> CHR ''*'') (base_name p)) (base_name n)
      else base_name n = base_name p)"
proof (induction p n rule: match_loop.induct)
  case (1 name)
  then show ?case by (cases name) (auto simp: base_name_def name_end_def)
next
  case (2 c p name)
  show ?case
  proof (cases "c = CHR ''['' \<or> c = CHR ''*''")
    case True
    then show ?thesis by (cases name) (auto simp: base_name_def name_end_def)
  next
    case False
    then show ?thesis
      using 2 by (cases name) (auto simp: base_name_def)
  qed
qed

section \<open>Properties\<close>



text \<open>C29: \<open>matchName\<close> compares the names up to their array part: without a star in the
  pattern the two base names must be equal, with a star the text before it must be a
  prefix of the name's base.\<close>

theorem matchName_spec:
  "matchName (Some p) (Some n) \<longleftrightarrow>
     (if CHR ''*'' \<in> set (base_name p)
      then prefix (takeWhile (\<lambda>c. c \<noteq> CHR ''*'') (base_name p)) (base_name n)
      else base_name n = base_name p)"
  by (simp add: matchName_def match_loop_spec)

end
