(* ===== verification/Words.thy ===== *)
theory Words
  imports Prelude
begin

text \<open>
  lsf/lib/lib.words.c: how configuration files, commands and the event log are cut into
  lines, words and quoted values.  A \<open>char **\<close> cursor is the text that remains; a FILE is
  the text not read yet, its end is EOF.  The words are copied into static buffers of
  \<open>4 * MAXLINELEN\<close> characters: a word that does not fit has the result \<open>None\<close>.  Memory for
  lines and values is available.
\<close>

definition MAXLINELEN :: nat where
  "MAXLINELEN = 512"

section \<open>Words\<close>

text \<open>The copy into the static buffer, then the test for an empty word.\<close>

definition take_word :: "string \<Rightarrow> string \<Rightarrow> (string option \<times> string) option" where
  "take_word word rest =
     (if length word \<ge> 4 * MAXLINELEN then None
      else if word = [] then Some (None, rest) else Some (Some word, rest))"

definition getNextWord :: "string \<Rightarrow> (string option \<times> string) option" where
  "getNextWord line =
     (let s = dropWhile isspace line in
      take_word (takeWhile (\<lambda>c. \<not> isspace c) s) (dropWhile (\<lambda>c. \<not> isspace c) s))"

definition getNextWord1 :: "string \<Rightarrow> (string option \<times> string) option" where
  "getNextWord1 line =
     (let s = dropWhile isspace line;
          inside = (\<lambda>c. \<not> isspace c \<and> c \<noteq> CHR '','' \<and> c \<noteq> CHR '']'' \<and> c \<noteq> CHR ''['') in
      take_word (takeWhile inside s) (dropWhile inside s))"

fun charInSet :: "char \<Rightarrow> string \<Rightarrow> bool" where
  "charInSet c [] = False"
| "charInSet c (x # xs) = (if c = x then True else charInSet c xs)"

definition getNextWordSet :: "string \<Rightarrow> string \<Rightarrow> (string option \<times> string) option" where
  "getNextWordSet line delims =
     (let s = dropWhile (\<lambda>c. charInSet c delims) line in
      take_word (takeWhile (\<lambda>c. \<not> charInSet c delims) s) (dropWhile (\<lambda>c. \<not> charInSet c delims) s))"

lemma getNextWord_rest: "getNextWord line = Some (Some w, rest) \<Longrightarrow> length rest < length line"
proof -
  assume a: "getNextWord line = Some (Some w, rest)"
  let ?s = "dropWhile isspace line"
  have "takeWhile (\<lambda>c. \<not> isspace c) ?s \<noteq> []" "rest = dropWhile (\<lambda>c. \<not> isspace c) ?s"
    using a by (auto simp: getNextWord_def take_word_def Let_def split: if_splits)
  then have "length rest < length ?s"
    using takeWhile_dropWhile_length [of "\<lambda>c. \<not> isspace c" ?s] by (cases "takeWhile (\<lambda>c. \<not> isspace c) ?s") auto
  then show ?thesis using length_dropWhile_le [of isspace line] by linarith
qed

section \<open>Quoted values\<close>

datatype lserr = LSE_NO_ERR | LSE_CONF_SYNTAX

text \<open>
  \<open>strchr\<close> keeps the text before the first occurrence, \<open>strrchr\<close> before the last one;
  both are cut only when the character occurs.
\<close>

definition before_first :: "char \<Rightarrow> string \<Rightarrow> string" where
  "before_first c s = takeWhile (\<lambda>x. x \<noteq> c) s"

definition before_last :: "char \<Rightarrow> string \<Rightarrow> string" where
  "before_last c s = rev (tl (dropWhile (\<lambda>x. x \<noteq> c) (rev s)))"

text \<open>
  The loop of \<open>getNextValueQ_\<close> that collects words until the closing character: the
  value (\<open>None\<close> for NULL), the cursor and \<open>lserrno\<close>.
\<close>

function valueQ_loop :: "char \<Rightarrow> string \<Rightarrow> string \<Rightarrow> (string option \<times> string \<times> lserr) option" where
  "valueQ_loop ch2 value line =
     (case getNextWord line of
        None \<Rightarrow> None
      | Some (None, rest) \<Rightarrow> Some (None, rest, LSE_CONF_SYNTAX)
      | Some (Some sp, rest) \<Rightarrow>
         (if sp = [ch2] then Some (Some value, rest, LSE_NO_ERR)
          else (let value' = value @ '' '' @ sp in
                if ch2 \<in> set value' then Some (Some (before_last ch2 value'), rest, LSE_NO_ERR)
                else valueQ_loop ch2 value' rest)))"
  by pat_completeness auto
termination
  by (relation "measure (\<lambda>(ch2, value, line). length line)") (auto dest: getNextWord_rest)

definition valueQ_start :: "char \<Rightarrow> string \<Rightarrow> string \<Rightarrow> (string option \<times> string \<times> lserr) option" where
  "valueQ_start ch2 sp rest =
     (if ch2 \<in> set sp then Some (Some (before_first ch2 sp), rest, LSE_NO_ERR)
      else valueQ_loop ch2 sp rest)"

definition getNextValueQ :: "string \<Rightarrow> char \<Rightarrow> char \<Rightarrow> (string option \<times> string \<times> lserr) option" where
  "getNextValueQ line ch1 ch2 =
     (case getNextWord line of
        None \<Rightarrow> None
      | Some (None, rest) \<Rightarrow> Some (None, rest, LSE_NO_ERR)
      | Some (Some sp, rest) \<Rightarrow>
         (if hd sp \<noteq> ch1 then Some (Some sp, rest, LSE_NO_ERR)
          else if sp = [ch1]
          then (case getNextWord rest of
                  None \<Rightarrow> None
                | Some (None, rest') \<Rightarrow> Some (None, rest', LSE_CONF_SYNTAX)
                | Some (Some sp', rest') \<Rightarrow> valueQ_start ch2 sp' rest')
          else valueQ_start ch2 (tl sp) rest))"

section \<open>Quoted strings of the event log\<close>

text \<open>
  \<open>stripQStr\<close>: the text after the opening quote up to a single closing quote, a doubled
  quote standing for one.  The first result is the number of characters read, or -1.
\<close>

fun strip_loop :: "string \<Rightarrow> int \<Rightarrow> string \<Rightarrow> int \<times> string" where
  "strip_loop [] n str = (- 1, str)"
| "strip_loop (c # q) n str =
     (if c = CHR 0x22
      then (case q of
              d # q' \<Rightarrow> if d = CHR 0x22 then strip_loop q' (n + 2) (str @ [d]) else (n + 1, str)
            | [] \<Rightarrow> (n + 1, str))
      else strip_loop q (n + 1) (str @ [c]))"

definition stripQStr :: "string \<Rightarrow> int \<times> string" where
  "stripQStr q =
     (let pre = takeWhile (\<lambda>c. c \<noteq> CHR 0x22) q; r = dropWhile (\<lambda>c. c \<noteq> CHR 0x22) q in
      case r of [] \<Rightarrow> (- 1, []) | _ # q' \<Rightarrow> strip_loop q' (int (length pre) + 1) [])"

text \<open>
  \<open>addQStr\<close> writes a blank and the quoted text; \<open>n\<close> characters can be written before
  \<open>putc\<close> returns EOF.  The results are the return code and what was written.
\<close>

fun double_quotes :: "string \<Rightarrow> string" where
  "double_quotes [] = []"
| "double_quotes (c # cs) = (if c = CHR 0x22 then [CHR 0x22] else []) @ c # double_quotes cs"

definition addQStr :: "nat \<Rightarrow> string \<Rightarrow> int \<times> string" where
  "addQStr n str =
     (let out = CHR '' '' # CHR 0x22 # double_quotes str @ [CHR 0x22] in
      if length out \<le> n then (0, out) else (- 1, take n out))"

section \<open>Lines\<close>

text \<open>The rest of a comment: the character that ended it (\<open>None\<close> is EOF), the text after it
  and the line count.\<close>

fun skip_comment :: "string \<Rightarrow> int \<Rightarrow> char option \<times> string \<times> int" where
  "skip_comment [] n = (None, [], n)"
| "skip_comment (c # cs) n = (if c = CHR 0x0A then (Some c, cs, n + 1) else skip_comment cs n)"

definition blank :: "char \<Rightarrow> char" where
  "blank c = (if isspace c then CHR '' '' else c)"

text \<open>
  The reading loop of \<open>getNextLineD_\<close>: \<open>quotes\<close> is the open quote, \<open>line\<close> the characters
  stored; the results are \<open>cin\<close> (\<open>None\<close> is EOF), the line, the rest of the file and the line
  count.  In configuration format a backslash is dropped before a white-space character.
\<close>

fun lineD_loop :: "bool \<Rightarrow> string \<Rightarrow> int \<Rightarrow> bool \<Rightarrow> string \<Rightarrow> char option \<times> string \<times> string \<times> int" where
  "lineD_loop conf [] n quotes line = (None, line, [], n)"
| "lineD_loop conf (c # cs) n quotes line =
     (if c = CHR 0x0A then (Some c, line, cs, n + 1)
      else
       (let quotes' = (if c = CHR 0x22 then \<not> quotes else quotes) in
        if conf \<and> c = CHR ''#'' \<and> \<not> quotes'
        then (let (cin, rest, n') = skip_comment cs n in (cin, line, rest, n'))
        else if conf \<and> c = CHR 0x5C
        then (case cs of
                [] \<Rightarrow> (None, line, [], n)
              | d # ds \<Rightarrow>
                  lineD_loop conf ds (if d = CHR 0x0A then n + 1 else n) quotes'
                    ((if \<not> isspace d then line @ [c] else line) @ [blank d]))
        else lineD_loop conf cs n quotes' (line @ [blank c])))"

text \<open>
  The trimming loop leaves \<open>lpos\<close> at the last character that is not a blank, or at 0.
\<close>

definition trim_pos :: "string \<Rightarrow> nat" where
  "trim_pos line = length (dropWhile (\<lambda>c. c = CHR '' '') (rev line)) - 1"

definition getNextLineD :: "bool \<Rightarrow> string \<Rightarrow> int \<Rightarrow> string option \<times> string \<times> int" where
  "getNextLineD conf fp n =
     (let (cin, line, rest, n') = lineD_loop conf fp n False [];
          oneChar = (length line = 1); lpos = trim_pos line in
      if cin \<noteq> None \<or> oneChar \<or> lpos > 0 then (Some (take (Suc lpos) line), rest, n')
      else (None, rest, n'))"

lemma skip_comment_shorter: "length (fst (snd (skip_comment cs n))) \<le> length cs"
  by (induction cs n rule: skip_comment.induct) auto

text \<open>The four ways a character is handled, as rules for the loop.\<close>

lemma lineD_loop_cases:
  "lineD_loop conf (CHR 0x0A # cs) n q line = (Some (CHR 0x0A), line, cs, n + 1)"
  "c \<noteq> CHR 0x0A \<Longrightarrow> conf \<Longrightarrow> c = CHR ''#'' \<Longrightarrow> \<not> q \<Longrightarrow>
     lineD_loop conf (c # cs) n q line = (fst (skip_comment cs n), line, snd (skip_comment cs n))"
  "conf \<Longrightarrow> lineD_loop conf [CHR 0x5C] n q line = (None, line, [], n)"
  "conf \<Longrightarrow> lineD_loop conf (CHR 0x5C # d # ds) n q line =
     lineD_loop conf ds (if d = CHR 0x0A then n + 1 else n) q
       ((if \<not> isspace d then line @ [CHR 0x5C] else line) @ [blank d])"
  "c \<noteq> CHR 0x0A \<Longrightarrow> \<not> (conf \<and> c = CHR ''#'' \<and> \<not> q) \<Longrightarrow> \<not> (conf \<and> c = CHR 0x5C) \<Longrightarrow>
     lineD_loop conf (c # cs) n q line =
     lineD_loop conf cs n (if c = CHR 0x22 then \<not> q else q) (line @ [blank c])"
  by (simp_all add: case_prod_beta) auto

declare lineD_loop.simps(2) [simp del]

lemma lineD_induct [case_names eof newline comment bslash_eof bslash other]:
  assumes "\<And>n q line. P [] n q line"
    "\<And>cs n q line. P (CHR 0x0A # cs) n q line"
    "\<And>cs n line. conf \<Longrightarrow> P (CHR ''#'' # cs) n False line"
    "\<And>n q line. conf \<Longrightarrow> P [CHR 0x5C] n q line"
    "\<And>d ds n q line. conf \<Longrightarrow>
       P ds (if d = CHR 0x0A then n + 1 else n) q ((if \<not> isspace d then line @ [CHR 0x5C] else line) @ [blank d]) \<Longrightarrow>
       P (CHR 0x5C # d # ds) n q line"
    "\<And>c cs n q line. c \<noteq> CHR 0x0A \<Longrightarrow> \<not> (conf \<and> c = CHR ''#'' \<and> \<not> q) \<Longrightarrow> \<not> (conf \<and> c = CHR 0x5C) \<Longrightarrow>
       P cs n (if c = CHR 0x22 then \<not> q else q) (line @ [blank c]) \<Longrightarrow> P (c # cs) n q line"
  shows "P fp n q line"
proof (induction "length fp" arbitrary: fp n q line rule: less_induct)
  case less
  show ?case
  proof (cases fp)
    case Nil
    then show ?thesis using assms(1) by simp
  next
    case (Cons c cs)
    consider "c = CHR 0x0A" | "conf" "c = CHR ''#''" "\<not> q" | "conf" "c = CHR 0x5C"
      | "c \<noteq> CHR 0x0A" "\<not> (conf \<and> c = CHR ''#'' \<and> \<not> q)" "\<not> (conf \<and> c = CHR 0x5C)"
      by blast
    then show ?thesis
    proof cases
      case 3
      then show ?thesis using assms(4,5) less Cons by (cases cs) auto
    next
      case 4
      then show ?thesis using assms(6) less Cons by auto
    qed (use assms(2,3) Cons in auto)
  qed
qed

definition file_rest :: "char option \<times> string \<times> string \<times> int \<Rightarrow> string" where
  "file_rest r = fst (snd (snd r))"

lemma file_rest_simps [simp]: "file_rest (a, b, c, d) = c" "file_rest (a, b, x) = fst x"
  by (simp_all add: file_rest_def)

lemma lineD_loop_shorter:
  "length (file_rest (lineD_loop conf fp n q line)) \<le> length fp - 1"
proof (induction fp n q line rule: lineD_induct [where conf = conf])
  case (comment cs n line)
  then show ?case using skip_comment_shorter [of cs n] by (simp add: lineD_loop_cases)
qed (simp_all add: lineD_loop_cases)

lemma getNextLineD_shorter:
  assumes "getNextLineD conf fp n = (Some line, rest, n')"
  shows "length rest < length fp"
proof -
  have "fp \<noteq> []"
    using assms by (auto simp: getNextLineD_def trim_pos_def)
  moreover have "rest = file_rest (lineD_loop conf fp n False [])"
    using assms by (auto simp: getNextLineD_def file_rest_def Let_def case_prod_beta split: if_splits)
  ultimately show ?thesis using lineD_loop_shorter [of conf fp n False "[]"]
    by (cases fp) auto
qed

text \<open>\<open>getNextLineC_\<close> skips the lines that are blank.\<close>

function getNextLineC :: "bool \<Rightarrow> string \<Rightarrow> int \<Rightarrow> string option \<times> string \<times> int" where
  "getNextLineC conf fp n =
     (case getNextLineD conf fp n of
        (None, rest, n') \<Rightarrow> (None, rest, n')
      | (Some line, rest, n') \<Rightarrow>
          (if list_all (\<lambda>c. c = CHR '' '') line then getNextLineC conf rest n' else (Some line, rest, n')))"
  by pat_completeness auto
termination
  by (relation "measure (\<lambda>(conf, fp, n). length fp)") (auto dest: getNextLineD_shorter [OF sym])

definition getNextLine :: "bool \<Rightarrow> string \<Rightarrow> string option \<times> string" where
  "getNextLine conf fp = (let (l, rest, n) = getNextLineC conf fp 0 in (l, rest))"

text \<open>\<open>subNewLine_\<close> shifts the text left over every newline, from the end.\<close>

fun subNewLine_loop :: "nat \<Rightarrow> string \<Rightarrow> string" where
  "subNewLine_loop 0 s = s"
| "subNewLine_loop (Suc i) s =
     subNewLine_loop i (if i < length s \<and> s ! i = CHR 0x0A then take i s @ drop (Suc i) s else s)"

definition subNewLine :: "string \<Rightarrow> string" where
  "subNewLine s = subNewLine_loop (length s) s"

section \<open>Words and values\<close>

definition is_word :: "string \<Rightarrow> bool" where
  "is_word w \<longleftrightarrow> w \<noteq> [] \<and> list_all (\<lambda>c. \<not> isspace c) w \<and> length w < 4 * MAXLINELEN"

definition word_break :: "string \<Rightarrow> bool" where
  "word_break s = (case s of [] \<Rightarrow> True | c # _ \<Rightarrow> isspace c)"

fun unwords :: "string list \<Rightarrow> string" where
  "unwords [] = []"
| "unwords [w] = w"
| "unwords (w # ws) = w @ CHR '' '' # unwords ws"

lemma isspace_blank [simp]: "isspace CHR '' ''"
  by code_simp

lemma takeWhile_word:
  "list_all P w \<Longrightarrow> (case s of [] \<Rightarrow> True | c # _ \<Rightarrow> \<not> P c) \<Longrightarrow> takeWhile P (w @ s) = w \<and> dropWhile P (w @ s) = s"
  by (induction w) (auto split: list.splits)

lemma getNextWord_word:
  assumes "is_word w" "word_break rest"
  shows "getNextWord (w @ rest) = Some (Some w, rest)" "getNextWord (CHR '' '' # w @ rest) = Some (Some w, rest)"
proof -
  have d: "dropWhile isspace (w @ rest) = w @ rest"
    using assms(1) by (cases w) (auto simp: is_word_def)
  have "takeWhile (\<lambda>c. \<not> isspace c) (w @ rest) = w \<and> dropWhile (\<lambda>c. \<not> isspace c) (w @ rest) = rest"
    using assms by (intro takeWhile_word) (auto simp: is_word_def word_break_def split: list.splits)
  then show "getNextWord (w @ rest) = Some (Some w, rest)"
    using d assms(1) by (simp add: getNextWord_def take_word_def is_word_def)
  then show "getNextWord (CHR '' '' # w @ rest) = Some (Some w, rest)"
    by (simp add: getNextWord_def d)
qed

lemma unwords_Cons: "ws \<noteq> [] \<Longrightarrow> unwords (w # ws) = w @ CHR '' '' # unwords ws"
  by (cases ws) auto

lemma before_last_snoc: "ch \<notin> set s \<Longrightarrow> before_last ch (s @ [ch]) = s"
  by (simp add: before_last_def)

declare valueQ_loop.simps [simp del]

lemma valueQ_loop_words:
  assumes "\<not> isspace ch2" "word_break rest" "ch2 \<notin> set v0" "ws \<noteq> []"
    "\<forall>w\<in>set ws. is_word w \<and> length w + 1 < 4 * MAXLINELEN \<and> ch2 \<notin> set w"
  shows "valueQ_loop ch2 v0 (CHR '' '' # unwords ws @ ch2 # rest) =
    Some (Some (v0 @ CHR '' '' # unwords ws), rest, LSE_NO_ERR)"
  using assms(3-5)
proof (induction ws arbitrary: v0)
  case (Cons w ws)
  have b: "ch2 \<noteq> CHR '' ''" using assms(1) by auto
  show ?case
  proof (cases "ws = []")
    case True
    have "is_word (w @ [ch2])" using Cons.prems assms(1) by (simp add: is_word_def)
    from getNextWord_word(2) [OF this assms(2)]
    have "getNextWord (CHR '' '' # unwords (w # ws) @ ch2 # rest) = Some (Some (w @ [ch2]), rest)"
      using True by simp
    moreover have "w @ [ch2] \<noteq> [ch2]" using Cons.prems by (auto simp: is_word_def)
    moreover have "before_last ch2 ((v0 @ CHR '' '' # w) @ [ch2]) = v0 @ CHR '' '' # w"
      using Cons.prems b by (intro before_last_snoc) auto
    ultimately show ?thesis using True by (simp add: valueQ_loop.simps Let_def)
  next
    case False
    have "getNextWord (CHR '' '' # w @ CHR '' '' # unwords ws @ ch2 # rest) =
        Some (Some w, CHR '' '' # unwords ws @ ch2 # rest)"
      using Cons.prems by (intro getNextWord_word(2)) (auto simp: word_break_def)
    moreover have "w \<noteq> [ch2]" "ch2 \<notin> set (v0 @ '' '' @ w)" using Cons.prems b by auto
    moreover have "valueQ_loop ch2 (v0 @ '' '' @ w) (CHR '' '' # unwords ws @ ch2 # rest) =
        Some (Some ((v0 @ '' '' @ w) @ CHR '' '' # unwords ws), rest, LSE_NO_ERR)"
      using Cons.IH [of "v0 @ '' '' @ w"] Cons.prems False b by auto
    ultimately show ?thesis using False by (subst valueQ_loop.simps) (simp add: unwords_Cons Let_def)
  qed
qed simp

section \<open>Quotes and line counts\<close>

lemma strip_loop_quotes:
  assumes "case rest of [] \<Rightarrow> True | c # _ \<Rightarrow> c \<noteq> CHR 0x22"
  shows "strip_loop (double_quotes s @ CHR 0x22 # rest) n str =
    (n + int (length (double_quotes s)) + 1, str @ s)"
  by (induction s arbitrary: n str) (use assms in \<open>auto split: list.splits\<close>)

definition newlines :: "string \<Rightarrow> int" where
  "newlines s = int (length (filter (\<lambda>c. c = CHR 0x0A) s))"

lemma newlines_simps [simp]:
  "newlines [] = 0" "newlines (c # s) = (if c = CHR 0x0A then 1 else 0) + newlines s"
  "newlines (s @ t) = newlines s + newlines t"
  by (simp_all add: newlines_def)

definition consumes :: "string \<Rightarrow> int \<Rightarrow> string \<Rightarrow> int \<Rightarrow> bool" where
  "consumes fp n rest n' \<longleftrightarrow> (\<exists>pre. fp = pre @ rest \<and> n' = n + newlines pre)"

lemma consumes_refl: "consumes fp n fp n"
  by (auto simp: consumes_def)

lemma consumes_Cons: "consumes fp (if c = CHR 0x0A then n + 1 else n) rest n' \<Longrightarrow> consumes (c # fp) n rest n'"
proof -
  assume "consumes fp (if c = CHR 0x0A then n + 1 else n) rest n'"
  then obtain pre where "fp = pre @ rest" "n' = (if c = CHR 0x0A then n + 1 else n) + newlines pre"
    by (auto simp: consumes_def)
  then show ?thesis unfolding consumes_def by (intro exI [of _ "c # pre"]) simp
qed

lemma consumes_trans: "consumes fp n mid m \<Longrightarrow> consumes mid m rest n' \<Longrightarrow> consumes fp n rest n'"
  by (auto simp: consumes_def)

lemma skip_comment_consumes: "consumes cs n (fst (snd (skip_comment cs n))) (snd (snd (skip_comment cs n)))"
proof (induction cs n rule: skip_comment.induct)
  case (1 n)
  then show ?case by (simp add: consumes_refl)
next
  case (2 c cs n)
  then show ?case by (cases "c = CHR 0x0A") (auto intro!: consumes_Cons consumes_refl)
qed

lemma lineD_loop_consumes:
  "consumes fp n (file_rest (lineD_loop conf fp n q line)) (snd (snd (snd (lineD_loop conf fp n q line))))"
proof (induction fp n q line rule: lineD_induct [where conf = conf])
  case (comment cs n line)
  then show ?case using skip_comment_consumes [of cs n] by (auto simp: lineD_loop_cases intro: consumes_Cons)
next
  case (bslash d ds n q line)
  then show ?case by (auto simp: lineD_loop_cases intro!: consumes_Cons)
qed (auto simp: lineD_loop_cases intro!: consumes_Cons consumes_refl)

lemma blank_no_space: "isspace (blank c) \<Longrightarrow> blank c = CHR '' ''"
  by (auto simp: blank_def)

lemma lineD_loop_chars:
  "(\<forall>c\<in>set line. isspace c \<longrightarrow> c = CHR '' '') \<Longrightarrow>
   \<forall>c\<in>set (fst (snd (lineD_loop conf fp n q line))). isspace c \<longrightarrow> c = CHR '' ''"
proof (induction fp n q line rule: lineD_induct [where conf = conf])
  case (bslash d ds n q line)
  have "\<not> isspace CHR 0x5C" by code_simp
  with bslash show ?case by (auto simp: lineD_loop_cases blank_no_space)
qed (auto simp: lineD_loop_cases blank_no_space)


lemma lineD_file_rest:
  "getNextLineD conf fp n = (res, rest, n') \<Longrightarrow>
     rest = file_rest (lineD_loop conf fp n False []) \<and> n' = snd (snd (snd (lineD_loop conf fp n False [])))"
  by (auto simp: getNextLineD_def file_rest_def Let_def case_prod_beta split: if_splits)

lemma trim_last:
  assumes "line \<noteq> []" "\<not> list_all (\<lambda>c. c = CHR '' '') (take (Suc (trim_pos line)) line)"
  shows "last (take (Suc (trim_pos line)) line) \<noteq> CHR '' ''"
proof -
  let ?d = "dropWhile (\<lambda>c. c = CHR '' '') (rev line)"
  have d: "?d \<noteq> []"
  proof
    assume "?d = []"
    then have "\<forall>c\<in>set line. c = CHR '' ''" by simp
    then show False using assms(2) by (auto simp: list_all_iff dest: in_set_takeD)
  qed
  then have "Suc (trim_pos line) = length ?d" by (simp add: trim_pos_def)
  moreover have "rev line = takeWhile (\<lambda>c. c = CHR '' '') (rev line) @ ?d" by simp
  then have "line = rev ?d @ rev (takeWhile (\<lambda>c. c = CHR '' '') (rev line))"
    by (metis rev_append rev_rev_ident)
  then have "take (length ?d) line = rev ?d" by (metis append_eq_conv_conj length_rev)
  ultimately show ?thesis using d hd_dropWhile [OF d] by (simp add: last_rev)
qed

lemma getNextLineD_line:
  assumes "getNextLineD conf fp n = (Some line, rest, n')"
  shows "(\<forall>c\<in>set line. isspace c \<longrightarrow> c = CHR '' '') \<and>
    (\<not> list_all (\<lambda>c. c = CHR '' '') line \<longrightarrow> last line \<noteq> CHR '' '')"
proof -
  let ?l = "fst (snd (lineD_loop conf fp n False []))"
  have l: "line = take (Suc (trim_pos ?l)) ?l"
    using assms by (auto simp: getNextLineD_def Let_def case_prod_beta split: if_splits)
  have "\<forall>c\<in>set ?l. isspace c \<longrightarrow> c = CHR '' ''" by (rule lineD_loop_chars) simp
  then have "\<forall>c\<in>set line. isspace c \<longrightarrow> c = CHR '' ''" unfolding l by (auto dest: in_set_takeD)
  moreover have "\<not> list_all (\<lambda>c. c = CHR '' '') line \<Longrightarrow> last line \<noteq> CHR '' ''"
    unfolding l by (rule trim_last) auto
  ultimately show ?thesis by blast
qed

declare getNextLineC.simps [simp del]

lemma getNextLineC_spec:
  assumes "getNextLineC conf fp n = (res, rest, n')"
  shows "consumes fp n rest n' \<and>
    (\<forall>line. res = Some line \<longrightarrow> (\<forall>c\<in>set line. isspace c \<longrightarrow> c = CHR '' '') \<and>
       line \<noteq> [] \<and> last line \<noteq> CHR '' '')"
  using assms
proof (induction conf fp n arbitrary: res rest n' rule: getNextLineC.induct)
  case (1 conf fp n)
  obtain r1 rest1 n1 where d: "getNextLineD conf fp n = (r1, rest1, n1)" by (metis prod_cases3)
  have c: "consumes fp n rest1 n1"
    using lineD_file_rest [OF d] lineD_loop_consumes [of fp n conf False "[]"] by simp
  show ?case
  proof (cases r1)
    case None
    then show ?thesis using 1(2) d c by (simp add: getNextLineC.simps)
  next
    case (Some line)
    show ?thesis
    proof (cases "list_all (\<lambda>c. c = CHR '' '') line")
      case True
      then have "getNextLineC conf rest1 n1 = (res, rest, n')"
        using 1(2) d Some by (simp add: getNextLineC.simps [of conf fp])
      from 1(1) [OF d [symmetric, unfolded Some] refl refl True this] show ?thesis
        using consumes_trans [OF c] by blast
    next
      case False
      then have "res = Some line" "rest = rest1" "n' = n1"
        using 1(2) d Some by (simp_all add: getNextLineC.simps [of conf fp])
      moreover have "line \<noteq> []" using False by auto
      ultimately show ?thesis using getNextLineD_line [of conf fp n line] d Some False c by auto
    qed
  qed
qed

section \<open>Properties\<close>

text \<open>C11: What \<open>addQStr\<close> writes to the event log, \<open>stripQStr\<close> reads back: the same text,
  quotes included, and exactly as many characters as were written, whatever follows
  unless it is another quote.\<close>

theorem quoted_string_roundtrip:
  assumes "addQStr n s = (0, out)" "case rest of [] \<Rightarrow> True | c # _ \<Rightarrow> c \<noteq> CHR 0x22"
  shows "stripQStr (out @ rest) = (int (length out), s)"
proof -
  have "out = CHR '' '' # CHR 0x22 # double_quotes s @ [CHR 0x22]"
    using assms(1) by (auto simp: addQStr_def Let_def split: if_splits)
  moreover have "CHR '' '' \<noteq> CHR 0x22" by code_simp
  ultimately show ?thesis
    using strip_loop_quotes [OF assms(2), of s 2 "[]"] by (simp add: stripQStr_def)
qed

theorem quoted_string_roundtrip_witness:
  "stripQStr ((CHR '' '' # CHR 0x22 # ''a'' @ [CHR 0x22, CHR 0x22] @ ''b'' @ [CHR 0x22]) @ '' 1'') = (7, ''a'' @ [CHR 0x22] @ ''b'')"
proof -
  have a: "addQStr 100 (''a'' @ [CHR 0x22] @ ''b'') =
      (0, CHR '' '' # CHR 0x22 # ''a'' @ [CHR 0x22, CHR 0x22] @ ''b'' @ [CHR 0x22])" by code_simp
  from quoted_string_roundtrip [OF a, of "'' 1''"] show ?thesis by simp
qed



text \<open>C27: \<open>getNextLineC_\<close> always terminates; the line it returns is not blank, has no
  white space but blanks, and does not end in a blank; and the line counter grows by
  exactly the number of newlines of the text it consumed, comments, continuations and
  skipped lines included.\<close>

theorem getNextLineC_correct:
  "case getNextLineC conf fp n of (res, rest, n') \<Rightarrow>
     (\<exists>pre. fp = pre @ rest \<and> n' = n + newlines pre) \<and>
     (case res of None \<Rightarrow> True
      | Some line \<Rightarrow> line \<noteq> [] \<and> last line \<noteq> CHR '' '' \<and> filter isspace line = filter (\<lambda>c. c = CHR '' '') line)"
proof -
  obtain res rest n' where g: "getNextLineC conf fp n = (res, rest, n')" by (metis prod_cases3)
  have "filter isspace line = filter (\<lambda>c. c = CHR '' '') line"
    if "\<forall>c\<in>set line. isspace c \<longrightarrow> c = CHR '' ''" for line :: string
    using that by (intro filter_cong) auto
  then show ?thesis using getNextLineC_spec [OF g] g
    by (auto simp: consumes_def split: option.split)
qed

text \<open>C37: The last line of a file that has no newline: a single character is returned,
  but followed by blanks it is lost.\<close>

theorem last_line_lost:
  assumes "\<not> isspace c" "c \<noteq> CHR 0x22"
  shows "getNextLineD False (c # replicate k (CHR '' '')) n =
    (if k = 0 then Some [c] else None, [], n)"
proof -
  have b: "lineD_loop False (replicate k (CHR '' '')) n False line =
      (None, line @ replicate k (CHR '' ''), [], n)" for k line
    by (induction k arbitrary: line) (auto simp: lineD_loop_cases blank_def)
  have "c \<noteq> CHR 0x0A" using assms(1) by (auto simp: isspace_def)
  then have "lineD_loop False (c # replicate k (CHR '' '')) n False [] = (None, c # replicate k (CHR '' ''), [], n)"
    using assms by (simp add: lineD_loop_cases b blank_def)
  moreover have "trim_pos (c # replicate k (CHR '' '')) = 0"
    using assms(1) by (auto simp: trim_pos_def dropWhile_append)
  ultimately show ?thesis by (simp add: getNextLineD_def)
qed

theorem last_line_lost_witness: "getNextLineD False ''a  '' 3 = (None, [], 3)"
proof -
  have "\<not> isspace CHR ''a''" "CHR ''a'' \<noteq> CHR 0x22" by code_simp+
  from last_line_lost [OF this, of 2 3] show ?thesis by (simp add: numeral_2_eq_2)
qed

end
