(* ===== verification/JobIndex.thy ===== *)
theory JobIndex
  imports CString HashTab "HOL-Library.Signed_Division"
begin

text \<open>
  Job arrays: the 64-bit job ids that carry an array index (macros of lsbatch.h), the
  scanner and the grammar of index specifications such as \<open>[1-10:2,15]%4\<close>
  (lsf/intlib/cal.l, callex.c, idx.y and jidx.c), and the operations of
  lsbatch/daemons/mbd.jarray.c that read them, with \<open>getNextJobId\<close> of mbd.job.c.
  Allocation is taken to succeed, so that a parse fails only on the text.
\<close>

unbundle bit_operations_syntax

section \<open>Job ids\<close>

definition LSB_MAX_ARRAY_IDX :: int where
  "LSB_MAX_ARRAY_IDX = 0x0FFFF"

definition LSB_JOBID :: "int \<Rightarrow> int \<Rightarrow> 64 word" where
  "LSB_JOBID array_jobId array_idx = push_bit 32 (word_of_int array_idx) OR word_of_int array_jobId"

definition LSB_ARRAY_IDX :: "64 word \<Rightarrow> int" where
  "LSB_ARRAY_IDX jobId = (if jobId = - 1 then 0 else c_int (uint (drop_bit 32 jobId AND 0xFFFF)))"

definition LSB_ARRAY_JOBID :: "64 word \<Rightarrow> int" where
  "LSB_ARRAY_JOBID jobId = (if jobId = - 1 then - 1 else c_int (uint (jobId AND 0xFFFFFFFF)))"

section \<open>The scanner\<close>

text \<open>
  The tokens of the shared calendar scanner.  \<open>WORD\<close> stands for \<open>NAME\<close> and the reserved
  words, \<open>OP2\<close> for the operators of two characters; the index grammar has neither.  Texts with the control
  character 1, which has the code of \<open>ICON\<close>, are outside the model.
\<close>

datatype tok = ICON string | RCON | ESTRING | WORD | OP2 | CH char

definition white_space :: "char \<Rightarrow> bool" where
  "white_space c \<longleftrightarrow> c = CHR '' '' \<or> c = CHR 0x09 \<or> c = CHR 0x0A"

definition letter_or_digit :: "char \<Rightarrow> bool" where
  "letter_or_digit c \<longleftrightarrow> isalpha c \<or> c = CHR ''_'' \<or> isdigit c"

text \<open>The text after the last occurrence of a closing mark on the line (longest match of \<open>.*\<close>).\<close>

fun after_last :: "string \<Rightarrow> string \<Rightarrow> string option" where
  "after_last e [] = None"
| "after_last e (c # cs) =
     (if c = CHR 0x0A then None
      else case after_last e cs of
             Some r \<Rightarrow> Some r
           | None \<Rightarrow> (if take (length e) (c # cs) = e then Some (drop (length e) (c # cs)) else None))"

definition op2 :: "char \<Rightarrow> string \<Rightarrow> bool" where
  "op2 c cs \<longleftrightarrow> cs \<noteq> [] \<and>
     [c, hd cs] \<in> {''||'', ''&&'', ''<='', ''>='', ''=='', ''..''}"

text \<open>
  One match of \<open>yylook\<close> and the action of its rule: the token the rule returns, if it
  returns one, and the text that is left.
\<close>

definition yylook :: "char \<Rightarrow> string \<Rightarrow> tok option \<times> string" where
  "yylook c cs =
     (if white_space c \<or> c = CHR ''#'' then (None, cs)
      else if isdigit c then
        (let rest = dropWhile isdigit cs in
         if rest \<noteq> [] \<and> hd rest = CHR ''.'' then (Some RCON, dropWhile isdigit (tl rest))
         else (Some (ICON (c # takeWhile isdigit cs)), rest))
      else if isalpha c then (Some WORD, dropWhile letter_or_digit cs)
      else (case (if c = CHR ''/'' \<and> cs \<noteq> [] \<and> hd cs = CHR ''*'' then after_last ''*/'' (tl cs) else None) of
              Some r \<Rightarrow> (None, r)
            | None \<Rightarrow>
               (case (if c = CHR 0x27 \<or> c = CHR 0x22 then after_last [c] cs else None) of
                  Some r \<Rightarrow> (Some ESTRING, r)
                | None \<Rightarrow> if op2 c cs then (Some OP2, tl cs) else (Some (CH c), cs))))"

lemma after_last_length: "after_last e cs = Some r \<Longrightarrow> length r \<le> length cs"
  by (induction e cs rule: after_last.induct) (auto split: if_splits option.splits)

lemma yylook_length: "length (snd (yylook c cs)) \<le> length cs"
proof -
  have 1: "length (dropWhile P (tl xs)) \<le> length cs" if "length xs \<le> length cs" for P and xs :: string
    using that length_dropWhile_le [of P "tl xs"] by (cases xs) auto
  have 2: "length r \<le> length cs" if "after_last e (tl cs) = Some r" for e r
    using after_last_length [OF that] by (cases cs) auto
  have 3: "length (tl cs) \<le> length cs" by simp
  show ?thesis unfolding yylook_def Let_def
    by (simp add: length_dropWhile_le 1 split: option.split) (simp add: 2 after_last_length split: if_splits)
qed

text \<open>The tokens \<open>yylex\<close> returns, one call after the other, until it returns 0.\<close>

function yylex :: "string \<Rightarrow> tok list" where
  "yylex [] = []"
| "yylex (c # cs) =
     (case yylook c cs of
        (None, rest) \<Rightarrow> yylex rest
      | (Some t, rest) \<Rightarrow> t # yylex rest)"
  by pat_completeness auto
termination
proof (relation "measure length", goal_cases)
  case (2 c cs x y)
  then show ?case using yylook_length [of c cs] by (metis in_measure le_imp_less_Suc length_Cons snd_conv)
next
  case (3 c cs x y z)
  then show ?case using yylook_length [of c cs] by (metis in_measure le_imp_less_Suc length_Cons snd_conv)
qed simp

section \<open>The grammar\<close>

text \<open>
  An entry of \<open>struct idxList\<close>; a list of them is the linked list.  The parser is the
  LALR automaton yacc made of idx.y: its actions are those of the grammar's rules, and it
  gives up when a state would be the 151st on its stack (\<open>YYMAXDEPTH\<close>).  The first
  argument of the functions below is the number of states on the stack; \<open>None\<close> is
  \<open>YYABORT\<close>.
\<close>

record idx =
  idx_start :: int
  idx_end :: int
  idx_step :: int

definition YYMAXDEPTH :: nat where
  "YYMAXDEPTH = 150"

fun at_icon :: "tok list \<Rightarrow> bool" where
  "at_icon (ICON w # ts) = True"
| "at_icon ts = False"

definition at_ch :: "char \<Rightarrow> tok list \<Rightarrow> bool" where
  "at_ch c ts \<longleftrightarrow> ts \<noteq> [] \<and> hd ts = CH c"

fun p_icon :: "nat \<Rightarrow> tok list \<Rightarrow> (int \<times> tok list) option" where
  "p_icon n (ICON w # ts) = (if n \<le> YYMAXDEPTH then Some (atoi w, ts) else None)"
| "p_icon n ts = None"

definition p_region :: "nat \<Rightarrow> tok list \<Rightarrow> ((int \<times> int) \<times> tok list) option" where
  "p_region d ts =
     (if at_ch CHR ''-'' ts
      then (case p_icon (d + 2) (tl ts) of None \<Rightarrow> None | Some (b, ts1) \<Rightarrow> Some ((1, b), ts1))
      else (case p_icon (d + 1) ts of
              None \<Rightarrow> None
            | Some (a, ts1) \<Rightarrow>
               (if \<not> at_ch CHR ''-'' ts1 then Some ((a, a), ts1)
                else if at_icon (tl ts1)
                then (case p_icon (d + 3) (tl ts1) of None \<Rightarrow> None | Some (b, ts2) \<Rightarrow> Some ((a, b), ts2))
                else if d + 2 \<le> YYMAXDEPTH then Some ((a, INFINIT_INT), tl ts1) else None)))"

definition mk_index :: "int \<Rightarrow> int \<Rightarrow> int \<Rightarrow> idx option" where
  "mk_index start fin step =
     (if start < 1 \<or> start > fin \<or> step \<le> 0 then None
      else Some \<lparr>idx_start = start, idx_end = fin, idx_step = step\<rparr>)"

definition p_index :: "nat \<Rightarrow> tok list \<Rightarrow> (idx \<times> tok list) option" where
  "p_index d ts =
     (case p_region d ts of
        None \<Rightarrow> None
      | Some ((a, b), ts1) \<Rightarrow>
         (if \<not> at_ch CHR '':'' ts1 then map_option (\<lambda>i. (i, ts1)) (mk_index a b 1)
          else case p_icon (d + 3) (tl ts1) of
                 None \<Rightarrow> None
               | Some (c, ts2) \<Rightarrow> map_option (\<lambda>i. (i, ts2)) (mk_index a b c)))"

lemma p_icon_length: "p_icon n ts = Some (v, ts') \<Longrightarrow> length ts = Suc (length ts')"
  by (induction n ts rule: p_icon.induct) (auto split: if_splits)

lemma at_ch_tl: "at_ch c ts \<Longrightarrow> 0 < length ts"
  by (cases ts) (auto simp: at_ch_def)

lemma p_region_length: "p_region d ts = Some (ab, ts') \<Longrightarrow> length ts' < length ts"
  by (auto simp: p_region_def split: if_splits option.splits dest!: p_icon_length at_ch_tl)

lemma p_index_length: "p_index d ts = Some (i, ts') \<Longrightarrow> length ts' < length ts"
  by (auto simp: p_index_def split: if_splits option.splits dest!: p_region_length p_icon_length at_ch_tl)

function p_indcies :: "nat \<Rightarrow> tok list \<Rightarrow> (idx list \<times> tok list) option" where
  "p_indcies d ts =
     (case p_index d ts of
        None \<Rightarrow> None
      | Some (i, ts') \<Rightarrow>
          (if at_ch CHR '','' ts'
           then (if d + 2 > YYMAXDEPTH then None
                 else case p_indcies (d + 2) (tl ts') of
                        None \<Rightarrow> None
                      | Some (is, ts'') \<Rightarrow> Some (i # is, ts''))
           else Some ([i], ts')))"
  by pat_completeness auto
termination
  by (relation "measure (\<lambda>(d, ts). length ts)") (auto dest!: p_index_length at_ch_tl)

text \<open>
  \<open>idxparse\<close>: the list and, after \<open>%\<close>, the limit on running elements (\<open>None\<close>: not assigned).
  The parser compares token codes: \<open>ESTRING\<close> is the 38th constant of \<open>TOKEN_type\<close> in tokdefs.h
  and so has the code 37 of the character \<open>%\<close>.
\<close>

definition idxparse :: "tok list \<Rightarrow> (idx list \<times> int option) option" where
  "idxparse ts =
     (if \<not> at_ch CHR ''['' ts then None
      else case p_indcies 2 (tl ts) of
             None \<Rightarrow> None
           | Some (is, ts1) \<Rightarrow>
              (if \<not> at_ch CHR '']'' ts1 then None
               else if tl ts1 = [] then Some (is, None)
               else if at_ch CHR ''%'' (tl ts1) \<or> hd (tl ts1) = ESTRING
               then (case p_icon 4 (tl (tl ts1)) of
                       Some (n, []) \<Rightarrow> Some (is, Some n)
                     | _ \<Rightarrow> None)
               else None))"

section \<open>Index lists of job arrays\<close>

text \<open>The error codes of lsbatch.h these operations return.\<close>

datatype lsbe = LSBE_NO_ERROR | LSBE_BAD_JOB | LSBE_BAD_IDX | LSBE_BIG_IDX | LSBE_BAD_JOBID

text \<open>
  The loop of \<open>parseJobArrayIndex\<close> over the list: an open end is replaced, later errors
  overwrite earlier ones, and the number of elements is summed up in an \<open>int\<close>.
\<close>

definition open_end :: "int \<Rightarrow> idx \<Rightarrow> idx" where
  "open_end maxJobArraySize i =
     (if idx_end i = INFINIT_INT
      then i\<lparr>idx_end := c_int (idx_start i + c_int ((maxJobArraySize - 1) * idx_step i))\<rparr>
      else i)"

definition check_idx :: "bool \<Rightarrow> idx \<Rightarrow> lsbe \<Rightarrow> lsbe" where
  "check_idx replay i error =
     (let error = (if idx_start i < 1 \<or> idx_step i < 1 then LSBE_BAD_IDX else error);
          error = (if idx_start i > idx_end i then LSBE_BAD_IDX else error) in
      if \<not> replay \<and> idx_end i \<ge> LSB_MAX_ARRAY_IDX then LSBE_BIG_IDX else error)"

fun check_idxs :: "int \<Rightarrow> bool \<Rightarrow> idx list \<Rightarrow> lsbe \<Rightarrow> int \<Rightarrow> idx list \<times> lsbe \<times> int" where
  "check_idxs maxJobArraySize replay [] error arraySize = ([], error, arraySize)"
| "check_idxs maxJobArraySize replay (i # is) error arraySize =
     (let i' = open_end maxJobArraySize i;
          (is', error', arraySize') =
             check_idxs maxJobArraySize replay is (check_idx replay i' error)
               (c_int (arraySize + ((idx_end i' - idx_start i') sdiv idx_step i' + 1))) in
      (i' # is', error', arraySize'))"

text \<open>
  \<open>parseJobArrayIndex\<close>: the list (\<open>[]\<close> is NULL), the error and the limit; the last argument
  is the value \<open>*maxJLimit\<close> has before the call.
\<close>

definition parseJobArrayIndex :: "int \<Rightarrow> bool \<Rightarrow> string \<Rightarrow> int \<Rightarrow> idx list \<times> lsbe \<times> int" where
  "parseJobArrayIndex maxJobArraySize replay job_name maxJLimit =
     (let index = dropWhile (\<lambda>c. c \<noteq> CHR ''['') job_name in
      if index = [] then ([], LSBE_NO_ERROR, maxJLimit)
      else case idxparse (yylex index) of
             None \<Rightarrow> ([], LSBE_BAD_JOB, INFINIT_INT)
           | Some (is, lim) \<Rightarrow>
              (let maxJLimit = (case lim of None \<Rightarrow> INFINIT_INT | Some n \<Rightarrow> n);
                   (is', error, arraySize) = check_idxs maxJobArraySize replay is LSBE_NO_ERROR 0;
                   error = (if \<not> replay \<and> arraySize > maxJobArraySize then LSBE_BIG_IDX else error) in
               if error = LSBE_NO_ERROR then (is', error, maxJLimit) else ([], error, maxJLimit)))"

text \<open>\<open>inIdxList\<close>: whether the index of a job id is one of the list; every id is in the empty list.\<close>

fun idx_search :: "int \<Rightarrow> idx list \<Rightarrow> bool" where
  "idx_search k [] = False"
| "idx_search k (i # is) =
     (if k < idx_start i \<or> k > idx_end i then idx_search k is
      else if (k - idx_start i) smod idx_step i = 0 then True else idx_search k is)"

definition inIdxList :: "64 word \<Rightarrow> idx list \<Rightarrow> bool" where
  "inIdxList jobId is = (if is \<noteq> [] then idx_search (LSB_ARRAY_IDX jobId) is else True)"

text \<open>
  \<open>getJobIdIndexList\<close>: error, job id (\<open>None\<close>: \<open>*outJobId\<close> not assigned), list, and the
  text buffer, which the function cuts at the bracket and puts back except when the id is bad.
\<close>

definition getJobIdIndexList :: "int \<Rightarrow> bool \<Rightarrow> string \<Rightarrow> lsbe \<times> int option \<times> idx list \<times> string" where
  "getJobIdIndexList maxJobArraySize replay jobIdStr =
     (let pre = takeWhile (\<lambda>c. c \<noteq> CHR ''['') jobIdStr in
      if pre = jobIdStr then
        (if \<not> isint (Some jobIdStr) \<or> atoi jobIdStr < 0 then (LSBE_BAD_JOBID, None, [], jobIdStr)
         else (LSBE_NO_ERROR, Some (atoi jobIdStr), [], jobIdStr))
      else if \<not> isint (Some pre) \<or> atoi pre \<le> 0 \<or> c_uint (atoi pre) > 0xFFFFFFFF
      then (LSBE_BAD_JOBID, None, [], pre)
      else (case parseJobArrayIndex maxJobArraySize replay jobIdStr 0 of
              (is, errCode, lim) \<Rightarrow>
                (if is = [] then (errCode, Some (atoi pre), [], jobIdStr)
                 else (LSBE_NO_ERROR, Some (atoi pre), is, jobIdStr))))"

text \<open>
  The values \<open>j\<close> takes in \<open>for (j = start; j <= end; j += step)\<close>, with \<open>int\<close> addition, if
  the loop ends within the given number of tests.
\<close>

fun for_values :: "nat \<Rightarrow> int \<Rightarrow> int \<Rightarrow> int \<Rightarrow> int list option" where
  "for_values 0 j fin step = None"
| "for_values (Suc n) j fin step =
     (if j \<le> fin then map_option ((#) j) (for_values n (c_int (j + step)) fin step) else Some [])"

definition add_jobid :: "int \<Rightarrow> int \<Rightarrow> 64 word list \<Rightarrow> 64 word list" where
  "add_jobid jobId j ids =
     (let lsbJobId = LSB_JOBID jobId j in if lsbJobId \<in> set ids then ids else ids @ [lsbJobId])"

fun idx_ids :: "nat \<Rightarrow> int \<Rightarrow> idx list \<Rightarrow> 64 word list \<Rightarrow> 64 word list option" where
  "idx_ids fuel jobId [] ids = Some ids"
| "idx_ids fuel jobId (i # is) ids =
     (case for_values fuel (idx_start i) (idx_end i) (idx_step i) of
        None \<Rightarrow> None
      | Some js \<Rightarrow> idx_ids fuel jobId is (fold (add_jobid jobId) js ids))"

definition getJobIdList :: "nat \<Rightarrow> int \<Rightarrow> bool \<Rightarrow> string \<Rightarrow> (lsbe \<times> 64 word list) option" where
  "getJobIdList fuel maxJobArraySize replay jobIdStr =
     (case getJobIdIndexList maxJobArraySize replay jobIdStr of
        (errCode, jid, is, buf) \<Rightarrow>
          (if errCode \<noteq> LSBE_NO_ERROR then Some (errCode, [])
           else if the jid \<le> 0 then Some (LSBE_BAD_JOBID, [])
           else if is = [] then Some (LSBE_NO_ERROR, [word_of_int (the jid)])
           else map_option (\<lambda>ids. (LSBE_NO_ERROR, ids)) (idx_ids fuel (the jid) is [])))"

text \<open>
  \<open>getNextJobId\<close>: the set \<open>used\<close> holds the ids \<open>getJobData\<close> finds.  The result is the id or
  -1, and the new value of \<open>nextJobId\<close>.
\<close>

definition bump_id :: "int \<Rightarrow> int \<Rightarrow> int" where
  "bump_id maxJobId n = (if n + 1 \<ge> maxJobId then 1 else n + 1)"

function next_free :: "(int \<Rightarrow> bool) \<Rightarrow> int \<Rightarrow> int \<Rightarrow> int \<Rightarrow> int \<times> int" where
  "next_free used maxJobId n i =
     (if used n \<and> i \<le> maxJobId then next_free used maxJobId (bump_id maxJobId n) (i + 1) else (n, i))"
  by pat_completeness auto
termination
  by (relation "measure (\<lambda>(used, m, n, i). nat (m + 1 - i))") auto

definition getNextJobId :: "(int \<Rightarrow> bool) \<Rightarrow> int \<Rightarrow> int \<Rightarrow> int \<times> int" where
  "getNextJobId used maxJobId nextJobId =
     (let (n, i) = next_free used maxJobId (if nextJobId < maxJobId then nextJobId else 1) 0 in
      if i \<ge> maxJobId then (- 1, n) else (n, bump_id maxJobId n))"

section \<open>Facts on job ids\<close>

declare p_indcies.simps [simp del]
declare next_free.simps [simp del]

lemma low_bit_less: "0 \<le> x \<Longrightarrow> x < 2 ^ k \<Longrightarrow> bit (x::int) n \<Longrightarrow> n < k"
proof (rule ccontr)
  assume x: "0 \<le> x" "x < 2 ^ k" and b: "bit x n" and n: "\<not> n < k"
  have "x < 2 ^ n" using x(2) n by (meson less_le_trans not_less one_le_numeral power_increasing)
  then have "\<not> bit x n" using x(1) by (simp add: bit_iff_odd)
  with b show False by simp
qed

lemma LSB_JOBID_parts:
  assumes "0 \<le> j" "j < 2 ^ 32" "0 \<le> i" "i < 2 ^ 16"
  shows "drop_bit 32 (LSB_JOBID j i) AND 0xFFFF = word_of_int i"
    and "LSB_JOBID j i AND 0xFFFFFFFF = word_of_int j"
    and "LSB_JOBID j i \<noteq> - 1"
proof -
  have m16: "(0xFFFF :: 64 word) = mask 16" and m32: "(0xFFFFFFFF :: 64 word) = mask 32"
    by (simp_all add: mask_eq_exp_minus_1)
  have b: "n < 32" if "bit j n" for n using low_bit_less [OF assms(1,2) that] .
  have c: "n < 16" if "bit i n" for n using low_bit_less [OF assms(3,4) that] .
  show "drop_bit 32 (LSB_JOBID j i) AND 0xFFFF = word_of_int i"
    unfolding LSB_JOBID_def m16
    by (rule bit_word_eqI) (auto simp: bit_simps dest: b c)
  show "LSB_JOBID j i AND 0xFFFFFFFF = word_of_int j"
    unfolding LSB_JOBID_def m32
    by (rule bit_word_eqI) (auto simp: bit_simps dest: b)
  have "\<not> bit (LSB_JOBID j i) 63" unfolding LSB_JOBID_def
    using b [of 63] c [of 31] by (auto simp: bit_simps)
  then show "LSB_JOBID j i \<noteq> - 1" by auto
qed

lemma LSB_JOBID_decode:
  assumes "0 \<le> j" "j < 2 ^ 31" "0 \<le> i" "i \<le> LSB_MAX_ARRAY_IDX"
  shows "LSB_ARRAY_IDX (LSB_JOBID j i) = i" "LSB_ARRAY_JOBID (LSB_JOBID j i) = j"
proof -
  have r: "0 \<le> j" "j < 2 ^ 32" "0 \<le> i" "i < 2 ^ 16" using assms by (simp_all add: LSB_MAX_ARRAY_IDX_def)
  have "uint (word_of_int i :: 64 word) = i" "uint (word_of_int j :: 64 word) = j"
    using r by (simp_all add: uint_word_of_int take_bit_int_eq_self)
  then show "LSB_ARRAY_IDX (LSB_JOBID j i) = i" "LSB_ARRAY_JOBID (LSB_JOBID j i) = j"
    using assms r by (simp_all add: LSB_ARRAY_IDX_def LSB_ARRAY_JOBID_def LSB_JOBID_parts c_int_id is_int32_def)
qed

section \<open>Facts on the loops\<close>

text \<open>A well-formed entry: what the grammar and the checks leave.\<close>

definition idx_wf :: "idx \<Rightarrow> bool" where
  "idx_wf i \<longleftrightarrow> 1 \<le> idx_start i \<and> idx_start i \<le> idx_end i \<and> 1 \<le> idx_step i
     \<and> is_int32 (idx_end i) \<and> is_int32 (idx_step i)"

definition members :: "idx \<Rightarrow> int set" where
  "members i = {k. idx_start i \<le> k \<and> k \<le> idx_end i \<and> (k - idx_start i) mod idx_step i = 0}"

lemma for_values_spec:
  "1 \<le> j \<Longrightarrow> 1 \<le> step \<Longrightarrow> fin + step < 2 ^ 31 \<Longrightarrow> nat (fin + 1 - j) < n \<Longrightarrow>
   \<exists>js. for_values n j fin step = Some js \<and> set js = {k. j \<le> k \<and> k \<le> fin \<and> (k - j) mod step = 0}"
proof (induction n arbitrary: j)
  case (Suc n)
  show ?case
  proof (cases "j \<le> fin")
    case False
    then show ?thesis by auto
  next
    case True
    have c: "c_int (j + step) = j + step" using Suc.prems True by (simp add: c_int_def)
    obtain js where js: "for_values n (j + step) fin step = Some js"
      "set js = {k. j + step \<le> k \<and> k \<le> fin \<and> (k - (j + step)) mod step = 0}"
      using Suc.IH [of "j + step"] Suc.prems True by fastforce
    have "(k - (j + step)) mod step = (k - j) mod step" for k
      by (metis diff_diff_eq minus_mod_self2)
    moreover have "j + step \<le> k" if "j \<le> k" "k \<noteq> j" "(k - j) mod step = 0" for k
      using that zdvd_imp_le [of step "k - j"] by (auto simp: mod_eq_0_iff_dvd)
    ultimately have "set (j # js) = {k. j \<le> k \<and> k \<le> fin \<and> (k - j) mod step = 0}"
      using js(2) True Suc.prems by force
    then show ?thesis using js(1) True c by simp
  qed
qed simp

lemma fold_add_jobid:
  "distinct ids \<Longrightarrow> distinct (fold (add_jobid jid) js ids)
     \<and> set (fold (add_jobid jid) js ids) = set ids \<union> LSB_JOBID jid ` set js"
  by (induction js arbitrary: ids) (auto simp: add_jobid_def Let_def)

lemma idx_ids_spec:
  assumes "distinct ids" and "\<And>i. i \<in> set is \<Longrightarrow> idx_wf i \<and> idx_end i + idx_step i < 2 ^ 31 \<and> nat (idx_end i) < fuel"
  shows "\<exists>ids'. idx_ids fuel jid is ids = Some ids' \<and> distinct ids'
     \<and> set ids' = set ids \<union> LSB_JOBID jid ` (\<Union>i \<in> set is. members i)"
  using assms
proof (induction "is" arbitrary: ids)
  case (Cons i "is")
  have w: "idx_wf i" "idx_end i + idx_step i < 2 ^ 31" "nat (idx_end i) < fuel" using Cons.prems(2) by auto
  then obtain js where js: "for_values fuel (idx_start i) (idx_end i) (idx_step i) = Some js"
    "set js = members i"
    using for_values_spec [of "idx_start i" "idx_step i" "idx_end i" fuel]
    by (fastforce simp: idx_wf_def members_def)
  show ?case using Cons.IH [of "fold (add_jobid jid) js ids"] fold_add_jobid [OF Cons.prems(1), of jid js]
      Cons.prems(2) js by (auto simp: image_Un)
qed simp

lemma idx_search_members:
  "(\<And>i. i \<in> set is \<Longrightarrow> 1 \<le> idx_step i) \<Longrightarrow> idx_search k is \<longleftrightarrow> (\<exists>i \<in> set is. k \<in> members i)"
proof (induction "is")
  case (Cons i "is")
  have "(k - idx_start i) smod idx_step i = (k - idx_start i) mod idx_step i"
    if "idx_start i \<le> k" using that Cons.prems [of i] by (cases "k = idx_start i") (auto simp: smod_int_alt_def)
  then show ?case using Cons by (auto simp: members_def)
qed simp

section \<open>Facts on the parser\<close>

lemma atoi_int32: "is_int32 (atoi w)"
  by (simp add: atoi_def c_int_range)

lemma p_icon_int32: "p_icon n ts = Some (v, ts') \<Longrightarrow> is_int32 v \<and> n \<le> YYMAXDEPTH"
  by (induction n ts rule: p_icon.induct) (auto simp: atoi_int32 split: if_splits)

lemma INFINIT_INT_int32: "is_int32 INFINIT_INT"
  by (simp add: is_int32_def INFINIT_INT_def)

lemma p_region_int32: "p_region d ts = Some ((a, b), ts') \<Longrightarrow> is_int32 b \<and> Suc d \<le> YYMAXDEPTH"
  by (auto simp: p_region_def INFINIT_INT_int32
           split: if_splits option.splits dest!: p_icon_int32)

lemma p_index_wf: "p_index d ts = Some (i, ts') \<Longrightarrow> idx_wf i \<and> Suc d \<le> YYMAXDEPTH"
  by (auto simp: p_index_def mk_index_def idx_wf_def is_int32_def [of 1]
           split: if_splits option.splits dest!: p_region_int32 p_icon_int32)

lemma p_indcies_wf:
  "p_indcies d ts = Some (is, ts') \<Longrightarrow>
   is \<noteq> [] \<and> list_all idx_wf is \<and> d + 2 * length is \<le> YYMAXDEPTH + 1"
proof (induction d ts arbitrary: "is" ts' rule: p_indcies.induct)
  case (1 d ts)
  obtain i t1 where i: "p_index d ts = Some (i, t1)" using "1.prems"
    by (auto simp: p_indcies.simps [of d ts] split: option.splits)
  note w = p_index_wf [OF i]
  show ?case
  proof (cases "at_ch CHR '','' t1")
    case False
    then show ?thesis using "1.prems" i w by (auto simp: p_indcies.simps [of d ts])
  next
    case True
    then obtain is1 t2 where r: "d + 2 \<le> YYMAXDEPTH" "p_indcies (d + 2) (tl t1) = Some (is1, t2)" "is = i # is1"
      using "1.prems" i by (auto simp: p_indcies.simps [of d ts] split: if_splits option.splits)
    then show ?thesis using "1.IH" [OF i _ True _ r(2)] w by auto
  qed
qed

lemma idxparse_wf:
  "idxparse ts = Some (is, lim) \<Longrightarrow> is \<noteq> [] \<and> list_all idx_wf is \<and> length is \<le> 74"
  by (auto simp: idxparse_def YYMAXDEPTH_def split: if_splits option.splits list.splits dest!: p_indcies_wf)

text \<open>What the checks establish while the daemon is not replaying its event log.\<close>

definition idx_ok :: "idx \<Rightarrow> bool" where
  "idx_ok i \<longleftrightarrow> 1 \<le> idx_start i \<and> idx_start i \<le> idx_end i \<and> idx_end i < LSB_MAX_ARRAY_IDX \<and> 1 \<le> idx_step i"

definition idx_size :: "idx \<Rightarrow> int" where
  "idx_size i = (idx_end i - idx_start i) div idx_step i + 1"

lemma idx_size_range: "idx_ok i \<Longrightarrow> 0 < idx_size i \<and> idx_size i \<le> 65535"
proof -
  assume ok: "idx_ok i"
  have "(idx_end i - idx_start i) div idx_step i \<le> (idx_end i - idx_start i) div 1"
    using ok by (intro zdiv_mono2) (auto simp: idx_ok_def)
  moreover have "0 \<le> (idx_end i - idx_start i) div idx_step i"
    using ok by (simp add: idx_ok_def pos_imp_zdiv_nonneg_iff)
  ultimately show ?thesis using ok by (simp add: idx_size_def idx_ok_def LSB_MAX_ARRAY_IDX_def)
qed

lemma idx_size_sdiv: "idx_ok i \<Longrightarrow> (idx_end i - idx_start i) sdiv idx_step i + 1 = idx_size i"
  by (cases "idx_start i = idx_end i") (auto simp: idx_ok_def idx_size_def signed_divide_int_def)

lemma check_idx_ok: "check_idx False i e = LSBE_NO_ERROR \<longleftrightarrow> e = LSBE_NO_ERROR \<and> idx_ok i"
  by (auto simp: check_idx_def idx_ok_def Let_def)

lemma check_idxs_error: "check_idxs m False is e n = (is', LSBE_NO_ERROR, n') \<Longrightarrow> e = LSBE_NO_ERROR \<and> list_all idx_ok is'"
proof (induction "is" arbitrary: is' e n n')
  case (Cons i "is")
  then obtain k r where "check_idxs m False is (check_idx False (open_end m i) e) k = (r, LSBE_NO_ERROR, n')"
    "is' = open_end m i # r"
    by (auto simp: Let_def split: prod.splits)
  then show ?case using Cons.IH by (fastforce simp: check_idx_ok)
qed simp

lemma check_idxs_sum:
  "check_idxs m False is e n = (is', LSBE_NO_ERROR, n') \<Longrightarrow> 0 \<le> n \<Longrightarrow>
   n + 65535 * int (length is) < 2 ^ 31 \<Longrightarrow> n' = n + sum_list (map idx_size is')"
proof (induction "is" arbitrary: is' e n n')
  case (Cons i "is")
  let ?i = "open_end m i"
  let ?n = "c_int (n + ((idx_end ?i - idx_start ?i) sdiv idx_step ?i + 1))"
  obtain r where r: "check_idxs m False is (check_idx False ?i e) ?n = (r, LSBE_NO_ERROR, n')" "is' = ?i # r"
    using Cons.prems(1) by (auto simp: Let_def split: prod.splits)
  have ok: "idx_ok ?i" using check_idxs_error [OF r(1)] by (simp add: check_idx_ok)
  have "n + idx_size ?i < 2 ^ 31" "0 \<le> n + idx_size ?i"
    using idx_size_range [OF ok] Cons.prems(2,3) by auto
  then have n: "?n = n + idx_size ?i" by (simp add: idx_size_sdiv [OF ok] c_int_def)
  show ?case using Cons.IH [OF r(1)] r(2) n idx_size_range [OF ok] Cons.prems(2,3) by simp
qed simp

lemma check_idxs_step:
  "check_idxs m r xs e n = (ys, e', n') \<Longrightarrow>
   list_all (\<lambda>i. is_int32 (idx_step i)) ys \<longleftrightarrow> list_all (\<lambda>i. is_int32 (idx_step i)) xs"
proof (induction xs arbitrary: ys e n)
  case (Cons i xs)
  then obtain e1 k zs where "check_idxs m r xs e1 k = (zs, e', n')" "ys = open_end m i # zs"
    by (auto simp: Let_def split: prod.splits)
  then show ?case using Cons.IH by (simp add: open_end_def)
qed simp

lemma parse_success:
  assumes "parseJobArrayIndex m False name l = (is, e, l')" "is \<noteq> []"
  shows "e = LSBE_NO_ERROR \<and> list_all idx_ok is \<and> list_all idx_wf is \<and> sum_list (map idx_size is) \<le> m"
proof -
  obtain is0 lim where p: "idxparse (yylex (dropWhile (\<lambda>c. c \<noteq> CHR ''['') name)) = Some (is0, lim)"
    using assms by (auto simp: parseJobArrayIndex_def Let_def split: if_splits option.splits)
  obtain is1 e1 n where c1: "check_idxs m False is0 LSBE_NO_ERROR 0 = (is1, e1, n)"
    by (cases "check_idxs m False is0 LSBE_NO_ERROR 0")
  have c: "check_idxs m False is0 LSBE_NO_ERROR 0 = (is, LSBE_NO_ERROR, n)" and e: "e = LSBE_NO_ERROR" "n \<le> m"
    using assms p c1 by (auto simp: parseJobArrayIndex_def Let_def split: if_splits)
  note w = idxparse_wf [OF p]
  have "n = sum_list (map idx_size is)" using check_idxs_sum [OF c] w by simp
  moreover have "list_all idx_ok is" using check_idxs_error [OF c] by simp
  moreover have "list_all (\<lambda>i. is_int32 (idx_step i)) is"
    using check_idxs_step [OF c] w by (simp add: list_all_iff idx_wf_def)
  ultimately show ?thesis using e
    by (auto simp: list_all_iff idx_wf_def idx_ok_def is_int32_def LSB_MAX_ARRAY_IDX_def)
qed

lemma members_card: "idx_ok i \<Longrightarrow> finite (members i) \<and> int (card (members i)) \<le> idx_size i"
proof -
  assume ok: "idx_ok i"
  let ?q = "(idx_end i - idx_start i) div idx_step i"
  have "members i \<subseteq> (\<lambda>n. idx_start i + n * idx_step i) ` {0..?q}"
  proof
    fix k assume k: "k \<in> members i"
    let ?n = "(k - idx_start i) div idx_step i"
    have "k = idx_start i + ?n * idx_step i" using k by (simp add: members_def mod_eq_0_iff_dvd)
    moreover have "0 \<le> ?n" "?n \<le> ?q" using k ok
      by (auto simp: members_def idx_ok_def pos_imp_zdiv_nonneg_iff intro!: zdiv_mono1)
    ultimately show "k \<in> (\<lambda>n. idx_start i + n * idx_step i) ` {0..?q}" by auto
  qed
  then have "finite (members i)" "card (members i) \<le> card {0..?q}"
    using finite_surj surj_card_le by (metis finite_atLeastAtMost_int)+
  then show ?thesis using idx_size_range [OF ok] by (simp add: idx_size_def le_nat_iff)
qed

lemma members_union_card:
  "list_all idx_ok is \<Longrightarrow> finite (\<Union>i \<in> set is. members i)
     \<and> int (card (\<Union>i \<in> set is. members i)) \<le> sum_list (map idx_size is)"
proof (induction "is")
  case (Cons i "is")
  have "card (members i \<union> (\<Union>i \<in> set is. members i)) \<le> card (members i) + card (\<Union>i \<in> set is. members i)"
    by (rule card_Un_le)
  then show ?case using Cons members_card [of i] by auto
qed simp

section \<open>Printing and reading back\<close>

text \<open>The text of a list as a user writes it: \<open>[a-b:c,...]\<close>.\<close>

definition show_idx :: "idx \<Rightarrow> string" where
  "show_idx i = nat_digits (nat (idx_start i)) @ CHR ''-'' # nat_digits (nat (idx_end i))
     @ CHR '':'' # nat_digits (nat (idx_step i))"

fun show_rest :: "idx list \<Rightarrow> string" where
  "show_rest [] = '']''"
| "show_rest (i # is) = CHR '','' # show_idx i @ show_rest is"

definition show_idxs :: "idx list \<Rightarrow> string" where
  "show_idxs is = CHR ''['' # show_idx (hd is) @ show_rest (tl is)"

lemma nat_digits_isdigit: "list_all isdigit (nat_digits n)"
proof (induction n rule: nat_digits.induct)
  case (1 n)
  have "isdigit (char_of (48 + n mod 10))" by (simp add: isdigit_def char_of_digit)
  moreover have "isdigit (char_of (48 + n))" if "n < 10" using that by (simp add: isdigit_def char_of_digit)
  ultimately show ?case using 1 by (cases "n < 10") (simp_all add: nat_digits.simps [of n])
qed

lemma digits_val_snoc: "digits_val acc (cs @ [c]) = 10 * digits_val acc cs + digit_val c"
  by (induction cs arbitrary: acc) auto

lemma digits_val_digits: "digits_val 0 (nat_digits n) = int n"
proof (induction n rule: nat_digits.induct)
  case (1 n)
  have "digit_val (char_of (48 + n mod 10)) = int (n mod 10)" by (simp add: digit_val_def char_of_digit)
  moreover have "digit_val (char_of (48 + n)) = int n" if "n < 10" using that by (simp add: digit_val_def char_of_digit)
  ultimately show ?case using 1
    by (cases "n < 10") (simp_all add: nat_digits.simps [of n] digits_val_snoc zdiv_int zmod_int)
qed

lemma digit_not_special: "isdigit c \<Longrightarrow> \<not> isspace c \<and> \<not> white_space c \<and> c \<noteq> CHR ''-'' \<and> c \<noteq> CHR ''+'' \<and> c \<noteq> CHR ''#'' \<and> c \<noteq> CHR ''[''"
  by (auto simp: isdigit_def isspace_def white_space_def)

lemma strtol_digits: "n < 2 ^ 31 \<Longrightarrow> strtol (nat_digits n) = (int n, [], False)"
proof -
  assume n: "n < 2 ^ 31"
  obtain c cs where d: "nat_digits n = c # cs" "isdigit c" using nat_digits_hd [of n] nat_digits_isdigit [of n]
    by (cases "nat_digits n") auto
  have t: "takeWhile isdigit (c # cs) = c # cs" "dropWhile isdigit (c # cs) = []"
    using nat_digits_isdigit [of n] d by (simp_all add: takeWhile_eq_all_conv list_all_iff)
  have "sign_digits (nat_digits n) = (digits_val 0 (c # cs), [], True)"
    unfolding sign_digits_def Let_def d(1) using t digit_not_special [OF d(2)]
    by (simp del: digits_val.simps)
  then have "sign_digits (nat_digits n) = (int n, [], True)" using digits_val_digits [of n] d(1) by simp
  moreover have "dropWhile isspace (nat_digits n) = nat_digits n" using d digit_not_special by simp
  ultimately show ?thesis using n by (simp add: strtol_def LONG_MAX_def)
qed

lemma atoi_digits: "n < 2 ^ 31 \<Longrightarrow> atoi (nat_digits n) = int n"
  by (simp add: atoi_def strtol_digits c_int_def)

lemma yylex_digits:
  assumes "rest \<noteq> []" "\<not> isdigit (hd rest)" "hd rest \<noteq> CHR ''.''"
  shows "yylex (nat_digits n @ rest) = ICON (nat_digits n) # yylex rest"
proof -
  obtain c cs where d: "nat_digits n = c # cs" "isdigit c" "list_all isdigit cs"
    using nat_digits_hd [of n] nat_digits_isdigit [of n] by (cases "nat_digits n") auto
  have w: "takeWhile isdigit (cs @ rest) = cs" "dropWhile isdigit (cs @ rest) = rest"
    using d(3) assms(1,2) by (cases rest; simp add: list_all_iff takeWhile_append2 dropWhile_append2)+
  have "yylook c (cs @ rest) = (Some (ICON (c # cs)), rest)"
    using d(2) w assms digit_not_special [of c] by (simp add: yylook_def)
  then show ?thesis by (simp add: d(1))
qed

lemma yylex_mark:
  "c \<in> {CHR ''['', CHR '']'', CHR ''-'', CHR '':'', CHR '',''} \<Longrightarrow> yylex (c # cs) = CH c # yylex cs"
  by (elim insertE emptyE; simp add: yylook_def white_space_def isdigit_def isalpha_def isupper_def islower_def op2_def)

declare yylex.simps(2) [simp del]

lemma mark_not_digit:
  "c \<in> {CHR ''['', CHR '']'', CHR ''-'', CHR '':'', CHR '',''} \<Longrightarrow> \<not> isdigit c \<and> c \<noteq> CHR ''.''"
  by (elim insertE emptyE; simp add: isdigit_def)

definition idx_toks :: "idx \<Rightarrow> tok list" where
  "idx_toks i = [ICON (nat_digits (nat (idx_start i))), CH CHR ''-'', ICON (nat_digits (nat (idx_end i))),
                 CH CHR '':'', ICON (nat_digits (nat (idx_step i)))]"

fun rest_toks :: "idx list \<Rightarrow> tok list" where
  "rest_toks [] = [CH CHR '']'']"
| "rest_toks (i # is) = CH CHR '','' # idx_toks i @ rest_toks is"

lemma yylex_show_idx:
  assumes "cs \<noteq> []" "hd cs = CHR '','' \<or> hd cs = CHR '']''"
  shows "yylex (show_idx i @ cs) = idx_toks i @ yylex cs"
  using assms by (auto simp: show_idx_def idx_toks_def yylex_digits yylex_mark mark_not_digit)

lemma show_rest_hd: "show_rest is \<noteq> [] \<and> (hd (show_rest is) = CHR '','' \<or> hd (show_rest is) = CHR '']'')"
  by (cases "is") auto

lemma yylex_show_rest: "yylex (show_rest is) = rest_toks is"
  by (induction "is") (auto simp: yylex_mark yylex_show_idx show_rest_hd)

lemma yylex_show: "yylex (show_idxs is) = CH CHR ''['' # idx_toks (hd is) @ rest_toks (tl is)"
  by (simp add: show_idxs_def yylex_mark yylex_show_idx show_rest_hd yylex_show_rest del: yylex.simps)

lemma p_index_toks:
  "idx_wf i \<Longrightarrow> p_index d (idx_toks i @ ts) = (if d + 3 \<le> YYMAXDEPTH then Some (i, ts) else None)"
  by (auto simp: p_index_def p_region_def idx_toks_def at_ch_def mk_index_def atoi_digits idx_wf_def is_int32_def
           split: option.splits)

lemma p_indcies_toks:
  "list_all idx_wf (i # is) \<Longrightarrow> p_indcies d (idx_toks i @ rest_toks is) =
     (if d + 2 * length is + 3 \<le> YYMAXDEPTH then Some (i # is, [CH CHR '']'']) else None)"
proof (induction "is" arbitrary: i d)
  case Nil
  then show ?case by (simp add: p_indcies.simps [of d] p_index_toks at_ch_def)
next
  case (Cons i' "is")
  then show ?case using Cons.IH [of i' "d + 2"]
    by (simp add: p_indcies.simps [of d] p_index_toks at_ch_def)
qed

lemma check_idxs_id:
  "list_all idx_ok is \<Longrightarrow> 0 \<le> n \<Longrightarrow> n + 65535 * int (length is) < 2 ^ 31 \<Longrightarrow>
   check_idxs m False is LSBE_NO_ERROR n = (is, LSBE_NO_ERROR, n + sum_list (map idx_size is))"
proof (induction "is" arbitrary: n)
  case (Cons i "is")
  have ok: "idx_ok i" using Cons.prems by simp
  have o: "open_end m i = i" using ok by (simp add: open_end_def idx_ok_def LSB_MAX_ARRAY_IDX_def INFINIT_INT_def)
  have "n + idx_size i < 2 ^ 31" "0 \<le> n + idx_size i" using idx_size_range [OF ok] Cons.prems by auto
  then have c: "c_int (n + idx_size i) = n + idx_size i" by (simp add: c_int_def)
  have e: "check_idx False i LSBE_NO_ERROR = LSBE_NO_ERROR" using ok by (simp add: check_idx_ok)
  show ?case using Cons.IH [of "n + idx_size i"] Cons.prems idx_size_range [OF ok]
    by (simp add: Let_def o e c idx_size_sdiv [OF ok])
qed simp

section \<open>The next free job id\<close>

lemma bump_id_range: "2 \<le> m \<Longrightarrow> 1 \<le> n \<Longrightarrow> n < m \<Longrightarrow> 1 \<le> bump_id m n \<and> bump_id m n < m"
  by (simp add: bump_id_def)

lemma mod_wrap: "- p \<le> x \<Longrightarrow> x < 0 \<Longrightarrow> x mod p = x + (p::int)"
  using mod_pos_pos_trivial [of "x + p" p] mod_add_self2 [of x p] by auto

lemma bump_id_mod:
  assumes "2 \<le> m" "1 \<le> n" "n < m" "1 \<le> f" "f < m" "n \<noteq> f"
  shows "(f - bump_id m n) mod (m - 1) = (f - n) mod (m - 1) - 1 \<and> 1 \<le> (f - n) mod (m - 1)"
proof (cases "n < f")
  case True
  then show ?thesis using assms mod_pos_pos_trivial [of "f - n" "m - 1"] mod_pos_pos_trivial [of "f - n - 1" "m - 1"]
    by (simp add: bump_id_def algebra_simps)
next
  case False
  then have d: "(f - n) mod (m - 1) = f - n + (m - 1)" using assms mod_wrap [of "m - 1" "f - n"] by simp
  show ?thesis
  proof (cases "n + 1 \<ge> m")
    case True
    then show ?thesis using assms False d mod_pos_pos_trivial [of "f - 1" "m - 1"] by (simp add: bump_id_def)
  next
    case False
    then have "bump_id m n = n + 1" by (simp add: bump_id_def)
    then show ?thesis using assms \<open>\<not> n < f\<close> False d mod_wrap [of "m - 1" "f - n - 1"]
      by (simp add: diff_diff_eq)
  qed
qed

lemma next_free_finds:
  "2 \<le> m \<Longrightarrow> 1 \<le> n \<Longrightarrow> n < m \<Longrightarrow> 1 \<le> f \<Longrightarrow> f < m \<Longrightarrow> \<not> used f \<Longrightarrow> i + (f - n) mod (m - 1) \<le> m - 2 \<Longrightarrow>
   \<exists>r k. next_free used m n i = (r, k) \<and> 1 \<le> r \<and> r < m \<and> \<not> used r \<and> k \<le> m - 2"
proof (induction "nat ((f - n) mod (m - 1))" arbitrary: n i)
  case 0
  have "0 \<le> (f - n) mod (m - 1)" using 0 by simp
  then have "n = f" using 0 bump_id_mod [of m n f] by fastforce
  then show ?case using 0 by (simp add: next_free.simps)
next
  case (Suc x)
  have "0 \<le> (f - n) mod (m - 1)" using Suc.prems by simp
  show ?case
  proof (cases "used n")
    case True
    then have "n \<noteq> f" using Suc.prems by auto
    note b = bump_id_mod [OF Suc.prems(1-5) this] bump_id_range [OF Suc.prems(1-3)]
    have x: "x = nat ((f - bump_id m n) mod (m - 1))" using Suc.hyps(2) b by simp
    show ?thesis using Suc.hyps(1) [OF x Suc.prems(1) _ _ Suc.prems(4-6), of "i + 1"] b True Suc.prems
      by (simp add: next_free.simps [of used m n i])
  next
    case False
    have "i \<le> m - 2" using Suc.prems(7) \<open>0 \<le> (f - n) mod (m - 1)\<close> by linarith
    then show ?thesis using False Suc.prems by (simp add: next_free.simps)
  qed
qed

lemma next_free_full:
  "2 \<le> m \<Longrightarrow> 1 \<le> n \<Longrightarrow> n < m \<Longrightarrow> (\<And>k. 1 \<le> k \<Longrightarrow> k < m \<Longrightarrow> used k) \<Longrightarrow> i \<le> m + 1 \<Longrightarrow>
   snd (next_free used m n i) = m + 1"
proof (induction used m n i rule: next_free.induct)
  case (1 used m n i)
  show ?case
  proof (cases "i \<le> m")
    case True
    then show ?thesis using "1.IH" bump_id_range [OF "1.prems"(1-3)] "1.prems"
      by (simp add: next_free.simps [of used m n i])
  next
    case False
    then show ?thesis using "1.prems" by (simp add: next_free.simps [of used m n i])
  qed
qed

section \<open>Reading back a list\<close>

lemma digit_chars:
  shows "char_of (48::nat) = CHR ''0''"
    "char_of (49::nat) = CHR ''1''"
    "char_of (50::nat) = CHR ''2''"
    "char_of (51::nat) = CHR ''3''"
    "char_of (52::nat) = CHR ''4''"
    "char_of (53::nat) = CHR ''5''"
    "char_of (54::nat) = CHR ''6''"
    "char_of (55::nat) = CHR ''7''"
    "char_of (56::nat) = CHR ''8''"
    "char_of (57::nat) = CHR ''9''"
  by code_simp+

lemma parse_show:
  assumes "is \<noteq> []" "list_all idx_ok is" "list_all (\<lambda>i. is_int32 (idx_step i)) is"
    and "sum_list (map idx_size is) \<le> m" and "CHR ''['' \<notin> set name"
  shows "parseJobArrayIndex m False (name @ show_idxs is) l =
     (if length is \<le> 73 then (is, LSBE_NO_ERROR, INFINIT_INT) else ([], LSBE_BAD_JOB, INFINIT_INT))"
proof -
  have w: "list_all idx_wf is" using assms(2,3)
    by (auto simp: list_all_iff idx_ok_def idx_wf_def is_int32_def LSB_MAX_ARRAY_IDX_def)
  obtain i js where i: "is = i # js" using assms(1) by (cases "is") auto
  have d: "dropWhile (\<lambda>c. c \<noteq> CHR ''['') (name @ show_idxs is) = show_idxs is"
    using assms(5) by (induction name) (auto simp: show_idxs_def)
  have p: "idxparse (yylex (show_idxs is)) = (if length is \<le> 73 then Some (is, None) else None)"
    using w p_indcies_toks [of i js 2] i
    by (auto simp: yylex_show idxparse_def at_ch_def YYMAXDEPTH_def)
  have "check_idxs m False is LSBE_NO_ERROR 0 = (is, LSBE_NO_ERROR, sum_list (map idx_size is))" if "length is \<le> 73"
    using check_idxs_id [OF assms(2), of 0 m] that by simp
  moreover have "show_idxs is \<noteq> []" by (simp add: show_idxs_def)
  ultimately show ?thesis using d p assms(4) by (simp add: parseJobArrayIndex_def Let_def)
qed

section \<open>Properties\<close>

text \<open>C30: an array index and a job id packed into a 64-bit id by \<open>LSB_JOBID\<close> are the ones
  \<open>LSB_ARRAY_IDX\<close> and \<open>LSB_ARRAY_JOBID\<close> read back.\<close>
theorem jobid_roundtrip:
  assumes "0 \<le> j" "j < 2 ^ 31" "0 \<le> i" "i \<le> LSB_MAX_ARRAY_IDX"
  shows "LSB_ARRAY_JOBID (LSB_JOBID j i) = j \<and> LSB_ARRAY_IDX (LSB_JOBID j i) = i"
  using LSB_JOBID_decode [OF assms] by simp

theorem jobid_roundtrip_witness:
  "LSB_ARRAY_JOBID (LSB_JOBID 2147483647 65535) = 2147483647 \<and> LSB_ARRAY_IDX (LSB_JOBID 2147483647 65535) = 65535"
  using jobid_roundtrip [of 2147483647 65535] by (simp add: LSB_MAX_ARRAY_IDX_def)

text \<open>C9: a list of ranges written out after a job name is read back by \<open>parseJobArrayIndex\<close> as the
  same list when it has at most 73 ranges, and refused as a bad job when it has more, because the
  parser's stack is full.\<close>
theorem parse_roundtrip:
  assumes "is \<noteq> []" "list_all idx_ok is" "list_all (\<lambda>i. is_int32 (idx_step i)) is"
    and "sum_list (map idx_size is) \<le> m" and "CHR ''['' \<notin> set name"
  shows "parseJobArrayIndex m False (name @ show_idxs is) l =
     (if length is \<le> 73 then (is, LSBE_NO_ERROR, INFINIT_INT) else ([], LSBE_BAD_JOB, INFINIT_INT))"
  by (rule parse_show [OF assms])

theorem parse_roundtrip_witness:
  "parseJobArrayIndex 1000 False ''job[1-9:2,20-30:1]'' 0 =
     ([\<lparr>idx_start = 1, idx_end = 9, idx_step = 2\<rparr>, \<lparr>idx_start = 20, idx_end = 30, idx_step = 1\<rparr>],
      LSBE_NO_ERROR, INFINIT_INT)"
proof -
  let ?is = "[\<lparr>idx_start = 1, idx_end = 9, idx_step = 2\<rparr>, \<lparr>idx_start = 20, idx_end = 30, idx_step = 1\<rparr>]"
  have "''job'' @ show_idxs ?is = ''job[1-9:2,20-30:1]''" by code_simp
  then show ?thesis using parse_roundtrip [of ?is 1000 "''job''" 0]
    by (simp add: idx_ok_def idx_size_def is_int32_def LSB_MAX_ARRAY_IDX_def)
qed

text \<open>C7: for every text that \<open>getJobIdIndexList\<close> accepts with an index list, \<open>getJobIdList\<close> ends and
  returns without repetition exactly the ids of the array whose index \<open>inIdxList\<close> finds in the
  list, at most \<open>maxJobArraySize\<close> of them, provided no step leads past the largest \<open>int\<close>.\<close>
theorem getJobIdList_correct:
  assumes "getJobIdIndexList m False s = (LSBE_NO_ERROR, Some jid, is, buf)" "is \<noteq> []"
    and "list_all (\<lambda>i. idx_end i + idx_step i < 2 ^ 31) is" and "65535 \<le> fuel"
  shows "\<exists>ids. getJobIdList fuel m False s = Some (LSBE_NO_ERROR, ids) \<and> distinct ids \<and> int (length ids) \<le> m
     \<and> set ids = {LSB_JOBID jid k | k. 0 \<le> k \<and> k \<le> LSB_MAX_ARRAY_IDX \<and> inIdxList (LSB_JOBID jid k) is}"
proof -
  have e: "\<exists>e l. parseJobArrayIndex m False s 0 = (is, e, l)" and jid: "0 < jid" "jid < 2 ^ 31"
    using assms(1,2) atoi_int32 [of "takeWhile (\<lambda>c. c \<noteq> CHR ''['') s"]
    by (auto simp: getJobIdIndexList_def Let_def is_int32_def split: if_splits prod.splits)
  from e obtain e l where "parseJobArrayIndex m False s 0 = (is, e, l)" by auto
  from parse_success [OF this assms(2)]
  have p: "list_all idx_ok is" "list_all idx_wf is" "sum_list (map idx_size is) \<le> m" by auto
  obtain ids where ids: "idx_ids fuel jid is [] = Some ids" "distinct ids"
    "set ids = LSB_JOBID jid ` (\<Union>i \<in> set is. members i)"
    using idx_ids_spec [of "[]" "is" fuel jid] p assms(3,4)
    by (fastforce simp: list_all_iff idx_ok_def LSB_MAX_ARRAY_IDX_def)
  have "int (length ids) = int (card (set ids))" using ids(2) by (simp add: distinct_card)
  also have "\<dots> \<le> int (card (\<Union>i \<in> set is. members i))" using ids(3) members_union_card [OF p(1)] by (simp add: card_image_le)
  also have "\<dots> \<le> m" using members_union_card [OF p(1)] p(3) by linarith
  finally have len: "int (length ids) \<le> m" .
  have a: "inIdxList (LSB_JOBID jid k) is \<longleftrightarrow> (\<exists>i \<in> set is. k \<in> members i)" if "0 \<le> k" "k \<le> LSB_MAX_ARRAY_IDX" for k
    using idx_search_members [of "is" k] p(2) assms(2) LSB_JOBID_decode [of jid k] that jid
    by (auto simp: inIdxList_def list_all_iff idx_wf_def)
  have b: "0 \<le> k \<and> k \<le> LSB_MAX_ARRAY_IDX" if "i \<in> set is" "k \<in> members i" for i k
    using that p(1) by (fastforce simp: list_all_iff idx_ok_def members_def)
  have "(\<Union>i \<in> set is. members i) = {k. 0 \<le> k \<and> k \<le> LSB_MAX_ARRAY_IDX \<and> inIdxList (LSB_JOBID jid k) is}"
    using a b by (auto intro: set_eqI)
  then have "set ids = {LSB_JOBID jid k | k. 0 \<le> k \<and> k \<le> LSB_MAX_ARRAY_IDX \<and> inIdxList (LSB_JOBID jid k) is}"
    unfolding ids(3) by (simp only: image_Collect) 
  then show ?thesis using ids len assms(1,2) jid by (auto simp: getJobIdList_def)
qed

theorem getJobIdList_correct_witness:
  "getJobIdIndexList 1000 False ''7[1-9:2]'' =
     (LSBE_NO_ERROR, Some 7, [\<lparr>idx_start = 1, idx_end = 9, idx_step = 2\<rparr>], ''7[1-9:2]'')
   \<and> (\<exists>ids. getJobIdList 65535 1000 False ''7[1-9:2]'' = Some (LSBE_NO_ERROR, ids) \<and> distinct ids
        \<and> LSB_JOBID 7 5 \<in> set ids)"
proof -
  let ?i = "\<lparr>idx_start = 1, idx_end = 9, idx_step = 2\<rparr>"
  have s: "''7'' @ show_idxs [?i] = ''7[1-9:2]''" by code_simp
  have "sum_list (map idx_size [?i]) \<le> 1000" "list_all idx_ok [?i]" "list_all (\<lambda>i. is_int32 (idx_step i)) [?i]"
    by code_simp+
  then have p: "parseJobArrayIndex 1000 False ''7[1-9:2]'' 0 = ([?i], LSBE_NO_ERROR, INFINIT_INT)"
    using parse_show [of "[?i]" 1000 "''7''" 0] s by simp
  have "isint (Some ''7'')" "atoi ''7'' = 7" by code_simp+
  then have g: "getJobIdIndexList 1000 False ''7[1-9:2]'' = (LSBE_NO_ERROR, Some 7, [?i], ''7[1-9:2]'')"
    by (simp add: getJobIdIndexList_def p c_uint_def)
  have "inIdxList (LSB_JOBID 7 5) [?i]" by code_simp
  moreover have "0 \<le> (5::int)" "5 \<le> LSB_MAX_ARRAY_IDX" by (simp_all add: LSB_MAX_ARRAY_IDX_def)
  ultimately show ?thesis using getJobIdList_correct [OF g, of 65535] g by fastforce
qed

text \<open>C10: \<open>getNextJobId\<close> ends, and returns an id of the range 1 to \<open>maxJobId - 1\<close> that no job has when
  there is one, and -1 when every id of the range is taken.\<close>
theorem getNextJobId_correct:
  assumes "2 \<le> maxJobId" "1 \<le> nextJobId"
  shows "(if \<exists>f. 1 \<le> f \<and> f < maxJobId \<and> \<not> used f
          then \<exists>r n. getNextJobId used maxJobId nextJobId = (r, n) \<and> 1 \<le> r \<and> r < maxJobId \<and> \<not> used r
                  \<and> 1 \<le> n \<and> n < maxJobId
          else fst (getNextJobId used maxJobId nextJobId) = - 1)"
proof -
  define n where "n = (if nextJobId < maxJobId then nextJobId else 1)"
  have n: "1 \<le> n" "n < maxJobId" using assms by (auto simp: n_def)
  show ?thesis
  proof (cases "\<exists>f. 1 \<le> f \<and> f < maxJobId \<and> \<not> used f")
    case True
    then obtain f where f: "1 \<le> f" "f < maxJobId" "\<not> used f" by auto
    have "(f - n) mod (maxJobId - 1) < maxJobId - 1" using assms(1) by simp
    then have "0 + (f - n) mod (maxJobId - 1) \<le> maxJobId - 2" by linarith
    then obtain r k where r: "next_free used maxJobId n 0 = (r, k)" "1 \<le> r" "r < maxJobId" "\<not> used r" "k \<le> maxJobId - 2"
      using next_free_finds [of maxJobId n f used 0] assms(1) n f by blast
    then have "getNextJobId used maxJobId nextJobId = (r, bump_id maxJobId r)"
      by (simp add: getNextJobId_def n_def [symmetric])
    then show ?thesis using True r bump_id_range [of maxJobId r] assms(1) by auto
  next
    case False
    then have "snd (next_free used maxJobId n 0) = maxJobId + 1"
      using next_free_full [of maxJobId n used 0] assms(1) n by auto
    then show ?thesis using False by (auto simp: getNextJobId_def n_def [symmetric] split: prod.splits)
  qed
qed

theorem getNextJobId_correct_witness:
  "\<exists>r n. getNextJobId (\<lambda>k. k \<noteq> 3) 5 4 = (r, n) \<and> 1 \<le> r \<and> r < 5 \<and> \<not> (r \<noteq> 3) \<and> 1 \<le> n \<and> n < 5"
proof -
  have "\<exists>f. 1 \<le> f \<and> f < (5::int) \<and> \<not> f \<noteq> 3" by (rule exI [of _ 3]) simp
  then show ?thesis using getNextJobId_correct [of 5 4 "\<lambda>k. k \<noteq> 3"] by simp
qed


end
