(* ===== verification/Requeue.thy ===== *)
theory Requeue
  imports Words JobIndex
begin

text \<open>
  Requeue exit values of a queue (lsbatch/daemons/mbd.requeue.c): the parser of
  \<open>REQUEUE_EXIT_VALUES\<close>, the match of an exit value against the parsed table, and the history
  of hosts a job was requeued from.  A table is the list of the cells written so far, with
  the cell of type \<open>RQE_END\<close> that ends it; \<open>None\<close> is an access outside the allocated cells or
  the static word buffer.
\<close>

definition RQE_NORMAL :: int where "RQE_NORMAL = 0"
definition RQE_EXCLUDE :: int where "RQE_EXCLUDE = 1"
definition RQE_END :: int where "RQE_END = 255"

record requeueE =
  rqe_type :: int
  rqe_value :: int
  rqe_interval :: int

text \<open>
  \<open>a_getNextWord_\<close>: a word with a parenthesis is cut at its first one, and the line pointer is
  set back to its last one.
\<close>

definition after_last_char :: "char \<Rightarrow> string \<Rightarrow> string" where
  "after_last_char c w = rev (takeWhile (\<lambda>x. x \<noteq> c) (rev w))"

definition a_getNextWord :: "string \<Rightarrow> (string option \<times> string) option" where
  "a_getNextWord line =
     (case getNextWord line of
        None \<Rightarrow> None
      | Some (None, rest) \<Rightarrow> Some (None, rest)
      | Some (Some w, rest) \<Rightarrow>
          (if CHR ''('' \<in> set w
           then Some (Some (before_first CHR ''('' w @ ''(''), after_last_char CHR ''('' w @ rest)
           else if CHR '')'' \<in> set w \<and> hd w \<noteq> CHR '')''
           then Some (Some (before_first CHR '')'' w), CHR '')'' # after_last_char CHR '')'' w @ rest)
           else Some (Some w, rest)))"

text \<open>\<open>fill_struct\<close>: the return code, \<open>numAlloc\<close> and the table.\<close>

definition rqe_end :: requeueE where
  "rqe_end = \<lparr>rqe_type = RQE_END, rqe_value = 0, rqe_interval = 0\<rparr>"

definition fill_struct ::
  "nat \<Rightarrow> requeueE list \<Rightarrow> nat \<Rightarrow> int \<Rightarrow> int \<Rightarrow> (int \<times> nat \<times> requeueE list) option" where
  "fill_struct numAlloc rquest seqnum v mode =
     (if v \<in> rqe_value ` set (take seqnum rquest) then Some (- 1, numAlloc, rquest)
      else (let numAlloc' = (if int seqnum \<ge> int numAlloc - 1 then 2 * numAlloc else numAlloc) in
            if seqnum + 1 < numAlloc'
            then Some (0, numAlloc',
                   take seqnum rquest @ [\<lparr>rqe_type = mode, rqe_value = v, rqe_interval = 1\<rparr>, rqe_end])
            else None))"

text \<open>\<open>strncasecmp(word, "EXCLUDE(", 8) == 0\<close>\<close>

definition is_exclude :: "string \<Rightarrow> bool" where
  "is_exclude word \<longleftrightarrow> strToLower (take 8 word) = ''exclude(''"

text \<open>The parser's variables, and what it does with one word.\<close>

record rq_state =
  rq_table :: "requeueE list"
  rq_num :: nat
  rq_alloc :: nat
  rq_mode :: int
  rq_error :: int

definition rq_word :: "string \<Rightarrow> rq_state \<Rightarrow> rq_state option" where
  "rq_word word s =
     (if isint (Some word) then
        (let exitV = my_atoi (Some word) 256 (- 1) in
         if exitV \<noteq> INFINIT_INT then
           (case fill_struct (rq_alloc s) (rq_table s) (rq_num s) exitV (rq_mode s) of
              None \<Rightarrow> None
            | Some (rc, na, tab) \<Rightarrow>
                (if rc = 0 then Some (s\<lparr>rq_table := tab, rq_num := rq_num s + 1, rq_alloc := na\<rparr>)
                 else Some (s\<lparr>rq_table := tab, rq_alloc := na, rq_error := 1\<rparr>)))
         else Some (s\<lparr>rq_error := 1\<rparr>))
      else if is_exclude word then Some (s\<lparr>rq_mode := RQE_EXCLUDE\<rparr>)
      else if hd word = CHR '')'' then Some (s\<lparr>rq_mode := RQE_NORMAL\<rparr>)
      else Some s)"

lemma getNextWord_split:
  "getNextWord line = Some (Some w, rest) \<Longrightarrow>
   w \<noteq> [] \<and> length w + length rest \<le> length line \<and> list_all (\<lambda>c. \<not> isspace c) w"
  using takeWhile_dropWhile_length [of "\<lambda>c. \<not> isspace c" "dropWhile isspace line"] length_dropWhile_le [of isspace line]
  by (auto simp: getNextWord_def take_word_def Let_def list_all_iff dest: set_takeWhileD split: if_splits)

lemma takeWhile_stops: "x \<in> set xs \<Longrightarrow> \<not> P x \<Longrightarrow> length (takeWhile P xs) < length xs"
  by (induction xs) auto

lemma after_last_char_length: "c \<in> set w \<Longrightarrow> length (after_last_char c w) < length w"
  using takeWhile_stops [of c "rev w"] by (simp add: after_last_char_def)

lemma a_getNextWord_shorter: "a_getNextWord line = Some (Some w, rest) \<Longrightarrow> length rest < length line"
proof -
  assume a: "a_getNextWord line = Some (Some w, rest)"
  obtain v r where g: "getNextWord line = Some (Some v, r)" using a by (auto simp: a_getNextWord_def split: option.splits)
  note s = getNextWord_split [OF g]
  have "length (after_last_char CHR '')'' v) + 1 < length v" if h: "CHR '')'' \<in> set v" "hd v \<noteq> CHR '')''"
  proof -
    obtain x xs where v: "v = x # xs" "x \<noteq> CHR '')''" using s h(2) by (cases v) auto
    then have "after_last_char CHR '')'' v = after_last_char CHR '')'' xs" "CHR '')'' \<in> set xs"
      using h(1) by (auto simp: after_last_char_def takeWhile_append1)
    then show ?thesis using after_last_char_length [of _ xs] v by auto
  qed
  moreover have "length (after_last_char CHR ''('' v) < length v" if "CHR ''('' \<in> set v"
    using after_last_char_length [OF that] .
  moreover have "length r < length line" using s by (cases v) auto
  ultimately show ?thesis using a g s by (auto simp: a_getNextWord_def split: if_splits)
qed

function rq_loop :: "string \<Rightarrow> rq_state \<Rightarrow> rq_state option" where
  "rq_loop reqstr s =
     (case a_getNextWord reqstr of
        None \<Rightarrow> None
      | Some (None, rest) \<Rightarrow> Some s
      | Some (Some word, rest) \<Rightarrow>
          (case rq_word word s of None \<Rightarrow> None | Some s' \<Rightarrow> rq_loop rest s'))"
  by pat_completeness auto
termination
  by (relation "measure (\<lambda>(l, s). length l)") (auto dest: a_getNextWord_shorter)

definition rq_init :: rq_state where
  "rq_init = \<lparr>rq_table = [rqe_end], rq_num = 0, rq_alloc = 16, rq_mode = RQE_NORMAL, rq_error = 0\<rparr>"

text \<open>\<open>requeueEParse\<close>: the number of values, the table and \<open>*error\<close>.\<close>

definition requeueEParse :: "string \<Rightarrow> (nat \<times> requeueE list \<times> int) option" where
  "requeueEParse reqstr = map_option (\<lambda>s. (rq_num s, rq_table s, rq_error s)) (rq_loop reqstr rq_init)"

fun match_exitvalue :: "requeueE list \<Rightarrow> int \<Rightarrow> int option" where
  "match_exitvalue [] exit_value = None"
| "match_exitvalue (e # es) exit_value =
     (if rqe_type e = RQE_END then Some (- 1)
      else if rqe_value e = exit_value then Some (rqe_type e)
      else match_exitvalue es exit_value)"

text \<open>
  \<open>fill_requeueHist\<close>: the cells of the history before the one with host NULL, the allocated
  number and the returned index.  \<open>lasttime\<close> is not written here.
\<close>

record rqHistory =
  rq_host :: pointer
  retry_num :: int

fun hist_pos :: "rqHistory list \<Rightarrow> pointer \<Rightarrow> nat" where
  "hist_pos [] host = 0"
| "hist_pos (h # hs) host = (if rq_host h = host then 0 else Suc (hist_pos hs host))"

definition fill_requeueHist :: "rqHistory list \<Rightarrow> nat \<Rightarrow> pointer \<Rightarrow> (nat \<times> rqHistory list \<times> nat) option" where
  "fill_requeueHist hist alloc host =
     (let i = hist_pos hist host in
      if i < length hist then Some (i, hist[i := (hist ! i)\<lparr>retry_num := retry_num (hist ! i) + 1\<rparr>], alloc)
      else (let alloc' = (if i + 1 \<ge> alloc then 2 * alloc else alloc) in
            if i + 1 < alloc'
            then Some (i, hist @ [\<lparr>rq_host = host, retry_num = 1\<rparr>], alloc') else None))"

section \<open>The table invariant\<close>

declare rq_loop.simps [simp del]

text \<open>The cells before the end mark, for a number of values and an allocation.\<close>

definition rqe_ok :: "requeueE list \<Rightarrow> bool" where
  "rqe_ok es \<longleftrightarrow> distinct (map rqe_value es) \<and>
     list_all (\<lambda>e. 0 \<le> rqe_value e \<and> rqe_value e < 256 \<and> (rqe_type e = RQE_NORMAL \<or> rqe_type e = RQE_EXCLUDE)) es"

definition rq_inv :: "rq_state \<Rightarrow> bool" where
  "rq_inv s \<longleftrightarrow> rq_table s = butlast (rq_table s) @ [rqe_end] \<and> length (butlast (rq_table s)) = rq_num s
     \<and> rqe_ok (butlast (rq_table s)) \<and> rq_num s < rq_alloc s \<and> 2 \<le> rq_alloc s
     \<and> (rq_mode s = RQE_NORMAL \<or> rq_mode s = RQE_EXCLUDE)"

lemma rq_init_inv: "rq_inv rq_init"
  by (simp add: rq_inv_def rq_init_def rqe_ok_def)

lemma my_atoi_range: "my_atoi w 256 (- 1) \<noteq> INFINIT_INT \<Longrightarrow> 0 \<le> my_atoi w 256 (- 1) \<and> my_atoi w 256 (- 1) < 256"
  by (auto simp: my_atoi_def Let_def split: if_splits)

lemma take_table: "rq_inv s \<Longrightarrow> take (rq_num s) (rq_table s) = butlast (rq_table s)"
  by (metis append_eq_conv_conj rq_inv_def)

lemma fill_struct_inv:
  assumes "rq_inv s" "0 \<le> v" "v < 256"
  shows "fill_struct (rq_alloc s) (rq_table s) (rq_num s) v (rq_mode s) =
     (if v \<in> rqe_value ` set (butlast (rq_table s)) then Some (- 1, rq_alloc s, rq_table s)
      else Some (0, if rq_num s + 1 \<ge> rq_alloc s then 2 * rq_alloc s else rq_alloc s,
        butlast (rq_table s) @ [\<lparr>rqe_type = rq_mode s, rqe_value = v, rqe_interval = 1\<rparr>, rqe_end]))"
  using assms(1) by (auto simp: fill_struct_def take_table Let_def rq_inv_def)

text \<open>A value that is not in the table yet becomes its last entry.\<close>

definition add_val :: "int \<Rightarrow> rq_state \<Rightarrow> rq_state" where
  "add_val v s = s\<lparr>rq_table := butlast (rq_table s) @ [\<lparr>rqe_type = rq_mode s, rqe_value = v, rqe_interval = 1\<rparr>, rqe_end],
      rq_num := rq_num s + 1, rq_alloc := (if rq_num s + 1 \<ge> rq_alloc s then 2 * rq_alloc s else rq_alloc s)\<rparr>"

lemma add_val_inv:
  "rq_inv s \<Longrightarrow> 0 \<le> v \<Longrightarrow> v < 256 \<Longrightarrow> v \<notin> rqe_value ` set (butlast (rq_table s)) \<Longrightarrow> rq_inv (add_val v s)"
  by (auto simp: rq_inv_def add_val_def rqe_ok_def butlast_append)

lemma rq_word_inv: "rq_inv s \<Longrightarrow> \<exists>s'. rq_word w s = Some s' \<and> rq_inv s'"
proof -
  assume i: "rq_inv s"
  let ?v = "my_atoi (Some w) 256 (- 1)"
  have m: "rq_inv (s\<lparr>rq_mode := RQE_NORMAL\<rparr>)" "rq_inv (s\<lparr>rq_mode := RQE_EXCLUDE\<rparr>)" "rq_inv (s\<lparr>rq_error := 1\<rparr>)"
    using i by (auto simp: rq_inv_def)
  show ?thesis
  proof (cases "isint (Some w) \<and> ?v \<noteq> INFINIT_INT")
    case True
    note r = my_atoi_range [of "Some w"]
    show ?thesis using True r fill_struct_inv [OF i, of ?v] add_val_inv [OF i, of ?v] i m(3)
      by (cases "?v \<in> rqe_value ` set (butlast (rq_table s))") (auto simp: rq_word_def Let_def add_val_def rq_inv_def)
  next
    case False
    then show ?thesis using m i by (auto simp: rq_word_def Let_def)
  qed
qed

lemma rq_loop_total:
  "rq_inv s \<Longrightarrow> length line < 4 * MAXLINELEN \<Longrightarrow> \<exists>s'. rq_loop line s = Some s' \<and> rq_inv s'"
proof (induction line s rule: rq_loop.induct)
  case (1 line s)
  have "length (takeWhile (\<lambda>c. \<not> isspace c) (dropWhile isspace line)) < 4 * MAXLINELEN"
    using "1.prems"(2) length_takeWhile_le length_dropWhile_le by (meson le_less_trans)
  then have "getNextWord line \<noteq> None" by (simp add: getNextWord_def take_word_def Let_def)
  then have "a_getNextWord line \<noteq> None" by (auto simp: a_getNextWord_def split: option.splits)
  then obtain w rest where a: "a_getNextWord line = Some (w, rest)" by auto
  show ?case
  proof (cases w)
    case None
    then show ?thesis using a "1.prems" by (simp add: rq_loop.simps)
  next
    case (Some word)
    obtain s' where s: "rq_word word s = Some s'" "rq_inv s'" using rq_word_inv [OF "1.prems"(1)] by auto
    have "length rest < 4 * MAXLINELEN" using a_getNextWord_shorter [of line word rest] a Some "1.prems" by simp
    then show ?thesis using "1.IH" [OF a _ Some s(1,2)] a Some s by (simp add: rq_loop.simps [of line s])
  qed
qed

lemma match_exitvalue_spec:
  "rqe_ok es \<Longrightarrow> match_exitvalue (es @ [rqe_end]) v =
     Some (case find (\<lambda>e. rqe_value e = v) es of Some e \<Rightarrow> rqe_type e | None \<Rightarrow> - 1)"
  by (induction es) (auto simp: rqe_ok_def rqe_end_def RQE_NORMAL_def RQE_EXCLUDE_def RQE_END_def)

section \<open>Reading a value list\<close>

lemma isint_digits: "n < 256 \<Longrightarrow> isint (Some (nat_digits n))"
  using strtol_digits [of n] nat_digits_hd [of n] by (simp add: isint_def c_int_def INFINIT_INT_def)

lemma my_atoi_digits: "n < 256 \<Longrightarrow> my_atoi (Some (nat_digits n)) 256 (- 1) = int n"
  by (simp add: my_atoi_def isint_digits atoi_digits)

lemma rq_word_digits:
  assumes "rq_inv s" "n < 256" "int n \<notin> rqe_value ` set (butlast (rq_table s))"
  shows "rq_word (nat_digits n) s = Some (add_val (int n) s)"
  using assms fill_struct_inv [OF assms(1), of "int n"]
  by (simp add: rq_word_def isint_digits my_atoi_digits add_val_def INFINIT_INT_def)

lemma nat_digits_chars:
  "c \<in> set (nat_digits n) \<Longrightarrow> \<not> isspace c \<and> c \<noteq> CHR ''('' \<and> c \<noteq> CHR '')''"
  using nat_digits_isdigit [of n] by (auto simp: list_all_iff isdigit_def isspace_def)

lemma nat_digits_length: "n < 256 \<Longrightarrow> length (nat_digits n) \<le> 3"
  by (simp add: nat_digits.simps [of n] nat_digits.simps [of "n div 10"] nat_digits.simps [of "n div 10 div 10"])

lemma nat_digits_word: "n < 256 \<Longrightarrow> is_word (nat_digits n)"
  using nat_digits_length [of n] nat_digits_chars [of _ n] nat_digits_hd [of n]
  by (auto simp: is_word_def list_all_iff MAXLINELEN_def)

lemma a_getNextWord_digits:
  "n < 256 \<Longrightarrow> word_break rest \<Longrightarrow> a_getNextWord (nat_digits n @ rest) = Some (Some (nat_digits n), rest)"
  using getNextWord_word(1) [OF nat_digits_word, of n rest] nat_digits_chars [of _ n]
  by (auto simp: a_getNextWord_def)

lemma takeWhile_rev_mark: "c \<notin> set w \<Longrightarrow> after_last_char c (v @ c # w) = w"
proof -
  assume "c \<notin> set w"
  then have "takeWhile (\<lambda>x. x \<noteq> c) (rev w) = rev w" by (auto simp: takeWhile_eq_all_conv)
  then show ?thesis by (simp only: after_last_char_def rev_append rev.simps append_assoc append.simps
      takeWhile_tail not_not rev_rev_ident)
qed

lemma a_getNextWord_close:
  assumes "n < 256"
  shows "a_getNextWord (nat_digits n @ '')'') = Some (Some (nat_digits n), '')'')"
proof -
  have "is_word (nat_digits n @ '')'')" using nat_digits_word [OF assms] nat_digits_length [OF assms]
    by (auto simp: is_word_def MAXLINELEN_def isspace_def)
  then have "getNextWord ((nat_digits n @ '')'') @ []) = Some (Some (nat_digits n @ '')''), [])"
    by (intro getNextWord_word(1)) (auto simp: word_break_def)
  moreover have "before_first CHR '')'' (nat_digits n @ '')'') = nat_digits n"
    using nat_digits_chars [of _ n] by (auto simp: before_first_def takeWhile_append2)
  moreover have "after_last_char CHR '')'' (nat_digits n @ '')'') = []"
    using takeWhile_rev_mark [of "CHR '')''" "[]"] by simp
  ultimately show ?thesis using nat_digits_chars [of _ n] nat_digits_hd [of n]
    by (auto simp: a_getNextWord_def hd_append)
qed

lemma a_getNextWord_blank: "a_getNextWord (CHR '' '' # line) = a_getNextWord line"
  by (simp add: a_getNextWord_def getNextWord_def)

lemma a_getNextWord_exclude:
  assumes "CHR ''('' \<notin> set s" "length s + 8 < 4 * MAXLINELEN"
  shows "a_getNextWord (''EXCLUDE('' @ s) = Some (Some ''EXCLUDE('', s)"
proof -
  let ?u = "takeWhile (\<lambda>c. \<not> isspace c) s"
  have w: "is_word (''EXCLUDE('' @ ?u)"
    using assms(2) length_takeWhile_le [of "\<lambda>c. \<not> isspace c" s]
    by (auto simp: is_word_def isspace_def list_all_iff dest: set_takeWhileD)
  have b: "word_break (dropWhile (\<lambda>c. \<not> isspace c) s)"
    by (induction s) (auto simp: word_break_def)
  have "getNextWord (''EXCLUDE('' @ s) = Some (Some (''EXCLUDE('' @ ?u), dropWhile (\<lambda>c. \<not> isspace c) s)"
    using getNextWord_word(1) [OF w b] by simp
  moreover have "after_last_char CHR ''('' (''EXCLUDE('' @ ?u) = ?u"
    using takeWhile_rev_mark [of "CHR ''(''" ?u "''EXCLUDE''"] assms(1) by (auto dest: set_takeWhileD)
  ultimately show ?thesis by (simp add: a_getNextWord_def before_first_def)
qed

lemma rq_loop_step:
  "a_getNextWord line = Some (Some w, rest) \<Longrightarrow> rq_word w s = Some s' \<Longrightarrow> rq_loop line s = rq_loop rest s'"
  by (simp add: rq_loop.simps [of line s])

lemma rq_loop_blank: "rq_loop (CHR '' '' # line) s = rq_loop line s"
  by (simp add: rq_loop.simps [of _ s] a_getNextWord_blank)

text \<open>A list of new values as state, and the texts that lead to it.\<close>

definition fresh :: "nat list \<Rightarrow> rq_state \<Rightarrow> bool" where
  "fresh ns s \<longleftrightarrow> rq_inv s \<and> distinct ns \<and> (\<forall>n \<in> set ns. n < 256 \<and> int n \<notin> rqe_value ` set (butlast (rq_table s)))"

lemma fresh_step: "fresh (n # ns) s \<Longrightarrow> fresh ns (add_val (int n) s) \<and> rq_word (nat_digits n) s = Some (add_val (int n) s)"
  using add_val_inv [of s "int n"] rq_word_digits [of s n]
  by (auto simp: fresh_def add_val_def butlast_append)

lemma add_vals_fields:
  "rq_table s = es @ [rqe_end] \<Longrightarrow>
   rq_table (fold (\<lambda>n. add_val (int n)) ns s) =
     es @ map (\<lambda>n. \<lparr>rqe_type = rq_mode s, rqe_value = int n, rqe_interval = 1\<rparr>) ns @ [rqe_end]
   \<and> rq_mode (fold (\<lambda>n. add_val (int n)) ns s) = rq_mode s
   \<and> rq_num (fold (\<lambda>n. add_val (int n)) ns s) = rq_num s + length ns
   \<and> rq_error (fold (\<lambda>n. add_val (int n)) ns s) = rq_error s"
proof (induction ns arbitrary: s es)
  case (Cons n ns)
  let ?e = "\<lparr>rqe_type = rq_mode s, rqe_value = int n, rqe_interval = 1\<rparr>"
  have "rq_table (add_val (int n) s) = (es @ [?e]) @ [rqe_end]" using Cons.prems by (simp add: add_val_def)
  from Cons.IH [OF this] show ?case by (simp add: add_val_def)
qed simp

lemma add_vals_inv: "fresh ns s \<Longrightarrow> rq_inv (fold (\<lambda>n. add_val (int n)) ns s)"
  using fresh_step by (induction ns arbitrary: s) (auto simp: fresh_def [of "[]"])

lemma rq_loop_values:
  "fresh ns s \<Longrightarrow> ns \<noteq> [] \<Longrightarrow> word_break rest \<Longrightarrow>
   rq_loop (unwords (map nat_digits ns) @ rest) s = rq_loop rest (fold (\<lambda>n. add_val (int n)) ns s)"
proof (induction ns arbitrary: s)
  case (Cons n ns)
  note f = fresh_step [OF Cons.prems(1)]
  have n: "n < 256" using Cons.prems(1) by (simp add: fresh_def)
  show ?case
  proof (cases "ns = []")
    case True
    then show ?thesis using rq_loop_step [OF a_getNextWord_digits [OF n Cons.prems(3)] conjunct2 [OF f]] by simp
  next
    case False
    have b: "word_break (CHR '' '' # unwords (map nat_digits ns) @ rest)" by (simp add: word_break_def)
    show ?thesis using rq_loop_step [OF a_getNextWord_digits [OF n b] conjunct2 [OF f]] Cons.IH f Cons.prems(3) False
      by (simp add: unwords_Cons rq_loop_blank)
  qed
qed simp

lemma rq_loop_close: "rq_loop '')'' s = Some (s\<lparr>rq_mode := RQE_NORMAL\<rparr>)"
proof -
  have "a_getNextWord '')'' = Some (Some '')'', [])" "a_getNextWord [] = Some (None, [])" by code_simp+
  moreover have "rq_word '')'' s = Some (s\<lparr>rq_mode := RQE_NORMAL\<rparr>)"
    by (simp add: rq_word_def isint_def strtol_def sign_digits_def is_exclude_def strToLower_def isdigit_def isspace_def)
  ultimately show ?thesis by (simp add: rq_loop.simps)
qed

lemma rq_loop_values_close:
  "fresh ns s \<Longrightarrow> ns \<noteq> [] \<Longrightarrow>
   rq_loop (unwords (map nat_digits ns) @ '')'') s = Some ((fold (\<lambda>n. add_val (int n)) ns s)\<lparr>rq_mode := RQE_NORMAL\<rparr>)"
proof (induction ns arbitrary: s)
  case (Cons n ns)
  note f = fresh_step [OF Cons.prems(1)]
  have n: "n < 256" using Cons.prems(1) by (simp add: fresh_def)
  show ?case
  proof (cases "ns = []")
    case True
    then show ?thesis using rq_loop_step [OF a_getNextWord_close [OF n] conjunct2 [OF f]] by (simp add: rq_loop_close)
  next
    case False
    have b: "word_break (CHR '' '' # unwords (map nat_digits ns) @ '')'')" by (simp add: word_break_def)
    show ?thesis using rq_loop_step [OF a_getNextWord_digits [OF n b] conjunct2 [OF f]] Cons.IH f False
      by (simp add: unwords_Cons rq_loop_blank)
  qed
qed simp

section \<open>Properties\<close>

text \<open>C31: \<open>requeueEParse\<close> ends on every text that fits its word buffer, without leaving the table.  The
  table holds distinct exit values from 0 to 255 and its end mark, and \<open>match_exitvalue\<close> returns for
  every value the type it is listed with, or -1.\<close>
theorem requeueEParse_table:
  assumes "length reqstr < 4 * MAXLINELEN"
  shows "\<exists>n es err. requeueEParse reqstr = Some (n, es @ [rqe_end], err) \<and> length es = n \<and> rqe_ok es
     \<and> (\<forall>v. match_exitvalue (es @ [rqe_end]) v =
              Some (case find (\<lambda>e. rqe_value e = v) es of Some e \<Rightarrow> rqe_type e | None \<Rightarrow> - 1))"
proof -
  obtain s where s: "rq_loop reqstr rq_init = Some s" "rq_inv s" using rq_loop_total [OF rq_init_inv assms] by auto
  then have "rq_table s = butlast (rq_table s) @ [rqe_end]" "length (butlast (rq_table s)) = rq_num s"
    "rqe_ok (butlast (rq_table s))" by (auto simp: rq_inv_def)
  then show ?thesis using s(1) match_exitvalue_spec [of "butlast (rq_table s)"]
    by (intro exI [of _ "rq_num s"] exI [of _ "butlast (rq_table s)"] exI [of _ "rq_error s"])
       (auto simp: requeueEParse_def)
qed

theorem requeueEParse_table_witness:
  "\<exists>n es err. requeueEParse ''30 EXCLUDE(20)'' = Some (n, es @ [rqe_end], err) \<and> length es = n \<and> rqe_ok es
     \<and> (\<forall>v. match_exitvalue (es @ [rqe_end]) v =
              Some (case find (\<lambda>e. rqe_value e = v) es of Some e \<Rightarrow> rqe_type e | None \<Rightarrow> - 1))"
  by (rule requeueEParse_table) (simp add: MAXLINELEN_def)

text \<open>C0: the text \<open>n1 n2 ... EXCLUDE(m1 m2 ...)\<close> with different exit values below 256 is read as the
  first group in normal mode and the second in exclude mode, without error.\<close>
theorem requeueEParse_reads:
  assumes "distinct (ns @ ms)" "\<forall>n \<in> set (ns @ ms). n < 256" "ns \<noteq> []" "ms \<noteq> []"
    and "length (unwords (map nat_digits ms)) + 9 < 4 * MAXLINELEN"
  shows "requeueEParse (unwords (map nat_digits ns) @ '' EXCLUDE('' @ unwords (map nat_digits ms) @ '')'') =
     Some (length ns + length ms,
       map (\<lambda>n. \<lparr>rqe_type = RQE_NORMAL, rqe_value = int n, rqe_interval = 1\<rparr>) ns
       @ map (\<lambda>n. \<lparr>rqe_type = RQE_EXCLUDE, rqe_value = int n, rqe_interval = 1\<rparr>) ms @ [rqe_end], 0)"
proof -
  let ?t = "unwords (map nat_digits ms) @ '')''"
  let ?s = "fold (\<lambda>n. add_val (int n)) ns rq_init"
  let ?x = "?s\<lparr>rq_mode := RQE_EXCLUDE\<rparr>"
  have f: "fresh ns rq_init" using assms(1,2) rq_init_inv by (auto simp: fresh_def rq_init_def)
  have i: "rq_table rq_init = [] @ [rqe_end]" by (simp add: rq_init_def)
  note s = add_vals_fields [OF i, of ns]
  have "fresh ms ?x" using add_vals_inv [OF f] s assms(1,2) by (auto simp: fresh_def rq_inv_def butlast_append)
  moreover have "rq_table ?x = map (\<lambda>n. \<lparr>rqe_type = rq_mode rq_init, rqe_value = int n, rqe_interval = 1\<rparr>) ns @ [rqe_end]"
    using s by simp
  note x = add_vals_fields [OF this, of ms]
  have p: "CHR ''('' \<notin> set (unwords (map nat_digits ks))" for ks
    using nat_digits_chars by (induction ks rule: induct_list012) (auto)
  have a: "a_getNextWord (''EXCLUDE('' @ ?t) = Some (Some ''EXCLUDE('', ?t)"
    using a_getNextWord_exclude [of ?t] p [of ms] assms(5) by simp
  have w: "rq_word ''EXCLUDE('' ?s = Some ?x"
    by (simp add: rq_word_def) code_simp
  have "rq_loop (unwords (map nat_digits ns) @ '' EXCLUDE('' @ ?t) rq_init = rq_loop ?t ?x"
    using rq_loop_values [OF f assms(3), of "'' EXCLUDE('' @ ?t"] rq_loop_step [OF a w]
    by (simp add: word_break_def rq_loop_blank)
  then show ?thesis using rq_loop_values_close [OF calculation assms(4)] s x
    by (simp add: requeueEParse_def rq_init_def)
qed

theorem requeueEParse_reads_witness:
  "requeueEParse ''30 31 EXCLUDE(20)'' =
     Some (3, [\<lparr>rqe_type = RQE_NORMAL, rqe_value = 30, rqe_interval = 1\<rparr>,
               \<lparr>rqe_type = RQE_NORMAL, rqe_value = 31, rqe_interval = 1\<rparr>,
               \<lparr>rqe_type = RQE_EXCLUDE, rqe_value = 20, rqe_interval = 1\<rparr>, rqe_end], 0)"
proof -
  have "nat_digits 30 = ''30''" "nat_digits 31 = ''31''" "nat_digits 20 = ''20''" by code_simp+
  then show ?thesis using requeueEParse_reads [of "[30, 31]" "[20]"] by (simp add: MAXLINELEN_def)
qed

text \<open>Two exclude groups without a blank between them: the value before the second group is lost.\<close>

lemma exclude_value_lost:
  "requeueEParse ''EXCLUDE(20)EXCLUDE(21)'' =
     Some (1, [\<lparr>rqe_type = RQE_EXCLUDE, rqe_value = 21, rqe_interval = 1\<rparr>, rqe_end], 0)"
proof -
  let ?x = "rq_init\<lparr>rq_mode := RQE_EXCLUDE\<rparr>"
  have a: "a_getNextWord ''EXCLUDE(20)EXCLUDE(21)'' = Some (Some ''EXCLUDE('', ''21)'')" by code_simp
  have w: "rq_word ''EXCLUDE('' rq_init = Some ?x" by code_simp
  have d: "nat_digits 21 = ''21''" by code_simp
  have "fresh [21] ?x" using rq_init_inv by (simp add: fresh_def rq_inv_def rq_init_def)
  from rq_loop_values_close [OF this] show ?thesis using rq_loop_step [OF a w] d
    by (simp add: requeueEParse_def add_val_def rq_init_def rqe_end_def)
qed

lemma hist_update:
  "hist_pos hist host < length hist \<Longrightarrow> i = hist_pos hist host \<Longrightarrow>
   hist' = hist[i := (hist ! i)\<lparr>retry_num := retry_num (hist ! i) + 1\<rparr>] \<Longrightarrow> distinct (map rq_host hist) \<Longrightarrow>
   map rq_host hist' = map rq_host hist \<and> rq_host (hist' ! i) = host
   \<and> sum_list (map retry_num (filter (\<lambda>e. rq_host e = h) hist')) =
       sum_list (map retry_num (filter (\<lambda>e. rq_host e = h) hist)) + (if h = host then 1 else 0)"
  by (induction hist arbitrary: hist' i) (auto split: if_splits)

lemma hist_pos_found: "hist_pos hist host \<le> length hist \<and> (hist_pos hist host < length hist \<longleftrightarrow> host \<in> rq_host ` set hist)"
  by (induction hist) auto

text \<open>C33: \<open>fill_requeueHist\<close> counts one more requeue for the host and leaves the other counts; the
  history keeps one entry per host, and its end mark stays inside the allocated cells.\<close>
theorem fill_requeueHist_counts:
  assumes "distinct (map rq_host hist)" "length hist < alloc" "0 < alloc"
  shows "\<exists>i hist' alloc'. fill_requeueHist hist alloc host = Some (i, hist', alloc')
     \<and> distinct (map rq_host hist') \<and> length hist' < alloc' \<and> rq_host (hist' ! i) = host
     \<and> (\<forall>h. sum_list (map retry_num (filter (\<lambda>e. rq_host e = h) hist')) =
            sum_list (map retry_num (filter (\<lambda>e. rq_host e = h) hist)) + (if h = host then 1 else 0))"
proof (cases "hist_pos hist host < length hist")
  case True
  note u = hist_update [OF True refl refl assms(1)]
  show ?thesis using True assms u by (fastforce simp: fill_requeueHist_def Let_def)
next
  case False
  then have p: "hist_pos hist host = length hist" "host \<notin> rq_host ` set hist"
    using hist_pos_found [of hist host] by auto
  then show ?thesis using False assms
    by (auto simp: fill_requeueHist_def Let_def image_iff filter_empty_conv)
qed

theorem fill_requeueHist_counts_witness:
  "\<exists>i hist' alloc'. fill_requeueHist [\<lparr>rq_host = 11, retry_num = 2\<rparr>] 2 11 = Some (i, hist', alloc')
     \<and> distinct (map rq_host hist') \<and> length hist' < alloc' \<and> rq_host (hist' ! i) = 11
     \<and> (\<forall>h. sum_list (map retry_num (filter (\<lambda>e. rq_host e = h) hist')) =
            sum_list (map retry_num (filter (\<lambda>e. rq_host e = h) [\<lparr>rq_host = 11, retry_num = 2\<rparr>])) + (if h = 11 then 1 else 0))"
  by (rule fill_requeueHist_counts) simp_all

end
