(* ===== verification/JobStatus.thy ===== *)
theory JobStatus
  imports Prelude
begin

text \<open>
  Job status words: the state bits of lsbatch.h, the bits the daemons add to them
  (lsbatch/daemons/daemons.h), and the macros that test and set them.  A status word is an
  \<open>int\<close> of 32 bits, of which the low twenty hold the state.
\<close>

unbundle bit_operations_syntax

type_synonym jstatus = "32 word"

definition JOB_STAT_NULL :: jstatus where "JOB_STAT_NULL = 0x00"
definition JOB_STAT_PEND :: jstatus where "JOB_STAT_PEND = 0x01"
definition JOB_STAT_PSUSP :: jstatus where "JOB_STAT_PSUSP = 0x02"
definition JOB_STAT_RUN :: jstatus where "JOB_STAT_RUN = 0x04"
definition JOB_STAT_SSUSP :: jstatus where "JOB_STAT_SSUSP = 0x08"
definition JOB_STAT_USUSP :: jstatus where "JOB_STAT_USUSP = 0x10"
definition JOB_STAT_EXIT :: jstatus where "JOB_STAT_EXIT = 0x20"
definition JOB_STAT_DONE :: jstatus where "JOB_STAT_DONE = 0x40"
definition JOB_STAT_PDONE :: jstatus where "JOB_STAT_PDONE = 0x80"
definition JOB_STAT_PERR :: jstatus where "JOB_STAT_PERR = 0x100"
definition JOB_STAT_WAIT :: jstatus where "JOB_STAT_WAIT = 0x200"
definition JOB_STAT_UNKWN :: jstatus where "JOB_STAT_UNKWN = 0x10000"
definition JOB_STAT_RESERVE :: jstatus where "JOB_STAT_RESERVE = 0x20000000"
definition JOB_STAT_MIG :: jstatus where "JOB_STAT_MIG = 0x40000000"
definition JOB_STAT_ZOMBIE :: jstatus where "JOB_STAT_ZOMBIE = 0x02000000"
definition MASK_INT_JOB_STAT :: jstatus where "MASK_INT_JOB_STAT = 0x000FFFFF"

lemmas job_stat_defs = JOB_STAT_NULL_def JOB_STAT_PEND_def JOB_STAT_PSUSP_def JOB_STAT_RUN_def
  JOB_STAT_SSUSP_def JOB_STAT_USUSP_def JOB_STAT_EXIT_def JOB_STAT_DONE_def JOB_STAT_PDONE_def
  JOB_STAT_PERR_def JOB_STAT_WAIT_def JOB_STAT_UNKWN_def JOB_STAT_RESERVE_def JOB_STAT_MIG_def
  JOB_STAT_ZOMBIE_def MASK_INT_JOB_STAT_def

definition MASK_STATUS :: "jstatus \<Rightarrow> jstatus" where
  "MASK_STATUS s = s AND MASK_INT_JOB_STAT"

definition SET_STATE :: "jstatus \<Rightarrow> jstatus \<Rightarrow> jstatus" where
  "SET_STATE s n = (s AND NOT MASK_INT_JOB_STAT) OR n"

text \<open>A C condition \<open>s & c\<close>.\<close>

definition has :: "jstatus \<Rightarrow> jstatus \<Rightarrow> bool" where
  "has s c \<longleftrightarrow> s AND c \<noteq> 0"

definition IS_PEND :: "jstatus \<Rightarrow> bool" where
  "IS_PEND s \<longleftrightarrow> has s JOB_STAT_PEND \<or> has s JOB_STAT_PSUSP"

definition IS_START :: "jstatus \<Rightarrow> bool" where
  "IS_START s \<longleftrightarrow> has s JOB_STAT_RUN \<or> has s JOB_STAT_SSUSP \<or> has s JOB_STAT_USUSP"

definition IS_FINISH :: "jstatus \<Rightarrow> bool" where
  "IS_FINISH s \<longleftrightarrow> has s JOB_STAT_DONE \<or> has s JOB_STAT_EXIT"

definition IS_SUSP :: "jstatus \<Rightarrow> bool" where
  "IS_SUSP s \<longleftrightarrow> has s JOB_STAT_PSUSP \<or> has s JOB_STAT_SSUSP \<or> has s JOB_STAT_USUSP"

definition IS_POST_DONE :: "jstatus \<Rightarrow> bool" where
  "IS_POST_DONE s \<longleftrightarrow> s AND JOB_STAT_PDONE = JOB_STAT_PDONE"

definition IS_POST_ERR :: "jstatus \<Rightarrow> bool" where
  "IS_POST_ERR s \<longleftrightarrow> s AND JOB_STAT_PERR = JOB_STAT_PERR"

definition IS_POST_FINISH :: "jstatus \<Rightarrow> bool" where
  "IS_POST_FINISH s \<longleftrightarrow> IS_POST_DONE s \<or> IS_POST_ERR s"

lemmas is_status_defs = IS_PEND_def IS_START_def IS_FINISH_def IS_SUSP_def

text \<open>The state of a status word, \<open>MASK_STATUS(s & ~JOB_STAT_UNKWN)\<close>.\<close>

definition base :: "jstatus \<Rightarrow> jstatus" where
  "base s = MASK_STATUS (s AND NOT JOB_STAT_UNKWN)"

lemma base_mask: "base s = s AND 0xEFFFF"
  by (simp add: base_def MASK_STATUS_def job_stat_defs and.assoc)

lemma has_base: "c AND 0xEFFFF = c \<Longrightarrow> has s c = has (base s) c"
proof -
  assume "c AND 0xEFFFF = c"
  then have "s AND c = (s AND 0xEFFFF) AND c" by (metis and.assoc and.commute)
  then show ?thesis by (simp add: has_def base_mask)
qed

lemma has_state:
  "has s JOB_STAT_PEND = has (base s) 0x01" "has s JOB_STAT_PSUSP = has (base s) 0x02"
  "has s JOB_STAT_RUN = has (base s) 0x04" "has s JOB_STAT_SSUSP = has (base s) 0x08"
  "has s JOB_STAT_USUSP = has (base s) 0x10" "has s JOB_STAT_EXIT = has (base s) 0x20"
  "has s JOB_STAT_DONE = has (base s) 0x40" "has s JOB_STAT_WAIT = has (base s) 0x200"
  "has s (JOB_STAT_RUN OR JOB_STAT_WAIT) = has (base s) 0x204"
  unfolding job_stat_defs by (subst has_base; simp)+

text \<open>The states a job is in, one bit each.\<close>

definition states :: "jstatus set" where
  "states = {JOB_STAT_PEND, JOB_STAT_PSUSP, JOB_STAT_RUN, JOB_STAT_SSUSP, JOB_STAT_USUSP, JOB_STAT_EXIT, JOB_STAT_DONE}"

lemma has_states:
  assumes "base s \<in> states"
  shows "has s JOB_STAT_PEND \<longleftrightarrow> base s = JOB_STAT_PEND" "has s JOB_STAT_PSUSP \<longleftrightarrow> base s = JOB_STAT_PSUSP"
    "has s JOB_STAT_RUN \<longleftrightarrow> base s = JOB_STAT_RUN" "has s JOB_STAT_SSUSP \<longleftrightarrow> base s = JOB_STAT_SSUSP"
    "has s JOB_STAT_USUSP \<longleftrightarrow> base s = JOB_STAT_USUSP" "has s JOB_STAT_EXIT \<longleftrightarrow> base s = JOB_STAT_EXIT"
    "has s JOB_STAT_DONE \<longleftrightarrow> base s = JOB_STAT_DONE" "has s JOB_STAT_WAIT \<longleftrightarrow> False"
  using assms unfolding has_state states_def by (auto simp: has_def job_stat_defs)

lemma base_SET_STATE:
  assumes "n AND 0xEFFFF = n"
  shows "base (SET_STATE s n) = n" "has (SET_STATE s n) JOB_STAT_RESERVE = has s JOB_STAT_RESERVE"
proof -
  have "(s AND NOT 0xFFFFF) AND 0xEFFFF = s AND (NOT 0xFFFFF AND 0xEFFFF)" by (simp only: and.assoc)
  then show "base (SET_STATE s n) = n"
    using assms by (simp add: base_mask SET_STATE_def MASK_INT_JOB_STAT_def word_ao_dist)
  have "n AND 0x20000000 = n AND (0xEFFFF AND 0x20000000)" by (metis and.assoc assms)
  moreover have "(s AND NOT 0xFFFFF) AND 0x20000000 = s AND (NOT 0xFFFFF AND 0x20000000)" by (simp only: and.assoc)
  ultimately show "has (SET_STATE s n) JOB_STAT_RESERVE = has s JOB_STAT_RESERVE"
    by (simp add: has_def SET_STATE_def job_stat_defs word_ao_dist)
qed

lemma reserve_flag:
  "base (s OR JOB_STAT_RESERVE) = base s" "base (s AND NOT JOB_STAT_RESERVE) = base s"
  "has (s OR JOB_STAT_RESERVE) JOB_STAT_RESERVE" "\<not> has (s AND NOT JOB_STAT_RESERVE) JOB_STAT_RESERVE"
proof -
  show "base (s OR JOB_STAT_RESERVE) = base s" by (simp add: base_mask job_stat_defs word_ao_dist)
  have "(s AND NOT 0x20000000) AND 0xEFFFF = s AND (NOT 0x20000000 AND 0xEFFFF)" by (simp only: and.assoc)
  then show "base (s AND NOT JOB_STAT_RESERVE) = base s" by (simp add: base_mask job_stat_defs)
  show "has (s OR JOB_STAT_RESERVE) JOB_STAT_RESERVE"
    by (auto simp: has_def job_stat_defs word_ao_dist)
  show "\<not> has (s AND NOT JOB_STAT_RESERVE) JOB_STAT_RESERVE"
    by (simp add: has_def and.assoc)
qed

end
