(* ===== verification/Counters.thy ===== *)
theory Counters
  imports JobStatus "HOL-Library.Multiset"
begin

text \<open>
  The slot counters of the master batch daemon (lsbatch/daemons/mbd.misc.c): every queue, user,
  user group and host counts the slots of its jobs by state, a queue also counts them per user
  and per host.  The functions here change the counters when a job is submitted, changes state,
  reserves slots or moves to another queue, and set the pending reasons that depend on them.

  A \<open>struct qData\<close>, \<open>uData\<close> or \<open>hData\<close> is a record of the fields these functions use; the six
  counter fields are one function from their names, and the tables \<open>uAcct\<close> and \<open>hAcct\<close> are maps
  from names (the hash table they are kept in refines a map).  The daemon's state holds
  the records by name.  The limits per processor in \<open>updHAcct\<close> and the lists of running jobs per
  user and host are not part of the model.
\<close>

section \<open>State\<close>

datatype counter = NumJobs | NumPEND | NumRUN | NumSSUSP | NumUSUSP | NumRESERVE

type_synonym counts = "counter \<Rightarrow> int"

record userAcct =
  ua_counts :: counts
  ua_numNonPrmptRsv :: int
  ua_reason :: int

record hostAcct =
  ha_counts :: counts
  ha_numNonPrmptRsv :: int

record qData =
  q_counts :: counts
  q_maxJobs :: int
  q_uJobLimit :: int
  q_reason :: int
  q_hostReason :: "string \<Rightarrow> int"
  q_uAcct :: "string \<Rightarrow> userAcct option"
  q_hAcct :: "string \<Rightarrow> hostAcct option"

text \<open>
  \<open>u_groups\<close> is \<open>gPtr\<close> (the user groups of the user), \<open>u_ancestors\<close> the set \<open>ancestors\<close>, and
  \<open>u_pLimited\<close> says that \<open>pJobLimit\<close> is below \<open>INFINIT_FLOAT\<close>.
\<close>

record uData =
  u_counts :: counts
  u_maxJobs :: int
  u_reason :: int
  u_hostReason :: "string \<Rightarrow> int"
  u_pLimited :: bool
  u_hAcct :: "string \<Rightarrow> hostAcct option"
  u_numSlots :: int
  u_isGroup :: bool
  u_groups :: "string list"
  u_ancestors :: "string list"

record hData =
  h_counts :: counts
  h_maxJobs :: int
  h_uJobLimit :: int
  h_uAcct :: "string \<Rightarrow> userAcct option"
  h_remote :: bool
  h_full :: bool
  h_exclusive :: bool
  h_reason :: int

text \<open>
  \<open>m_garbage\<close> is the value a local variable has before it is assigned.
\<close>

record mbd =
  m_queues :: "string \<Rightarrow> qData"
  m_users :: "string \<Rightarrow> uData"
  m_hosts :: "string \<Rightarrow> hData"
  m_replay :: bool
  m_garbage :: int

text \<open>
  A job: \<open>qPtr\<close>, \<open>uPtr\<close>, \<open>hPtr\<close> (one entry per slot), \<open>maxNumProcessors\<close>, \<open>jStatus\<close> and the
  option \<open>SUB_EXCLUSIVE\<close>.
\<close>

record job =
  j_queue :: string
  j_user :: string
  j_hosts :: "string list"
  j_numReq :: int
  j_status :: jstatus
  j_exclusive :: bool

definition PEND_QUE_JOB_LIMIT :: int where "PEND_QUE_JOB_LIMIT = 303"
definition PEND_QUE_USR_JLIMIT :: int where "PEND_QUE_USR_JLIMIT = 304"
definition PEND_USER_JOB_LIMIT :: int where "PEND_USER_JOB_LIMIT = 601"
definition PEND_UGRP_JOB_LIMIT :: int where "PEND_UGRP_JOB_LIMIT = 602"
definition PEND_HOST_JOB_LIMIT :: int where "PEND_HOST_JOB_LIMIT = 1305"
definition PEND_HOST_USR_JLIMIT :: int where "PEND_HOST_USR_JLIMIT = 1309"

definition CLEAR_REASON :: "int \<Rightarrow> int \<Rightarrow> int" where
  "CLEAR_REASON v reason = (if v = reason then 0 else v)"

definition SET_REASON :: "bool \<Rightarrow> int \<Rightarrow> int \<Rightarrow> int" where
  "SET_REASON condition v reason = (if condition then reason else CLEAR_REASON v reason)"

section \<open>Operations\<close>

text \<open>The counter arguments of the functions, in the order they are written in.\<close>

fun delta :: "int \<Rightarrow> int \<Rightarrow> int \<Rightarrow> int \<Rightarrow> int \<Rightarrow> int \<Rightarrow> counts" where
  "delta jobs pend run ssusp ususp reserve NumJobs = jobs"
| "delta jobs pend run ssusp ususp reserve NumPEND = pend"
| "delta jobs pend run ssusp ususp reserve NumRUN = run"
| "delta jobs pend run ssusp ususp reserve NumSSUSP = ssusp"
| "delta jobs pend run ssusp ususp reserve NumUSUSP = ususp"
| "delta jobs pend run ssusp ususp reserve NumRESERVE = reserve"

definition hdelta :: "int \<Rightarrow> int \<Rightarrow> int \<Rightarrow> int \<Rightarrow> int \<Rightarrow> counts" where
  "hdelta jobs run ssusp ususp reserve = delta jobs 0 run ssusp ususp reserve"

definition addValue :: "int \<Rightarrow> int \<Rightarrow> int" where
  "addValue currentValue num = (if currentValue + num \<ge> 0 then currentValue + num else 0)"

definition addValues :: "counts \<Rightarrow> counts \<Rightarrow> counts" where
  "addValues c d = (\<lambda>k. addValue (c k) (d k))"

definition addOneAbs :: "int \<Rightarrow> int \<Rightarrow> int" where
  "addOneAbs num addedNum = (if addedNum > 0 then num + 1 else if addedNum < 0 then num - 1 else num)"

text \<open>Slots in use: \<open>numRUN + numSSUSP + numUSUSP + numRESERVE\<close>.\<close>

definition used_slots :: "counts \<Rightarrow> int" where
  "used_slots c = c NumRUN + c NumSSUSP + c NumUSUSP + c NumRESERVE"

definition addUAcct :: "counts \<Rightarrow> userAcct" where
  "addUAcct d = \<lparr>ua_counts = d(NumJobs := 0), ua_numNonPrmptRsv = 0, ua_reason = 0\<rparr>"

text \<open>
  \<open>updUAcct\<close>: the entry of the user, if it is found or made.  The caller stores it, and
  sets the reason for its limit.
\<close>

definition updUAcct :: "jstatus \<Rightarrow> string \<Rightarrow> counts \<Rightarrow> (string \<Rightarrow> userAcct option) \<Rightarrow> userAcct option" where
  "updUAcct jStatus up d tab =
     (case tab up of
        Some a \<Rightarrow>
          Some (a\<lparr>ua_counts := addValues (ua_counts a) (d(NumJobs := 0)),
                  ua_numNonPrmptRsv := (if d NumRESERVE \<noteq> 0 \<and> \<not> has jStatus JOB_STAT_PEND
                    then addValue (ua_numNonPrmptRsv a) (d NumRESERVE) else ua_numNonPrmptRsv a)\<rparr>)
      | None \<Rightarrow>
          (if d NumRUN \<noteq> 0 \<or> d NumSSUSP \<noteq> 0 \<or> d NumUSUSP \<noteq> 0 \<or> d NumRESERVE \<noteq> 0 \<or> d NumPEND \<noteq> 0
           then Some (addUAcct d) else None))"

text \<open>The call for a queue (\<open>hp\<close> is NULL): the limit is the queue's \<open>uJobLimit\<close>.\<close>

definition updUAcct_queue :: "jstatus \<Rightarrow> counts \<Rightarrow> string \<Rightarrow> qData \<Rightarrow> qData" where
  "updUAcct_queue jStatus d up qp =
     (case updUAcct jStatus up d (q_uAcct qp) of
        None \<Rightarrow> qp
      | Some a \<Rightarrow>
          (let numSlots = q_uJobLimit qp - used_slots (ua_counts a);
               a' = a\<lparr>ua_reason := SET_REASON (numSlots \<le> 0) (ua_reason a) PEND_QUE_USR_JLIMIT\<rparr> in
           qp\<lparr>q_uAcct := (q_uAcct qp)(up \<mapsto> a')\<rparr>))"

text \<open>
  The counting of \<open>updHAcct\<close> for the slot of one host: an entry changes by one per slot,
  whatever the amounts are.
\<close>

definition addHAcct :: "counts \<Rightarrow> hostAcct" where
  "addHAcct d = \<lparr>ha_counts = (\<lambda>k. if k = NumJobs \<or> k = NumPEND then 0 else addOneAbs 0 (d k)),
                 ha_numNonPrmptRsv = 0\<rparr>"

definition hacct_slot :: "jstatus \<Rightarrow> counts \<Rightarrow> string \<Rightarrow> (string \<Rightarrow> hostAcct option) \<Rightarrow> (string \<Rightarrow> hostAcct option)" where
  "hacct_slot jStatus d h tab =
     (case tab h of
        Some a \<Rightarrow>
          tab(h \<mapsto> a\<lparr>ha_counts := (\<lambda>k. if k = NumJobs \<or> k = NumPEND then ha_counts a k
                                         else addOneAbs (ha_counts a k) (d k)),
                     ha_numNonPrmptRsv := (if d NumRESERVE \<noteq> 0 \<and> \<not> has jStatus JOB_STAT_PEND
                       then addOneAbs (ha_numNonPrmptRsv a) (d NumRESERVE) else ha_numNonPrmptRsv a)\<rparr>)
      | None \<Rightarrow>
          (if d NumRUN > 0 \<or> d NumSSUSP > 0 \<or> d NumUSUSP > 0 \<or> d NumRESERVE > 0
           then tab(h \<mapsto> addHAcct d) else tab))"

definition updHAcct :: "mbd \<Rightarrow> job \<Rightarrow> counts \<Rightarrow> (string \<Rightarrow> hostAcct option) \<Rightarrow> (string \<Rightarrow> hostAcct option)" where
  "updHAcct m j d tab =
     fold (\<lambda>h tab. if h_remote (m_hosts m h) then tab else hacct_slot (j_status j) d h tab) (j_hosts j) tab"

definition updQaccount :: "job \<Rightarrow> counts \<Rightarrow> mbd \<Rightarrow> mbd" where
  "updQaccount j d m =
     (let qp = m_queues m (j_queue j);
          qp = qp\<lparr>q_counts := addValues (q_counts qp) d\<rparr>;
          numSlots = (if q_maxJobs qp = INFINIT_INT then INFINIT_INT
                      else q_maxJobs qp - (q_counts qp NumJobs - q_counts qp NumPEND));
          r = (if q_reason qp = INFINIT_INT then 0 else q_reason qp);
          qp = qp\<lparr>q_reason := SET_REASON (numSlots \<le> 0) r PEND_QUE_JOB_LIMIT\<rparr>;
          newJob = (d NumRUN = 0 \<and> d NumSSUSP = 0 \<and> d NumUSUSP = 0 \<and> d NumRESERVE = 0 \<and> d NumPEND = 0);
          qp = fold (updUAcct_queue (j_status j) d) (j_user j # u_ancestors (m_users m (j_user j))) qp;
          qp = (if newJob then qp else qp\<lparr>q_hAcct := updHAcct m j d (q_hAcct qp)\<rparr>) in
      m\<lparr>m_queues := (m_queues m)(j_queue j := qp)\<rparr>)"

definition updUserData1 :: "mbd \<Rightarrow> job \<Rightarrow> counts \<Rightarrow> uData \<Rightarrow> uData" where
  "updUserData1 m j d up =
     (let up = up\<lparr>u_counts := addValues (u_counts up) d\<rparr>;
          newJob = (d NumRUN = 0 \<and> d NumSSUSP = 0 \<and> d NumUSUSP = 0 \<and> d NumRESERVE = 0) in
      if \<not> newJob \<and> u_pLimited up then up\<lparr>u_hAcct := updHAcct m j d (u_hAcct up)\<rparr> else up)"

text \<open>
  The slots a user or group has left and the reason for its limit; the counters are
  already changed.
\<close>

definition left_slots :: "uData \<Rightarrow> int" where
  "left_slots up = (if u_maxJobs up = INFINIT_INT then INFINIT_INT else u_maxJobs up - used_slots (u_counts up))"

definition limit_reason :: "int \<Rightarrow> uData \<Rightarrow> uData" where
  "limit_reason reason up =
     (let r = (if u_reason up = INFINIT_INT then 0 else u_reason up) in
      up\<lparr>u_reason := SET_REASON (left_slots up \<le> 0) r reason\<rparr>)"

text \<open>The loop of \<open>updUserData\<close> over the groups: the daemon and the smallest number of slots.\<close>

fun upd_groups :: "job \<Rightarrow> counts \<Rightarrow> bool \<Rightarrow> string list \<Rightarrow> int \<Rightarrow> mbd \<Rightarrow> int \<times> mbd" where
  "upd_groups j d newJob [] numSlots m = (numSlots, m)"
| "upd_groups j d newJob (g # gs) numSlots m =
     (let ugp = updUserData1 m j d ((m_users m g)\<lparr>u_isGroup := True\<rparr>);
          numSlots' = (if newJob then numSlots else min (left_slots ugp) numSlots);
          ugp' = (if newJob then ugp else limit_reason PEND_UGRP_JOB_LIMIT ugp) in
      upd_groups j d newJob gs numSlots' (m\<lparr>m_users := (m_users m)(g := ugp')\<rparr>))"

definition updUserData :: "job \<Rightarrow> counts \<Rightarrow> mbd \<Rightarrow> mbd" where
  "updUserData j d m =
     (let u = j_user j;
          up = updUserData1 m j d ((m_users m u)\<lparr>u_isGroup := False\<rparr>);
          newJob = (d NumRUN = 0 \<and> d NumSSUSP = 0 \<and> d NumUSUSP = 0 \<and> d NumRESERVE = 0);
          numSlots = (if newJob then m_garbage m else left_slots up);
          up' = (if newJob then up else limit_reason PEND_USER_JOB_LIMIT up);
          (numSlots', m') = upd_groups j d newJob (u_groups up') numSlots
                              (m\<lparr>m_users := (m_users m)(u := up')\<rparr>) in
      m'\<lparr>m_users := (m_users m')(u := (m_users m' u)\<lparr>u_numSlots := numSlots'\<rparr>)\<rparr>)"

text \<open>\<open>updHostData\<close> for one slot.\<close>

definition host_acct :: "job \<Rightarrow> counts \<Rightarrow> string \<Rightarrow> mbd \<Rightarrow> mbd" where
  "host_acct j d h m =
     (let hp = m_hosts m h in
      if h_uJobLimit hp < INFINIT_INT
         \<and> (d NumRUN \<noteq> 0 \<or> d NumSSUSP \<noteq> 0 \<or> d NumUSUSP \<noteq> 0 \<or> d NumRESERVE \<noteq> 0)
      then (case updUAcct (j_status j) (j_user j) d (h_uAcct hp) of
              None \<Rightarrow> m
            | Some a \<Rightarrow>
                (let numSlots = h_uJobLimit hp - used_slots (ua_counts a);
                     up = m_users m (j_user j);
                     r = SET_REASON (numSlots \<le> 0) (u_hostReason up h) PEND_HOST_USR_JLIMIT in
                 m\<lparr>m_hosts := (m_hosts m)(h := hp\<lparr>h_uAcct := (h_uAcct hp)(j_user j \<mapsto> a)\<rparr>),
                   m_users := (m_users m)(j_user j := up\<lparr>u_hostReason := (u_hostReason up)(h := r)\<rparr>)\<rparr>))
      else m)"

definition host_slot :: "job \<Rightarrow> counts \<Rightarrow> string \<Rightarrow> mbd \<Rightarrow> mbd" where
  "host_slot j d h m =
     (if h_remote (m_hosts m h) then m
      else
       (let m = host_acct j d h m;
            hp = m_hosts m h;
            hp = hp\<lparr>h_counts := addValues (h_counts hp) (d(NumPEND := 0))\<rparr>;
            full = (h_counts hp NumJobs \<ge> h_maxJobs hp);
            hp = (if full then hp\<lparr>h_full := True, h_reason := PEND_HOST_JOB_LIMIT\<rparr>
                  else hp\<lparr>h_full := False, h_reason := CLEAR_REASON (h_reason hp) PEND_HOST_JOB_LIMIT\<rparr>);
            hp = (if h_counts hp NumJobs \<le> 0 then hp\<lparr>h_exclusive := False\<rparr> else hp);
            m = m\<lparr>m_hosts := (m_hosts m)(h := hp)\<rparr> in
        if full then m
        else m\<lparr>m_queues := (\<lambda>q. (m_queues m q)\<lparr>q_hostReason :=
                (q_hostReason (m_queues m q))(h := CLEAR_REASON (q_hostReason (m_queues m q) h) PEND_HOST_JOB_LIMIT)\<rparr>)\<rparr>))"

definition updHostData :: "job \<Rightarrow> counts \<Rightarrow> mbd \<Rightarrow> mbd" where
  "updHostData j d m = fold (host_slot j d) (j_hosts j) m"

text \<open>The two orders in which the three functions are called.\<close>

definition upd_QUH :: "job \<Rightarrow> counts \<Rightarrow> counts \<Rightarrow> mbd \<Rightarrow> mbd" where
  "upd_QUH j d h m = updHostData j h (updUserData j d (updQaccount j d m))"

definition upd_QHU :: "job \<Rightarrow> counts \<Rightarrow> counts \<Rightarrow> mbd \<Rightarrow> mbd" where
  "upd_QHU j d h m = updUserData j d (updHostData j h (updQaccount j d m))"

definition upd_QU :: "job \<Rightarrow> counts \<Rightarrow> mbd \<Rightarrow> mbd" where
  "upd_QU j d m = updUserData j d (updQaccount j d m)"

section \<open>Changes of state\<close>

text \<open>
  \<open>updCounters\<close>: the job has its new status already.  The branches that only write to
  the log leave the daemon unchanged.
\<close>

definition cnt_run :: "job \<Rightarrow> jstatus \<Rightarrow> mbd \<Rightarrow> mbd" where
  "cnt_run j oldStatus m =
     (let num = int (length (j_hosts j)); numReq = j_numReq j in
      if has oldStatus JOB_STAT_PEND \<or> has oldStatus JOB_STAT_PSUSP
      then upd_QUH j (delta (- numReq + num) (- numReq) num 0 0 0) (hdelta 1 1 0 0 0) m
      else if has oldStatus JOB_STAT_SSUSP
      then upd_QUH j (delta 0 0 num (- num) 0 0) (hdelta 0 1 (- 1) 0 0) m
      else if has oldStatus JOB_STAT_USUSP
      then upd_QUH j (delta 0 0 num 0 (- num) 0) (hdelta 0 1 0 (- 1) 0) m
      else m)"

definition cnt_ssusp :: "job \<Rightarrow> jstatus \<Rightarrow> mbd \<Rightarrow> mbd" where
  "cnt_ssusp j oldStatus m =
     (let num = int (length (j_hosts j)); numReq = j_numReq j in
      if has oldStatus JOB_STAT_RUN
      then upd_QUH j (delta 0 0 (- num) num 0 0) (hdelta 0 (- 1) 1 0 0) m
      else if has oldStatus JOB_STAT_USUSP
      then upd_QUH j (delta 0 0 0 num (- num) 0) (hdelta 0 0 1 (- 1) 0) m
      else if has oldStatus JOB_STAT_PEND
      then upd_QUH j (delta (- numReq + num) (- numReq) 0 num 0 0) (hdelta 1 0 1 0 0) m
      else m)"

definition cnt_ususp :: "job \<Rightarrow> jstatus \<Rightarrow> mbd \<Rightarrow> mbd" where
  "cnt_ususp j oldStatus m =
     (let num = int (length (j_hosts j)); numReq = j_numReq j in
      if has oldStatus JOB_STAT_RUN
      then upd_QUH j (delta 0 0 (- num) 0 num 0) (hdelta 0 (- 1) 0 1 0) m
      else if has oldStatus JOB_STAT_SSUSP
      then upd_QUH j (delta 0 0 0 (- num) num 0) (hdelta 0 0 (- 1) 1 0) m
      else if has oldStatus JOB_STAT_PEND
      then upd_QUH j (delta (- numReq + num) (- numReq) 0 0 num 0) (hdelta 1 0 0 1 0) m
      else m)"

definition cnt_finish :: "job \<Rightarrow> jstatus \<Rightarrow> mbd \<Rightarrow> mbd" where
  "cnt_finish j oldStatus m =
     (let num = int (length (j_hosts j)); numReq = j_numReq j in
      if has oldStatus JOB_STAT_WAIT
      then upd_QHU j (delta (- num) 0 (- num) 0 0 0) (hdelta (- 1) (- 1) 0 0 0) m
      else if has oldStatus JOB_STAT_RUN
      then upd_QHU j (delta (- num) 0 (- num) 0 0 0) (hdelta (- 1) (- 1) 0 0 0) m
      else if has oldStatus JOB_STAT_USUSP
      then upd_QHU j (delta (- num) 0 0 0 (- num) 0) (hdelta (- 1) 0 0 (- 1) 0) m
      else if has oldStatus JOB_STAT_SSUSP
      then upd_QHU j (delta (- num) 0 0 (- num) 0 0) (hdelta (- 1) 0 (- 1) 0 0) m
      else if IS_PEND oldStatus
      then upd_QU j (delta (- numReq) (- numReq) 0 0 0 0) m
      else m)"

definition cnt_pend :: "job \<Rightarrow> jstatus \<Rightarrow> mbd \<Rightarrow> mbd" where
  "cnt_pend j oldStatus m =
     (let num = int (length (j_hosts j)); numReq = j_numReq j in
      if has oldStatus JOB_STAT_RUN
      then upd_QHU j (delta (numReq - num) numReq (- num) 0 0 0) (hdelta (- 1) (- 1) 0 0 0) m
      else if has oldStatus JOB_STAT_USUSP
      then upd_QHU j (delta (- num + numReq) numReq 0 0 (- num) 0) (hdelta (- 1) 0 0 (- 1) 0) m
      else if has oldStatus JOB_STAT_SSUSP
      then upd_QHU j (delta (- num + numReq) numReq 0 (- num) 0 0) (hdelta (- 1) 0 (- 1) 0 0) m
      else m)"

definition updCounters :: "job \<Rightarrow> jstatus \<Rightarrow> mbd \<Rightarrow> mbd" where
  "updCounters j oldStatus m =
     (if IS_FINISH oldStatus then m
      else if base (j_status j) = base oldStatus then m
      else if IS_PEND (j_status j) \<and> IS_PEND oldStatus then m
      else (let s = base (j_status j) in
            if s = JOB_STAT_RUN then cnt_run j oldStatus m
            else if s = JOB_STAT_SSUSP then cnt_ssusp j oldStatus m
            else if s = JOB_STAT_USUSP then cnt_ususp j oldStatus m
            else if s = JOB_STAT_EXIT \<or> s = JOB_STAT_DONE then cnt_finish j oldStatus m
            else if s = JOB_STAT_PEND then cnt_pend j oldStatus m
            else m))"

text \<open>
  \<open>updResCounters\<close>: the job has its old status, \<open>newStatus\<close> is the one it gets.  The proxy lists
  of reserving jobs are not part of the model.
\<close>

definition res_susp :: "job \<Rightarrow> jstatus \<Rightarrow> counts \<Rightarrow> counts \<Rightarrow> bool \<Rightarrow> mbd \<Rightarrow> mbd" where
  "res_susp j newStatus d h alsoPend m =
     (let num = int (length (j_hosts j)); neg = (\<lambda>c k. - c k) in
      if \<not> has (j_status j) JOB_STAT_RESERVE \<and> has newStatus JOB_STAT_RESERVE \<and> IS_START newStatus
      then upd_QUH j d h m
      else if has (j_status j) JOB_STAT_RESERVE \<and> \<not> has newStatus JOB_STAT_RESERVE
              \<and> (IS_START newStatus \<or> alsoPend \<and> has newStatus JOB_STAT_PEND)
      then upd_QUH j (neg d) (neg h) m
      else if has (j_status j) JOB_STAT_RESERVE \<and> IS_FINISH newStatus
      then upd_QUH j (delta (- num) 0 0 0 0 (- num)) (hdelta (- 1) 0 0 0 (- 1)) m
      else m)"

definition res_pend :: "job \<Rightarrow> jstatus \<Rightarrow> mbd \<Rightarrow> mbd" where
  "res_pend j newStatus m =
     (let num = int (length (j_hosts j)); numReq = j_numReq j in
      if has (j_status j) JOB_STAT_RESERVE \<and> \<not> has newStatus JOB_STAT_RESERVE \<and> IS_PEND newStatus
      then upd_QHU j (delta 0 num 0 0 0 (- num)) (hdelta (- 1) 0 0 0 (- 1)) m
      else if \<not> has (j_status j) JOB_STAT_RESERVE \<and> has newStatus JOB_STAT_RESERVE \<and> IS_PEND newStatus
      then upd_QHU j (delta 0 (- num) 0 0 0 num) (hdelta 1 0 0 0 1) m
      else if IS_PEND (j_status j) \<and> has (j_status j) JOB_STAT_RESERVE \<and> IS_FINISH newStatus
      then upd_QHU j (delta (- numReq) (- numReq + num) 0 0 0 (- num)) (hdelta (- 1) 0 0 0 (- 1)) m
      else m)"

definition updResCounters :: "job \<Rightarrow> jstatus \<Rightarrow> mbd \<Rightarrow> mbd" where
  "updResCounters j newStatus m =
     (let num = int (length (j_hosts j)); s = base (j_status j) in
      if \<not> IS_PEND (j_status j) \<and> \<not> IS_START (j_status j) then m
      else if s = JOB_STAT_SSUSP
      then res_susp j newStatus (delta 0 0 0 (- num) 0 num) (hdelta 0 0 (- 1) 0 1) True m
      else if s = JOB_STAT_USUSP
      then res_susp j newStatus (delta 0 0 0 0 (- num) num) (hdelta 0 0 0 (- 1) 1) False m
      else if s = JOB_STAT_PEND \<or> s = JOB_STAT_PSUSP then res_pend j newStatus m
      else m)"

text \<open>
  \<open>updSwitchJob\<close> moves the counts of a job from queue \<open>qfp\<close> to queue \<open>qtp\<close>; the job may
  also have a new number of processors.
\<close>

definition switch_counts :: "job \<Rightarrow> string \<Rightarrow> string \<Rightarrow> int \<Rightarrow> mbd \<Rightarrow> mbd" where
  "switch_counts j qfp qtp oldNumReq m =
     (let num = int (length (j_hosts j)); numReq = j_numReq j; s = MASK_STATUS (j_status j);
          jf = j\<lparr>j_queue := qfp\<rparr>; jt = j\<lparr>j_queue := qtp\<rparr> in
      if m_replay m then m
      else if s = JOB_STAT_PEND \<or> s = JOB_STAT_PSUSP
      then upd_QU jt (delta numReq numReq 0 0 0 0) (upd_QU jf (delta (- oldNumReq) (- oldNumReq) 0 0 0 0) m)
      else if s = JOB_STAT_RUN \<or> s = JOB_STAT_RUN OR JOB_STAT_UNKWN
      then upd_QHU jt (delta num 0 num 0 0 0) (hdelta 1 1 0 0 0)
             (upd_QHU jf (delta (- num) 0 (- num) 0 0 0) (hdelta (- 1) (- 1) 0 0 0) m)
      else if s = JOB_STAT_SSUSP \<or> s = JOB_STAT_SSUSP OR JOB_STAT_UNKWN
      then upd_QHU jt (delta num 0 0 num 0 0) (hdelta 1 0 1 0 0)
             (upd_QHU jf (delta (- num) 0 0 (- num) 0 0) (hdelta (- 1) 0 (- 1) 0 0) m)
      else if s = JOB_STAT_USUSP \<or> s = JOB_STAT_USUSP OR JOB_STAT_UNKWN
      then upd_QHU jt (delta num 0 0 0 num 0) (hdelta 1 0 0 1 0)
             (upd_QHU jf (delta (- num) 0 0 0 (- num) 0) (hdelta (- 1) 0 0 (- 1) 0) m)
      else m)"

definition switchable :: "jstatus \<Rightarrow> bool" where
  "switchable jStatus \<longleftrightarrow>
     (let s = MASK_STATUS jStatus in
      s = JOB_STAT_PEND \<or> s = JOB_STAT_PSUSP \<or> s = JOB_STAT_RUN \<or> s = JOB_STAT_RUN OR JOB_STAT_UNKWN
      \<or> s = JOB_STAT_SSUSP \<or> s = JOB_STAT_SSUSP OR JOB_STAT_UNKWN
      \<or> s = JOB_STAT_USUSP \<or> s = JOB_STAT_USUSP OR JOB_STAT_UNKWN)"

definition updSwitchJob :: "job \<Rightarrow> string \<Rightarrow> string \<Rightarrow> int \<Rightarrow> mbd \<Rightarrow> job \<times> mbd" where
  "updSwitchJob j qfp qtp oldNumReq m =
     (let reserved = has (j_status j) JOB_STAT_RESERVE;
          m1 = (if reserved
                then updResCounters (j\<lparr>j_queue := qfp\<rparr>) (j_status j AND NOT JOB_STAT_RESERVE) m else m);
          s = (if reserved then j_status j AND NOT JOB_STAT_RESERVE else j_status j);
          j1 = j\<lparr>j_queue := (if reserved \<or> switchable s then qtp else j_queue j), j_status := s\<rparr>;
          m2 = switch_counts j1 qfp qtp oldNumReq m1 in
      if reserved then (j1\<lparr>j_status := s OR JOB_STAT_RESERVE\<rparr>, updResCounters j1 (s OR JOB_STAT_RESERVE) m2)
      else (j1, m2))"

text \<open>A new or requeued pending job (\<open>handleNewJob\<close>, \<open>handleRequeueJob\<close>).\<close>

definition count_new :: "job \<Rightarrow> mbd \<Rightarrow> mbd" where
  "count_new j m =
     (if m_replay m then m else upd_QU j (delta (j_numReq j) (j_numReq j) 0 0 0 0) m)"

text \<open>
  The counters after a restart (\<open>init_log\<close>): every unfinished job is counted as pending, and
  then as changing from pending to its state.
\<close>

definition recount_job :: "job \<Rightarrow> mbd \<Rightarrow> mbd" where
  "recount_job j m =
     (let m1 = upd_QU (j\<lparr>j_status := JOB_STAT_PEND\<rparr>) (delta (j_numReq j) (j_numReq j) 0 0 0 0) m in
      if has (j_status j) JOB_STAT_PEND then m1
      else (let m2 = updCounters j JOB_STAT_PEND m1 in
            if j_exclusive j \<and> IS_START (j_status j)
            then m2\<lparr>m_hosts := (\<lambda>h. if h \<in> set (j_hosts j) then (m_hosts m2 h)\<lparr>h_exclusive := True\<rparr> else m_hosts m2 h)\<rparr>
            else m2))"

definition recount :: "job list \<Rightarrow> mbd \<Rightarrow> mbd" where
  "recount js m = fold recount_job js m"

section \<open>What each operation changes\<close>

text \<open>The counters of queues, users and hosts, and the queue's count per user.\<close>

definition qcount :: "mbd \<Rightarrow> string \<Rightarrow> counts" where
  "qcount m q = q_counts (m_queues m q)"

definition ucount :: "mbd \<Rightarrow> string \<Rightarrow> counts" where
  "ucount m u = u_counts (m_users m u)"

definition hcount :: "mbd \<Rightarrow> string \<Rightarrow> counts" where
  "hcount m h = h_counts (m_hosts m h)"

definition acount :: "mbd \<Rightarrow> string \<Rightarrow> string \<Rightarrow> counts" where
  "acount m q u = (case q_uAcct (m_queues m q) u of None \<Rightarrow> (\<lambda>k. 0) | Some a \<Rightarrow> ua_counts a)"

lemmas count_defs = qcount_def ucount_def hcount_def acount_def

text \<open>What no operation here changes.\<close>

definition same_config :: "mbd \<Rightarrow> mbd \<Rightarrow> bool" where
  "same_config m m' \<longleftrightarrow> m_replay m' = m_replay m
     \<and> (\<forall>u. u_groups (m_users m' u) = u_groups (m_users m u) \<and> u_ancestors (m_users m' u) = u_ancestors (m_users m u))
     \<and> (\<forall>h. h_remote (m_hosts m' h) = h_remote (m_hosts m h))"

lemma same_config_refl [simp]: "same_config m m"
  by (simp add: same_config_def)

lemma same_config_trans: "same_config m m1 \<Longrightarrow> same_config m1 m2 \<Longrightarrow> same_config m m2"
  by (simp add: same_config_def)

lemma updUAcct_queue_fields:
  "q_counts (updUAcct_queue s d u qp) = q_counts qp"
  "q_maxJobs (updUAcct_queue s d u qp) = q_maxJobs qp"
  "q_hAcct (updUAcct_queue s d u qp) = q_hAcct qp"
  by (auto simp: updUAcct_queue_def Let_def split: option.splits)

lemma fold_updUAcct_fields:
  "q_counts (fold (updUAcct_queue s d) us qp) = q_counts qp"
  by (induction us arbitrary: qp) (auto simp: updUAcct_queue_fields)

lemma updQaccount_counts:
  "qcount (updQaccount j d m) q = (if q = j_queue j then addValues (qcount m q) d else qcount m q)"
  "ucount (updQaccount j d m) = ucount m" "hcount (updQaccount j d m) = hcount m"
  "same_config m (updQaccount j d m)"
  by (auto simp: updQaccount_def Let_def count_defs fold_updUAcct_fields updUAcct_queue_fields same_config_def fun_eq_iff)

lemma updUserData1_fields:
  "u_counts (updUserData1 m j d up) = addValues (u_counts up) d"
  "u_groups (updUserData1 m j d up) = u_groups up" "u_ancestors (updUserData1 m j d up) = u_ancestors up"
  by (simp_all add: updUserData1_def Let_def)

lemma limit_reason_fields:
  "u_counts (limit_reason r up) = u_counts up" "u_groups (limit_reason r up) = u_groups up"
  "u_ancestors (limit_reason r up) = u_ancestors up"
  by (simp_all add: limit_reason_def Let_def)

lemma upd_groups_counts:
  assumes "distinct gs" "upd_groups j d nj gs n m = (n', m')"
  shows "(\<forall>u. ucount m' u = (if u \<in> set gs then addValues (ucount m u) d else ucount m u))
    \<and> m_queues m' = m_queues m \<and> m_hosts m' = m_hosts m \<and> same_config m m'"
  using assms
proof (induction gs arbitrary: n m)
  case (Cons g gs)
  let ?up = "updUserData1 m j d ((m_users m g)\<lparr>u_isGroup := True\<rparr>)"
  let ?m = "m\<lparr>m_users := (m_users m)(g := if nj then ?up else limit_reason PEND_UGRP_JOB_LIMIT ?up)\<rparr>"
  have r: "upd_groups j d nj gs (if nj then n else min (left_slots ?up) n) ?m = (n', m')"
    using Cons.prems(2) by (simp add: Let_def)
  have u: "ucount ?m u = (if u = g then addValues (ucount m u) d else ucount m u)" for u
    by (simp add: ucount_def updUserData1_fields limit_reason_fields)
  have "same_config m ?m" by (simp add: same_config_def updUserData1_fields limit_reason_fields)
  then show ?case using Cons.IH [OF _ r] Cons.prems(1) u same_config_trans [of m ?m m'] by auto
qed simp

lemma updUserData_counts:
  assumes "distinct (j_user j # u_groups (m_users m (j_user j)))"
  shows "ucount (updUserData j d m) u =
      (if u \<in> set (j_user j # u_groups (m_users m (j_user j))) then addValues (ucount m u) d else ucount m u)"
    "qcount (updUserData j d m) = qcount m" "hcount (updUserData j d m) = hcount m"
    "acount (updUserData j d m) = acount m" "same_config m (updUserData j d m)"
proof -
  let ?u = "j_user j"
  let ?nj = "d NumRUN = 0 \<and> d NumSSUSP = 0 \<and> d NumUSUSP = 0 \<and> d NumRESERVE = 0"
  let ?up = "updUserData1 m j d ((m_users m ?u)\<lparr>u_isGroup := False\<rparr>)"
  let ?up' = "if ?nj then ?up else limit_reason PEND_USER_JOB_LIMIT ?up"
  let ?m = "m\<lparr>m_users := (m_users m)(?u := ?up')\<rparr>"
  obtain n' m' where g: "upd_groups j d ?nj (u_groups ?up') (if ?nj then m_garbage m else left_slots ?up) ?m = (n', m')"
    by (metis surj_pair)
  have gs: "u_groups ?up' = u_groups (m_users m ?u)" by (simp add: updUserData1_fields limit_reason_fields)
  have e: "updUserData j d m = m'\<lparr>m_users := (m_users m')(?u := (m_users m' ?u)\<lparr>u_numSlots := n'\<rparr>)\<rparr>"
    using g by (simp add: updUserData_def Let_def)
  have d: "distinct (u_groups ?up')" using assms gs by simp
  note G = upd_groups_counts [OF d g]
  have c: "ucount (updUserData j d m) v = ucount m' v" for v by (simp add: e ucount_def)
  have b: "ucount ?m v = (if v = ?u then addValues (ucount m v) d else ucount m v)" for v
    by (simp add: ucount_def updUserData1_fields limit_reason_fields)
  show "ucount (updUserData j d m) u =
      (if u \<in> set (?u # u_groups (m_users m ?u)) then addValues (ucount m u) d else ucount m u)"
    using G assms gs b c by auto
  show "qcount (updUserData j d m) = qcount m" "hcount (updUserData j d m) = hcount m" "acount (updUserData j d m) = acount m"
    using G by (auto simp: e count_defs fun_eq_iff)
  have "same_config m ?m" by (simp add: same_config_def updUserData1_fields limit_reason_fields)
  moreover have "same_config m' (updUserData j d m)" by (simp add: e same_config_def)
  ultimately show "same_config m (updUserData j d m)" using G same_config_trans by blast
qed

text \<open>The count of a user in a queue's table.\<close>

definition acct_of :: "qData \<Rightarrow> string \<Rightarrow> counts" where
  "acct_of qp u = (case q_uAcct qp u of None \<Rightarrow> (\<lambda>k. 0) | Some a \<Rightarrow> ua_counts a)"

lemma updUAcct_queue_acct:
  assumes "\<And>k. k \<noteq> NumJobs \<Longrightarrow> 0 \<le> acct_of qp u k + d k" "k \<noteq> NumJobs"
  shows "acct_of (updUAcct_queue s d u qp) u k = acct_of qp u k + d k"
proof (cases "q_uAcct qp u")
  case None
  then show ?thesis using assms(2)
    by (cases k) (auto simp: acct_of_def updUAcct_queue_def updUAcct_def addUAcct_def Let_def)
next
  case (Some a)
  then show ?thesis using assms(1) [OF assms(2)] assms(2)
    by (auto simp: acct_of_def updUAcct_queue_def updUAcct_def addValues_def addValue_def Let_def)
qed

lemma updUAcct_queue_other: "v \<noteq> u \<Longrightarrow> acct_of (updUAcct_queue s d u qp) v = acct_of qp v"
  by (auto simp: acct_of_def updUAcct_queue_def Let_def split: option.splits)

lemma fold_updUAcct_acct:
  assumes "distinct us" "\<And>u k. u \<in> set us \<Longrightarrow> k \<noteq> NumJobs \<Longrightarrow> 0 \<le> acct_of qp u k + d k" "k \<noteq> NumJobs"
  shows "acct_of (fold (updUAcct_queue s d) us qp) v k = (if v \<in> set us then acct_of qp v k + d k else acct_of qp v k)"
  using assms(1,2)
proof (induction us arbitrary: qp)
  case (Cons u us)
  let ?qp = "updUAcct_queue s d u qp"
  have o: "acct_of ?qp w = acct_of qp w" if "w \<in> set us" for w
    using updUAcct_queue_other [of w u s d qp] Cons.prems(1) that by auto
  have "acct_of (fold (updUAcct_queue s d) us ?qp) v k = (if v \<in> set us then acct_of ?qp v k + d k else acct_of ?qp v k)"
    using Cons.IH [of ?qp] Cons.prems o by auto
  moreover have "acct_of ?qp u k = acct_of qp u k + d k"
    using updUAcct_queue_acct [of qp u d k s] Cons.prems(2) assms(3) by simp
  ultimately show ?case using o Cons.prems(1) updUAcct_queue_other [of v u s d qp] by auto
qed simp

lemma updQaccount_acount:
  assumes "distinct (j_user j # u_ancestors (m_users m (j_user j)))"
    and "\<And>u k. u \<in> set (j_user j # u_ancestors (m_users m (j_user j))) \<Longrightarrow> k \<noteq> NumJobs \<Longrightarrow> 0 \<le> acount m (j_queue j) u k + d k"
    and "k \<noteq> NumJobs"
  shows "acount (updQaccount j d m) q u k =
    (if q = j_queue j \<and> u \<in> set (j_user j # u_ancestors (m_users m (j_user j))) then acount m q u k + d k else acount m q u k)"
proof -
  have a: "acount m q u = acct_of (m_queues m q) u" for q u by (simp add: acount_def acct_of_def)
  let ?us = "j_user j # u_ancestors (m_users m (j_user j))"
  let ?q0 = "m_queues m (j_queue j)"
  obtain qp where qp: "q_uAcct qp = q_uAcct ?q0"
    "acount (updQaccount j d m) (j_queue j) = acct_of (fold (updUAcct_queue (j_status j) d) ?us qp)"
    by (rule that [of "?q0\<lparr>q_counts := addValues (q_counts ?q0) d,
          q_reason := SET_REASON ((if q_maxJobs ?q0 = INFINIT_INT then INFINIT_INT
             else q_maxJobs ?q0 - (addValues (q_counts ?q0) d NumJobs - addValues (q_counts ?q0) d NumPEND)) \<le> 0)
             (if q_reason ?q0 = INFINIT_INT then 0 else q_reason ?q0) PEND_QUE_JOB_LIMIT\<rparr>"])
       (auto simp: updQaccount_def Let_def acount_def acct_of_def fun_eq_iff)
  have e: "acct_of qp u = acct_of ?q0 u" for u using qp(1) by (simp add: acct_of_def)
  have "acount (updQaccount j d m) q = acount m q" if "q \<noteq> j_queue j"
    using that by (simp add: updQaccount_def Let_def acount_def fun_eq_iff)
  moreover have "acct_of (fold (updUAcct_queue (j_status j) d) ?us qp) u k =
      (if u \<in> set ?us then acct_of qp u k + d k else acct_of qp u k)"
    using assms a e by (intro fold_updUAcct_acct) auto
  ultimately show ?thesis using qp(2) a e by (cases "q = j_queue j") auto
qed

lemma host_acct_counts:
  "hcount (host_acct j d h m) = hcount m" "ucount (host_acct j d h m) = ucount m"
  "m_queues (host_acct j d h m) = m_queues m" "same_config m (host_acct j d h m)"
  by (auto simp: host_acct_def Let_def count_defs same_config_def fun_eq_iff split: option.splits)

lemma host_slot_counts:
  "hcount (host_slot j d h m) g =
     (if g = h \<and> \<not> h_remote (m_hosts m h) then addValues (hcount m g) (d(NumPEND := 0)) else hcount m g)"
  "ucount (host_slot j d h m) = ucount m" "qcount (host_slot j d h m) = qcount m"
  "acount (host_slot j d h m) = acount m" "same_config m (host_slot j d h m)"
proof -
  note H = host_acct_counts [where j = j and d = d and h = h and m = m]
  have hc: "h_counts (m_hosts (host_acct j d h m) x) = h_counts (m_hosts m x)" for x
    using H(1) by (simp add: hcount_def fun_eq_iff)
  show "hcount (host_slot j d h m) g =
     (if g = h \<and> \<not> h_remote (m_hosts m h) then addValues (hcount m g) (d(NumPEND := 0)) else hcount m g)"
    using hc by (auto simp: host_slot_def Let_def hcount_def)
  show "ucount (host_slot j d h m) = ucount m" using H(2) by (auto simp: host_slot_def Let_def ucount_def fun_eq_iff)
  show "qcount (host_slot j d h m) = qcount m" "acount (host_slot j d h m) = acount m"
    using H(3) by (auto simp: host_slot_def Let_def qcount_def acount_def fun_eq_iff)
  show "same_config m (host_slot j d h m)"
    using H(4) by (auto simp: host_slot_def Let_def same_config_def)
qed

lemma addValue_steps:
  assumes "0 \<le> v" "0 \<le> v + (1 + int n) * x"
  shows "addValue v x = v + x"
proof (cases "0 \<le> x")
  case False
  have "0 \<le> int n" by simp
  then have "int n * x \<le> 0" using False by (simp add: mult_nonneg_nonpos)
  then have "0 \<le> v + x" using assms(2) by (simp add: distrib_right)
  then show ?thesis by (simp add: addValue_def)
qed (use assms in \<open>simp add: addValue_def\<close>)

lemma updHostData_fold:
  "ucount (fold (host_slot j d) hs m) = ucount m \<and> qcount (fold (host_slot j d) hs m) = qcount m
   \<and> acount (fold (host_slot j d) hs m) = acount m \<and> same_config m (fold (host_slot j d) hs m)
   \<and> (h_remote (m_hosts m g) \<longrightarrow> hcount (fold (host_slot j d) hs m) g = hcount m g)
   \<and> (\<not> h_remote (m_hosts m g) \<longrightarrow> k \<noteq> NumPEND \<longrightarrow> 0 \<le> hcount m g k \<longrightarrow> 0 \<le> hcount m g k + int (count_list hs g) * d k \<longrightarrow>
        hcount (fold (host_slot j d) hs m) g k = hcount m g k + int (count_list hs g) * d k)"
proof (induction hs arbitrary: m)
  case (Cons h hs)
  let ?m = "host_slot j d h m"
  note H = host_slot_counts [where j = j and d = d and h = h and m = m]
  have r: "h_remote (m_hosts ?m g) = h_remote (m_hosts m g)" using H(5) by (simp add: same_config_def)
  have "hcount ?m g k = hcount m g k + d k"
    if "\<not> h_remote (m_hosts m g)" "k \<noteq> NumPEND" "0 \<le> hcount m g k" "0 \<le> hcount m g k + int (count_list (h # hs) g) * d k" "g = h"
    using that H(1) addValue_steps [of "hcount m g k" "count_list hs g" "d k"] by (simp add: addValues_def)
  moreover have "0 \<le> hcount m g k + d k"
    if "0 \<le> hcount m g k" "0 \<le> hcount m g k + int (count_list (h # hs) g) * d k" "g = h"
    using addValue_steps [of "hcount m g k" "count_list hs g" "d k"] that by (simp add: addValue_def split: if_splits)
  ultimately show ?case using Cons.IH [of ?m] H r same_config_trans [of m ?m "fold (host_slot j d) hs ?m"]
    by (auto simp: distrib_right)
qed simp

lemma updHostData_counts:
  "ucount (updHostData j d m) = ucount m" "qcount (updHostData j d m) = qcount m"
  "acount (updHostData j d m) = acount m" "same_config m (updHostData j d m)"
  "\<not> h_remote (m_hosts m g) \<Longrightarrow> k \<noteq> NumPEND \<Longrightarrow> 0 \<le> hcount m g k \<Longrightarrow>
     0 \<le> hcount m g k + int (count_list (j_hosts j) g) * d k \<Longrightarrow>
     hcount (updHostData j d m) g k = hcount m g k + int (count_list (j_hosts j) g) * d k"
  using updHostData_fold [of j d "j_hosts j" m g k] by (auto simp: updHostData_def)

section \<open>Counters and jobs agree\<close>

text \<open>
  What a job in a given state counts for: slots in its queue, for its user and the user's groups
  (\<open>contrib\<close>), and each of its slots on a host (\<open>hcontrib\<close>).  A pending job counts the
  processors it asks for, a started one the slots it has.
\<close>

definition contrib :: "job \<Rightarrow> counts" where
  "contrib j =
     (let n = int (length (j_hosts j)); r = j_numReq j; s = base (j_status j);
          v = has (j_status j) JOB_STAT_RESERVE in
      if s = JOB_STAT_PEND \<or> s = JOB_STAT_PSUSP then (if v then delta r (r - n) 0 0 0 n else delta r r 0 0 0 0)
      else if s = JOB_STAT_RUN then delta n 0 n 0 0 0
      else if s = JOB_STAT_SSUSP then (if v then delta n 0 0 0 0 n else delta n 0 0 n 0 0)
      else if s = JOB_STAT_USUSP then (if v then delta n 0 0 0 0 n else delta n 0 0 0 n 0)
      else delta 0 0 0 0 0 0)"

definition hcontrib :: "job \<Rightarrow> counts" where
  "hcontrib j =
     (let s = base (j_status j); v = has (j_status j) JOB_STAT_RESERVE in
      if s = JOB_STAT_PEND \<or> s = JOB_STAT_PSUSP then (if v then hdelta 1 0 0 0 1 else hdelta 0 0 0 0 0)
      else if s = JOB_STAT_RUN then hdelta 1 1 0 0 0
      else if s = JOB_STAT_SSUSP then (if v then hdelta 1 0 0 0 1 else hdelta 1 0 1 0 0)
      else if s = JOB_STAT_USUSP then (if v then hdelta 1 0 0 0 1 else hdelta 1 0 0 1 0)
      else hdelta 0 0 0 0 0)"

definition owners :: "mbd \<Rightarrow> job \<Rightarrow> string set" where
  "owners m j = set (j_user j # u_groups (m_users m (j_user j)))"

definition aowners :: "mbd \<Rightarrow> job \<Rightarrow> string set" where
  "aowners m j = set (j_user j # u_ancestors (m_users m (j_user j)))"

text \<open>Every counter is the sum over the jobs.\<close>

definition consistent :: "mbd \<Rightarrow> job list \<Rightarrow> bool" where
  "consistent m js \<longleftrightarrow>
     (\<forall>q k. qcount m q k = (\<Sum>j\<leftarrow>js. if q = j_queue j then contrib j k else 0))
   \<and> (\<forall>u k. ucount m u k = (\<Sum>j\<leftarrow>js. if u \<in> owners m j then contrib j k else 0))
   \<and> (\<forall>q u k. k \<noteq> NumJobs \<longrightarrow>
        acount m q u k = (\<Sum>j\<leftarrow>js. if q = j_queue j \<and> u \<in> aowners m j then contrib j k else 0))
   \<and> (\<forall>h k. \<not> h_remote (m_hosts m h) \<longrightarrow> k \<noteq> NumPEND \<longrightarrow>
        hcount m h k = (\<Sum>j\<leftarrow>js. int (count_list (j_hosts j) h) * hcontrib j k))"

definition cfg_ok :: "mbd \<Rightarrow> bool" where
  "cfg_ok m \<longleftrightarrow> (\<forall>u. distinct (u # u_groups (m_users m u)) \<and> distinct (u # u_ancestors (m_users m u)))"

definition job_ok :: "job \<Rightarrow> bool" where
  "job_ok j \<longleftrightarrow> 0 \<le> j_numReq j \<and> (has (j_status j) JOB_STAT_RESERVE \<longrightarrow> int (length (j_hosts j)) \<le> j_numReq j)"

lemma contrib_nonneg: "job_ok j \<Longrightarrow> 0 \<le> contrib j k"
  by (cases k) (auto simp: job_ok_def contrib_def Let_def)

lemma hcontrib_nonneg: "0 \<le> hcontrib j k"
  by (cases k) (auto simp: hcontrib_def hdelta_def Let_def)

lemma same_config_cfg: "same_config m m' \<Longrightarrow> cfg_ok m' = cfg_ok m"
  by (simp add: same_config_def cfg_ok_def)

text \<open>The effect of the three calls, without cut-off at zero.\<close>

definition applied :: "mbd \<Rightarrow> mbd \<Rightarrow> job \<Rightarrow> counts \<Rightarrow> counts \<Rightarrow> bool" where
  "applied m m' j d e \<longleftrightarrow> same_config m m'
   \<and> (\<forall>q k. qcount m' q k = qcount m q k + (if q = j_queue j then d k else 0))
   \<and> (\<forall>u k. ucount m' u k = ucount m u k + (if u \<in> owners m j then d k else 0))
   \<and> (\<forall>q u k. k \<noteq> NumJobs \<longrightarrow> acount m' q u k = acount m q u k + (if q = j_queue j \<and> u \<in> aowners m j then d k else 0))
   \<and> (\<forall>h k. \<not> h_remote (m_hosts m h) \<longrightarrow> k \<noteq> NumPEND \<longrightarrow>
        hcount m' h k = hcount m h k + int (count_list (j_hosts j) h) * e k)"

definition enough :: "mbd \<Rightarrow> job \<Rightarrow> counts \<Rightarrow> counts \<Rightarrow> bool" where
  "enough m j d e \<longleftrightarrow> cfg_ok m
   \<and> (\<forall>k. 0 \<le> qcount m (j_queue j) k + d k)
   \<and> (\<forall>u k. u \<in> owners m j \<longrightarrow> 0 \<le> ucount m u k + d k)
   \<and> (\<forall>u k. u \<in> aowners m j \<longrightarrow> k \<noteq> NumJobs \<longrightarrow> 0 \<le> acount m (j_queue j) u k + d k)
   \<and> (\<forall>h k. \<not> h_remote (m_hosts m h) \<longrightarrow> k \<noteq> NumPEND \<longrightarrow>
        0 \<le> hcount m h k \<and> 0 \<le> hcount m h k + int (count_list (j_hosts j) h) * e k)"

lemma addValues_plus: "0 \<le> c k + d k \<Longrightarrow> addValues c d k = c k + d k"
  by (simp add: addValues_def addValue_def)

lemma upd_applied:
  assumes "enough m j d e"
  shows "applied m (upd_QUH j d e m) j d e" "applied m (upd_QHU j d e m) j d e"
proof -
  have c: "cfg_ok m" using assms by (simp add: enough_def)
  let ?m1 = "updQaccount j d m"
  have g: "u_groups (m_users ?m1 (j_user j)) = u_groups (m_users m (j_user j))"
    using updQaccount_counts(4) [of m j d] by (simp add: same_config_def)
  have r1: "h_remote (m_hosts ?m1 h) = h_remote (m_hosts m h)" for h
    using updQaccount_counts(4) [of m j d] by (simp add: same_config_def)
  have q1: "qcount ?m1 q k = qcount m q k + (if q = j_queue j then d k else 0)" for q k
    using assms updQaccount_counts(1) [of j d m q] by (auto simp: enough_def addValues_plus)
  have da: "distinct (j_user j # u_ancestors (m_users m (j_user j)))" using c by (simp add: cfg_ok_def)
  have na: "0 \<le> acount m (j_queue j) u k + d k"
    if "u \<in> set (j_user j # u_ancestors (m_users m (j_user j)))" "k \<noteq> NumJobs" for u k
    using assms that unfolding enough_def aowners_def by blast
  have a1: "acount ?m1 q u k = acount m q u k + (if q = j_queue j \<and> u \<in> aowners m j then d k else 0)" if "k \<noteq> NumJobs" for q u k
    using updQaccount_acount [OF da na that] by (auto simp: aowners_def)
  have u1: "ucount ?m1 = ucount m" "hcount ?m1 = hcount m" by (rule updQaccount_counts)+
  have h1: "hcount (updHostData j e n) h k = hcount m h k + int (count_list (j_hosts j) h) * e k"
    if "\<not> h_remote (m_hosts m h)" "k \<noteq> NumPEND" "hcount n = hcount m" "same_config m n" for n h k
    using assms updHostData_counts(5) [of n h k j e] that by (auto simp: enough_def same_config_def)
  have v: "ucount (updUserData j d n) u k = ucount m u k + (if u \<in> owners m j then d k else 0)"
    if "same_config m n" "ucount n = ucount m" for n u k
    using assms updUserData_counts(1) [of j n d u] that c
    by (auto simp: enough_def cfg_ok_def owners_def same_config_def addValues_plus)
  have dis: "distinct (j_user j # u_groups (m_users n (j_user j)))" if "same_config m n" for n
    using c that by (auto simp: cfg_ok_def same_config_def)
  let ?m2 = "updUserData j d ?m1"
  have s1: "same_config m ?m1" by (rule updQaccount_counts)
  note U = updUserData_counts(2-5) [OF dis, OF s1, of d]
  have s2: "same_config m ?m2" using s1 U(4) same_config_trans by blast
  note H = updHostData_counts(1-4) [where j = j and d = e and m = ?m2]
  show "applied m (upd_QUH j d e m) j d e"
    unfolding applied_def upd_QUH_def
    using H U q1 a1 v [OF s1 u1(1)] h1 [OF _ _ _ s2] u1(2) same_config_trans [OF s2 H(4)] by auto
  let ?n2 = "updHostData j e ?m1"
  note K = updHostData_counts(1-4) [where j = j and d = e and m = ?m1]
  have t2: "same_config m ?n2" using s1 K(4) same_config_trans by blast
  note V = updUserData_counts(2-5) [OF dis, OF t2, of d]
  show "applied m (upd_QHU j d e m) j d e"
    unfolding applied_def upd_QHU_def
    using K V q1 a1 v [OF t2] h1 [OF _ _ u1(2) s1] u1(1) same_config_trans [OF t2 V(4)] by auto
qed

lemma upd_QU_applied:
  assumes "enough m j d (\<lambda>k. 0)"
  shows "applied m (upd_QU j d m) j d (\<lambda>k. 0)"
proof -
  let ?m1 = "updQaccount j d m"
  have s1: "same_config m ?m1" by (rule updQaccount_counts)
  have dis: "distinct (j_user j # u_groups (m_users ?m1 (j_user j)))"
    using assms s1 by (auto simp: enough_def cfg_ok_def same_config_def)
  note U = updUserData_counts(2-5) [OF dis, of d]
  note H = updHostData_counts(1-3) [where j = j and d = "\<lambda>k. 0" and m = "upd_QU j d m"]
  have "hcount (upd_QU j d m) = hcount m" using U(2) updQaccount_counts(3) by (simp add: upd_QU_def)
  moreover have "same_config m (upd_QU j d m)" unfolding upd_QU_def using U(4) s1 same_config_trans by blast
  moreover have "upd_QUH j d (\<lambda>k. 0) m = updHostData j (\<lambda>k. 0) (upd_QU j d m)" by (simp add: upd_QUH_def upd_QU_def)
  ultimately show ?thesis using upd_applied(1) [OF assms] H by (simp add: applied_def)
qed

lemma sum_list_upd:
  "i < length js \<Longrightarrow> (\<Sum>j\<leftarrow>js[i := x]. f j) = (\<Sum>j\<leftarrow>js. f j) - f (js ! i) + (f x :: int)"
  by (induction js arbitrary: i) (auto split: nat.splits)

lemma sum_list_ge_elem:
  "i < length js \<Longrightarrow> (\<And>j. j \<in> set js \<Longrightarrow> 0 \<le> (f j :: int)) \<Longrightarrow> f (js ! i) \<le> (\<Sum>j\<leftarrow>js. f j)"
proof (induction js arbitrary: i)
  case (Cons j js)
  have "0 \<le> (\<Sum>j\<leftarrow>js. f j)" using Cons.prems(2) by (intro sum_list_nonneg) auto
  moreover have "f (js ! (i - 1)) \<le> (\<Sum>j\<leftarrow>js. f j)" if "0 < i" using Cons.IH [of "i - 1"] Cons.prems that by auto
  ultimately show ?case using Cons.prems(2) [of j] by (cases i) auto
qed simp

text \<open>Two states of a job that count in the same places.\<close>

definition same_place :: "job \<Rightarrow> job \<Rightarrow> bool" where
  "same_place j j' \<longleftrightarrow> j_queue j' = j_queue j \<and> j_user j' = j_user j \<and> j_hosts j' = j_hosts j"

lemma same_config_owners: "same_config m m' \<Longrightarrow> owners m' j = owners m j \<and> aowners m' j = aowners m j"
  by (simp add: same_config_def owners_def aowners_def)

lemma applied_consistent:
  assumes "consistent m js" "i < length js" "applied m m' c d e"
    and "same_place (js ! i) j'" "same_place (js ! i) c"
    and "\<And>k. d k = contrib j' k - contrib (js ! i) k" "\<And>k. k \<noteq> NumPEND \<Longrightarrow> e k = hcontrib j' k - hcontrib (js ! i) k"
  shows "consistent m' (js[i := j'])"
proof -
  have s: "same_config m m'" using assms(3) by (simp add: applied_def)
  note ow = same_config_owners [OF s]
  have o: "owners m c = owners m (js ! i)" "aowners m c = aowners m (js ! i)"
    "owners m j' = owners m (js ! i)" "aowners m j' = aowners m (js ! i)"
    using assms(4,5) by (simp_all add: owners_def aowners_def same_place_def)
  have p: "j_queue c = j_queue (js ! i)" "j_queue j' = j_queue (js ! i)" "j_hosts c = j_hosts (js ! i)" "j_hosts j' = j_hosts (js ! i)"
    using assms(4,5) by (simp_all add: same_place_def)
  have r: "h_remote (m_hosts m' h) = h_remote (m_hosts m h)" for h using s by (simp add: same_config_def)
  have 1: "qcount m' q k = (\<Sum>j\<leftarrow>js[i := j']. if q = j_queue j then contrib j k else 0)" for q k
    using assms(1,2,3,6) p by (simp add: consistent_def applied_def sum_list_upd)
  have 2: "ucount m' u k = (\<Sum>j\<leftarrow>js[i := j']. if u \<in> owners m j then contrib j k else 0)" for u k
    using assms(1,2,3,6) o by (simp add: consistent_def applied_def sum_list_upd)
  have 3: "acount m' q u k = (\<Sum>j\<leftarrow>js[i := j']. if q = j_queue j \<and> u \<in> aowners m j then contrib j k else 0)"
    if "k \<noteq> NumJobs" for q u k
    using assms(1,2,3,6) o p that by (simp add: consistent_def applied_def sum_list_upd)
  have 4: "hcount m' h k = (\<Sum>j\<leftarrow>js[i := j']. int (count_list (j_hosts j) h) * hcontrib j k)"
    if "\<not> h_remote (m_hosts m h)" "k \<noteq> NumPEND" for h k
    using assms(1,2,3) p that by (simp add: consistent_def applied_def sum_list_upd assms(7) [OF that(2)] right_diff_distrib)
  show ?thesis unfolding consistent_def using 1 2 3 4 ow r by simp
qed

lemma consistent_enough:
  assumes "consistent m js" "cfg_ok m" "i < length js" "list_all job_ok js" "job_ok j'" "same_place (js ! i) c"
    and "\<And>k. d k = contrib j' k - contrib (js ! i) k" "\<And>k. k \<noteq> NumPEND \<Longrightarrow> e k = hcontrib j' k - hcontrib (js ! i) k"
  shows "enough m c d e"
proof -
  have ok: "job_ok j" if "j \<in> set js" for j using assms(4) that by (simp add: list_all_iff)
  have p: "j_queue c = j_queue (js ! i)" "j_hosts c = j_hosts (js ! i)" "owners m c = owners m (js ! i)" "aowners m c = aowners m (js ! i)"
    using assms(6) by (simp_all add: same_place_def owners_def aowners_def)
  have g: "(if P (js ! i) then contrib (js ! i) k else 0) \<le> (\<Sum>j\<leftarrow>js. if P j then contrib j k else 0)" for P k
    using sum_list_ge_elem [OF assms(3), of "\<lambda>j. if P j then contrib j k else 0"] ok contrib_nonneg by auto
  have n: "0 \<le> contrib j' k" for k using assms(5) by (rule contrib_nonneg)
  have 1: "0 \<le> qcount m (j_queue c) k + d k" for k
    using assms(1) g [of "\<lambda>j. j_queue c = j_queue j" k] n [of k] assms(7) [of k] p by (simp add: consistent_def)
  have 2: "0 \<le> ucount m u k + d k" if "u \<in> owners m c" for u k
    using assms(1) g [of "\<lambda>j. u \<in> owners m j" k] n [of k] assms(7) [of k] p that by (simp add: consistent_def)
  have 3: "0 \<le> acount m (j_queue c) u k + d k" if "u \<in> aowners m c" "k \<noteq> NumJobs" for u k
    using assms(1) g [of "\<lambda>j. j_queue c = j_queue j \<and> u \<in> aowners m j" k] n [of k] assms(7) [of k] p that
    by (simp add: consistent_def)
  have 4: "0 \<le> hcount m h k \<and> 0 \<le> hcount m h k + int (count_list (j_hosts c) h) * e k"
    if "\<not> h_remote (m_hosts m h)" "k \<noteq> NumPEND" for h k
  proof -
    let ?f = "\<lambda>j. int (count_list (j_hosts j) h) * hcontrib j k"
    have f: "0 \<le> ?f j" for j using hcontrib_nonneg by simp
    have h: "hcount m h k = (\<Sum>j\<leftarrow>js. ?f j)" using assms(1) that by (simp add: consistent_def)
    have "?f (js ! i) \<le> (\<Sum>j\<leftarrow>js. ?f j)" using f by (intro sum_list_ge_elem [OF assms(3)])
    moreover have "0 \<le> int (count_list (j_hosts c) h) * hcontrib j' k" using hcontrib_nonneg by simp
    moreover have "0 \<le> (\<Sum>j\<leftarrow>js. ?f j)" using f by (intro sum_list_nonneg) auto
    ultimately show ?thesis using h p by (simp add: assms(8) [OF that(2)] right_diff_distrib)
  qed
  show ?thesis unfolding enough_def using assms(2) 1 2 3 4 by auto
qed

text \<open>
  Every call of the three functions in the state changes below is one of these, with the
  difference of what the job counts for before and after.
\<close>

lemma change_consistent:
  assumes "consistent m js" "cfg_ok m" "i < length js" "list_all job_ok js" "job_ok j'"
    and "same_place (js ! i) j'" "same_place (js ! i) c"
    and "\<And>k. d k = contrib j' k - contrib (js ! i) k" "\<And>k. k \<noteq> NumPEND \<Longrightarrow> e k = hcontrib j' k - hcontrib (js ! i) k"
  shows "consistent (upd_QUH c d e m) (js[i := j']) \<and> same_config m (upd_QUH c d e m)"
    and "consistent (upd_QHU c d e m) (js[i := j']) \<and> same_config m (upd_QHU c d e m)"
    and "(\<And>k. k \<noteq> NumPEND \<Longrightarrow> e k = 0) \<Longrightarrow> consistent (upd_QU c d m) (js[i := j']) \<and> same_config m (upd_QU c d m)"
proof -
  have en: "enough m c d e" by (rule consistent_enough [OF assms(1-5,7,8,9)])
  show "consistent (upd_QUH c d e m) (js[i := j']) \<and> same_config m (upd_QUH c d e m)"
    "consistent (upd_QHU c d e m) (js[i := j']) \<and> same_config m (upd_QHU c d e m)"
    using upd_applied [OF en] applied_consistent [OF assms(1,3) _ assms(6,7,8,9)] by (auto simp: applied_def)
  assume z: "\<And>k. k \<noteq> NumPEND \<Longrightarrow> e k = 0"
  have "enough m c d (\<lambda>k. 0)"
    by (rule consistent_enough [OF assms(1-5,7,8)]) (use z assms(9) in auto)
  then show "consistent (upd_QU c d m) (js[i := j']) \<and> same_config m (upd_QU c d m)"
    using upd_QU_applied applied_consistent [OF assms(1,3) _ assms(6,7,8), where e = "\<lambda>k. 0"] z assms(9)
    by (auto simp: applied_def)
qed

section \<open>State changes keep the agreement\<close>

text \<open>
  The changes of state the daemon makes, as pairs of states: a started job may go to any state,
  a pending one may start, finish, or be held and released, but a held one does not become a
  suspended one.
\<close>

definition legal :: "jstatus \<Rightarrow> jstatus \<Rightarrow> bool" where
  "legal a b \<longleftrightarrow>
     a \<in> {JOB_STAT_PEND, JOB_STAT_PSUSP, JOB_STAT_RUN, JOB_STAT_SSUSP, JOB_STAT_USUSP}
   \<and> (b \<in> {JOB_STAT_PEND, JOB_STAT_RUN, JOB_STAT_EXIT, JOB_STAT_DONE}
      \<or> b \<in> {JOB_STAT_SSUSP, JOB_STAT_USUSP} \<and> a \<noteq> JOB_STAT_PSUSP
      \<or> b = JOB_STAT_PSUSP \<and> a \<in> {JOB_STAT_PEND, JOB_STAT_PSUSP})"

lemma no_reserve_contrib:
  assumes "\<not> has (j_status j) JOB_STAT_RESERVE"
  shows "base (j_status j) = 1 \<Longrightarrow> contrib j = delta (j_numReq j) (j_numReq j) 0 0 0 0 \<and> hcontrib j = hdelta 0 0 0 0 0"
    "base (j_status j) = 2 \<Longrightarrow> contrib j = delta (j_numReq j) (j_numReq j) 0 0 0 0 \<and> hcontrib j = hdelta 0 0 0 0 0"
    "base (j_status j) = 4 \<Longrightarrow> contrib j = delta (int (length (j_hosts j))) 0 (int (length (j_hosts j))) 0 0 0 \<and> hcontrib j = hdelta 1 1 0 0 0"
    "base (j_status j) = 8 \<Longrightarrow> contrib j = delta (int (length (j_hosts j))) 0 0 (int (length (j_hosts j))) 0 0 \<and> hcontrib j = hdelta 1 0 1 0 0"
    "base (j_status j) = 0x10 \<Longrightarrow> contrib j = delta (int (length (j_hosts j))) 0 0 0 (int (length (j_hosts j))) 0 \<and> hcontrib j = hdelta 1 0 0 1 0"
    "base (j_status j) = 0x20 \<Longrightarrow> contrib j = delta 0 0 0 0 0 0 \<and> hcontrib j = hdelta 0 0 0 0 0"
    "base (j_status j) = 0x40 \<Longrightarrow> contrib j = delta 0 0 0 0 0 0 \<and> hcontrib j = hdelta 0 0 0 0 0"
  using assms by (simp_all add: contrib_def hcontrib_def Let_def job_stat_defs)

lemma delta_minus:
  "delta a b c d e f k - delta a' b' c' d' e' f' k = delta (a - a') (b - b') (c - c') (d - d') (e - e') (f - f') k"
  "hdelta a c d e f k - hdelta a' c' d' e' f' k = hdelta (a - a') (c - c') (d - d') (e - e') (f - f') k"
  by (cases k; simp add: hdelta_def)+

text \<open>
  A change of a job from \<open>j\<close> to \<open>j'\<close> that makes one group of calls, or none, with the difference
  of what the two count for.
\<close>

definition calls :: "job \<Rightarrow> job \<Rightarrow> mbd \<Rightarrow> mbd \<Rightarrow> bool" where
  "calls j j' m m' \<longleftrightarrow>
     (\<exists>d e c. same_place j c \<and> (\<forall>k. d k = contrib j' k - contrib j k) \<and> (\<forall>k. k \<noteq> NumPEND \<longrightarrow> e k = hcontrib j' k - hcontrib j k)
        \<and> (m' = upd_QUH c d e m \<or> m' = upd_QHU c d e m
           \<or> m' = upd_QU c d m \<and> (\<forall>k. k \<noteq> NumPEND \<longrightarrow> e k = 0)
           \<or> m' = m \<and> (\<forall>k. d k = 0) \<and> (\<forall>k. k \<noteq> NumPEND \<longrightarrow> e k = 0)))"

lemma calls_I:
  assumes "same_place j c"
  shows "(\<And>k. d k = contrib j' k - contrib j k) \<Longrightarrow> (\<And>k. e k = hcontrib j' k - hcontrib j k) \<Longrightarrow> calls j j' m (upd_QUH c d e m)"
    "(\<And>k. d k = contrib j' k - contrib j k) \<Longrightarrow> (\<And>k. e k = hcontrib j' k - hcontrib j k) \<Longrightarrow> calls j j' m (upd_QHU c d e m)"
    "(\<And>k. d k = contrib j' k - contrib j k) \<Longrightarrow> hcontrib j' = hcontrib j \<Longrightarrow> calls j j' m (upd_QU c d m)"
    "contrib j' = contrib j \<Longrightarrow> hcontrib j' = hcontrib j \<Longrightarrow> calls j j' m m"
proof -
  show "calls j j' m (upd_QUH c d e m)" "calls j j' m (upd_QHU c d e m)"
    if "\<And>k. d k = contrib j' k - contrib j k" "\<And>k. e k = hcontrib j' k - hcontrib j k"
    unfolding calls_def using that assms by blast+
  show "calls j j' m (upd_QU c d m)" if "\<And>k. d k = contrib j' k - contrib j k" "hcontrib j' = hcontrib j"
    unfolding calls_def using that assms
    by (intro exI [of _ d] exI [of _ "\<lambda>k. 0"] exI [of _ c]) simp
  show "calls j j' m m" if "contrib j' = contrib j" "hcontrib j' = hcontrib j"
    unfolding calls_def using that assms
    by (intro exI [of _ "\<lambda>k. 0"] exI [of _ "\<lambda>k. 0"] exI [of _ c]) simp
qed

lemma calls_consistent:
  assumes "calls (js ! i) j' m m'" "consistent m js" "cfg_ok m" "i < length js" "list_all job_ok js" "job_ok j'"
    and "same_place (js ! i) j'"
  shows "consistent m' (js[i := j']) \<and> same_config m m' \<and> cfg_ok m' \<and> list_all job_ok (js[i := j'])"
proof -
  obtain d e c where c: "same_place (js ! i) c" "\<And>k. d k = contrib j' k - contrib (js ! i) k"
    "\<And>k. k \<noteq> NumPEND \<Longrightarrow> e k = hcontrib j' k - hcontrib (js ! i) k"
    and m': "m' = upd_QUH c d e m \<or> m' = upd_QHU c d e m \<or> m' = upd_QU c d m \<and> (\<forall>k. k \<noteq> NumPEND \<longrightarrow> e k = 0)
           \<or> m' = m \<and> (\<forall>k. d k = 0) \<and> (\<forall>k. k \<noteq> NumPEND \<longrightarrow> e k = 0)"
    using assms(1) unfolding calls_def by blast
  note C = change_consistent [OF assms(2-7) c]
  have "consistent m (js[i := j'])" if "\<forall>k. d k = 0" "\<forall>k. k \<noteq> NumPEND \<longrightarrow> e k = 0"
    using applied_consistent [OF assms(2,4) _ assms(7) c, of m] that by (simp add: applied_def)
  then have r: "consistent m' (js[i := j'])" "same_config m m'" using m' C by auto
  have "list_all job_ok (js[i := j'])" using assms(5,6) by (auto simp: list_all_iff dest: set_update_subset_insert [THEN subsetD])
  then show ?thesis using r same_config_cfg [OF r(2)] assms(3) by simp
qed

lemma legal_states: "legal a b \<Longrightarrow> a \<in> states \<and> b \<in> states"
  by (auto simp: legal_def states_def)

lemmas updCounters_defs = updCounters_def cnt_run_def cnt_ssusp_def cnt_ususp_def cnt_finish_def cnt_pend_def
  is_status_defs Let_def

lemma updCounters_calls:
  assumes "legal (base (j_status j)) (base new)" "\<not> has (j_status j) JOB_STAT_RESERVE" "\<not> has new JOB_STAT_RESERVE"
  shows "calls j (j\<lparr>j_status := new\<rparr>) m (updCounters (j\<lparr>j_status := new\<rparr>) (j_status j) m)"
proof -
  let ?j = "j\<lparr>j_status := new\<rparr>"
  have sp: "same_place j ?j" by (simp add: same_place_def)
  have n: "\<not> has (j_status ?j) JOB_STAT_RESERVE" using assms(3) by simp
  note st = legal_states [OF assms(1)]
  note fl = has_states [OF conjunct1 [OF st]] has_states [OF conjunct2 [OF st]]
  note no = no_reserve_contrib [OF assms(2)] no_reserve_contrib [OF n, simplified]
  note C = calls_I [OF sp]
  have js: "j_status ?j = new" by simp
  consider (pend) "base (j_status j) = 1" | (psusp) "base (j_status j) = 2" | (run) "base (j_status j) = 4"
    | (ssusp) "base (j_status j) = 8" | (ususp) "base (j_status j) = 0x10"
    using assms(1) by (auto simp: legal_def job_stat_defs)
  then show ?thesis
  proof cases
    case pend
    have "base new \<in> {1, 2, 4, 8, 0x10, 0x20, 0x40}" using assms(1) pend by (auto simp: legal_def job_stat_defs)
    then show ?thesis unfolding updCounters_defs js fl unfolding job_stat_defs pend
      by (elim insertE emptyE; simp add: no pend) ((rule C; simp add: no pend delta_minus)+)
  next
    case psusp
    have "base new \<in> {1, 2, 4, 0x20, 0x40}" using assms(1) psusp by (auto simp: legal_def job_stat_defs)
    then show ?thesis unfolding updCounters_defs js fl unfolding job_stat_defs psusp
      by (elim insertE emptyE; simp add: no psusp) ((rule C; simp add: no psusp delta_minus)+)
  next
    case run
    have "base new \<in> {1, 4, 8, 0x10, 0x20, 0x40}" using assms(1) run by (auto simp: legal_def job_stat_defs)
    then show ?thesis unfolding updCounters_defs js fl unfolding job_stat_defs run
      by (elim insertE emptyE; simp add: no run) ((rule C; simp add: no run delta_minus)+)
  next
    case ssusp
    have "base new \<in> {1, 4, 8, 0x10, 0x20, 0x40}" using assms(1) ssusp by (auto simp: legal_def job_stat_defs)
    then show ?thesis unfolding updCounters_defs js fl unfolding job_stat_defs ssusp
      by (elim insertE emptyE; simp add: no ssusp) ((rule C; simp add: no ssusp delta_minus)+)
  next
    case ususp
    have "base new \<in> {1, 4, 8, 0x10, 0x20, 0x40}" using assms(1) ususp by (auto simp: legal_def job_stat_defs)
    then show ?thesis unfolding updCounters_defs js fl unfolding job_stat_defs ususp
      by (elim insertE emptyE; simp add: no ususp) ((rule C; simp add: no ususp delta_minus)+)
  qed
qed

section \<open>Reservations, queue changes and new jobs\<close>

lemma reserve_contrib:
  assumes "has (j_status j) JOB_STAT_RESERVE"
  shows "base (j_status j) = 1 \<Longrightarrow> contrib j = delta (j_numReq j) (j_numReq j - int (length (j_hosts j))) 0 0 0 (int (length (j_hosts j)))
      \<and> hcontrib j = hdelta 1 0 0 0 1"
    "base (j_status j) = 2 \<Longrightarrow> contrib j = delta (j_numReq j) (j_numReq j - int (length (j_hosts j))) 0 0 0 (int (length (j_hosts j)))
      \<and> hcontrib j = hdelta 1 0 0 0 1"
    "base (j_status j) = 8 \<Longrightarrow> contrib j = delta (int (length (j_hosts j))) 0 0 0 0 (int (length (j_hosts j))) \<and> hcontrib j = hdelta 1 0 0 0 1"
    "base (j_status j) = 0x10 \<Longrightarrow> contrib j = delta (int (length (j_hosts j))) 0 0 0 0 (int (length (j_hosts j))) \<and> hcontrib j = hdelta 1 0 0 0 1"
  using assms by (simp_all add: contrib_def hcontrib_def Let_def job_stat_defs)

lemma delta_neg: "- delta a b c d e f k = delta (- a) (- b) (- c) (- d) (- e) (- f) k"
  "- hdelta a c d e f k = hdelta (- a) (- c) (- d) (- e) (- f) k"
  by (cases k; simp add: hdelta_def)+

text \<open>The states in which a job may hold a reservation.\<close>

definition reservable :: "jstatus \<Rightarrow> bool" where
  "reservable s \<longleftrightarrow> base s \<in> {JOB_STAT_PEND, JOB_STAT_PSUSP, JOB_STAT_SSUSP, JOB_STAT_USUSP}"

lemmas updRes_defs = updResCounters_def res_susp_def res_pend_def is_status_defs Let_def

lemma updResCounters_on:
  assumes "reservable (j_status j)" "same_place j c" "j_status c = j_status j" "\<not> has (j_status j) JOB_STAT_RESERVE"
  shows "calls j (j\<lparr>j_status := j_status j OR JOB_STAT_RESERVE\<rparr>) m (updResCounters c (j_status j OR JOB_STAT_RESERVE) m)"
proof -
  define new where "new = j_status j OR JOB_STAT_RESERVE"
  have b: "base new = base (j_status j)" and r: "has new JOB_STAT_RESERVE = True" by (simp_all add: new_def reserve_flag)
  have st: "base (j_status j) \<in> states" "base new \<in> states" using assms(1) b by (auto simp: reservable_def states_def)
  have off: "has (j_status j) JOB_STAT_RESERVE = False" using assms(4) by simp
  have l: "length (j_hosts c) = length (j_hosts j)" using assms(2) by (simp add: same_place_def)
  note no = no_reserve_contrib [OF assms(4)] reserve_contrib [of "j\<lparr>j_status := new\<rparr>", simplified, OF r [simplified]]
  have s4: "base (j_status j) \<in> {1, 2, 8, 0x10}" using assms(1) by (auto simp: reservable_def job_stat_defs)
  show ?thesis unfolding new_def [symmetric] updRes_defs assms(3) off r has_states [OF st(1)] has_states [OF st(2)] b l
    unfolding job_stat_defs using s4
    by (elim insertE emptyE; simp add: no b) ((rule calls_I [OF assms(2)]; simp add: no b delta_minus)+)
qed

lemma updResCounters_off:
  assumes "reservable (j_status j)" "same_place j c" "j_status c = j_status j" "has (j_status j) JOB_STAT_RESERVE"
  shows "calls j (j\<lparr>j_status := j_status j AND NOT JOB_STAT_RESERVE\<rparr>) m
    (updResCounters c (j_status j AND NOT JOB_STAT_RESERVE) m)"
proof -
  define new where "new = j_status j AND NOT JOB_STAT_RESERVE"
  have b: "base new = base (j_status j)" and r: "has new JOB_STAT_RESERVE = False" by (simp_all add: new_def reserve_flag)
  have st: "base (j_status j) \<in> states" "base new \<in> states" using assms(1) b by (auto simp: reservable_def states_def)
  have on: "has (j_status j) JOB_STAT_RESERVE = True" using assms(4) by simp
  have l: "length (j_hosts c) = length (j_hosts j)" using assms(2) by (simp add: same_place_def)
  note no = reserve_contrib [OF assms(4)] no_reserve_contrib [of "j\<lparr>j_status := new\<rparr>", simplified, OF r [simplified]]
  have s4: "base (j_status j) \<in> {1, 2, 8, 0x10}" using assms(1) by (auto simp: reservable_def job_stat_defs)
  show ?thesis unfolding new_def [symmetric] updRes_defs assms(3) on r has_states [OF st(1)] has_states [OF st(2)] b l
    unfolding job_stat_defs using s4
    by (elim insertE emptyE; simp add: no b) ((rule calls_I [OF assms(2)]; simp add: no b delta_minus delta_neg)+)
qed

lemma zero_replace:
  assumes "consistent m js" "i < length js"
    and "\<And>k. contrib (js ! i) k = 0" "\<And>k. hcontrib (js ! i) k = 0" "\<And>k. contrib j k = 0" "\<And>k. hcontrib j k = 0"
  shows "consistent m (js[i := j])"
  using assms by (simp add: consistent_def sum_list_upd cong: if_cong)

lemma zero_append:
  assumes "consistent m js" "\<And>k. contrib j k = 0" "\<And>k. hcontrib j k = 0"
  shows "consistent m (js @ [j])"
  using assms by (simp add: consistent_def cong: if_cong)

lemma finished_contrib:
  "base (j_status j) = JOB_STAT_EXIT \<or> base (j_status j) = JOB_STAT_DONE \<Longrightarrow> contrib j k = 0 \<and> hcontrib j k = 0"
  by (cases k) (auto simp: contrib_def hcontrib_def hdelta_def Let_def job_stat_defs)

lemma switchable_base:
  assumes "switchable s"
  shows "base s \<in> {1, 2, 4, 8, 0x10}" "MASK_STATUS s = base s \<or> base s \<in> {4, 8, 0x10} \<and> MASK_STATUS s = base s OR 0x10000"
proof -
  have "MASK_STATUS (s AND NOT 0x10000) = MASK_STATUS s AND NOT 0x10000"
    by (simp only: MASK_STATUS_def and.assoc and.commute [of "NOT 0x10000"])
  then have b: "base s = MASK_STATUS s AND NOT 0x10000" by (simp add: base_def JOB_STAT_UNKWN_def)
  show "base s \<in> {1, 2, 4, 8, 0x10}" "MASK_STATUS s = base s \<or> base s \<in> {4, 8, 0x10} \<and> MASK_STATUS s = base s OR 0x10000"
    unfolding b using assms by (auto simp: switchable_def Let_def job_stat_defs)
qed

lemma switch_counts_calls:
  fixes j :: job and qtp :: string and r :: int
  defines "jx \<equiv> j\<lparr>j_status := JOB_STAT_EXIT\<rparr>"
  defines "jy \<equiv> jx\<lparr>j_queue := qtp, j_numReq := r\<rparr>"
  defines "j' \<equiv> j\<lparr>j_queue := qtp, j_numReq := r\<rparr>"
  assumes "switchable (j_status j)" "\<not> has (j_status j) JOB_STAT_RESERVE" "\<not> m_replay m"
  shows "\<exists>m1. calls j jx m m1 \<and> calls jy j' m1 (switch_counts j' (j_queue j) qtp (j_numReq j) m)"
proof -
  let ?f = "j'\<lparr>j_queue := j_queue j\<rparr>" and ?t = "j'\<lparr>j_queue := qtp\<rparr>"
  have sp: "same_place j ?f" "same_place jy ?t" by (simp_all add: same_place_def jx_def jy_def j'_def)
  have e: "base JOB_STAT_EXIT = 0x20" "has JOB_STAT_EXIT JOB_STAT_RESERVE = False"
    by (simp_all add: base_mask has_def job_stat_defs)
  have z: "contrib jx = delta 0 0 0 0 0 0" "hcontrib jx = hdelta 0 0 0 0 0" "contrib jy = delta 0 0 0 0 0 0" "hcontrib jy = hdelta 0 0 0 0 0"
    using no_reserve_contrib(6) [of jx] no_reserve_contrib(6) [of jy] e by (simp_all add: jx_def jy_def)
  have n: "\<not> has (j_status j') JOB_STAT_RESERVE" using assms(5) by (simp add: j'_def)
  have bs: "base (j_status j') = base (j_status j)" "MASK_STATUS (j_status j') = MASK_STATUS (j_status j)" by (simp_all add: j'_def)
  note no = no_reserve_contrib [OF assms(5)] no_reserve_contrib [OF n]
  note S = switchable_base [OF assms(4)]
  have fld: "length (j_hosts j') = length (j_hosts j)" "j_numReq j' = r" by (simp_all add: j'_def)
  have w: "switch_counts j' (j_queue j) qtp (j_numReq j) m =
    (if base (j_status j) = 1 \<or> base (j_status j) = 2
     then upd_QU ?t (delta r r 0 0 0 0) (upd_QU ?f (delta (- j_numReq j) (- j_numReq j) 0 0 0 0) m)
     else upd_QHU ?t (contrib j') (hcontrib j') (upd_QHU ?f (\<lambda>k. - contrib j k) (\<lambda>k. - hcontrib j k) m))"
    unfolding switch_counts_def Let_def bs(2) fld unfolding job_stat_defs using S assms(6)
    by (elim insertE emptyE disjE conjE; simp add: no bs fld delta_neg fun_eq_iff)
  show ?thesis
  proof (cases "base (j_status j) = 1 \<or> base (j_status j) = 2")
    case True
    then have "calls j jx m (upd_QU ?f (delta (- j_numReq j) (- j_numReq j) 0 0 0 0) m)"
      "calls jy j' n (upd_QU ?t (delta r r 0 0 0 0) n)" for n
      using z no bs fld by (auto intro!: calls_I(3) [OF sp(1)] calls_I(3) [OF sp(2)] simp: delta_minus)
    then show ?thesis using w True by auto
  next
    case False
    have "calls j jx m (upd_QHU ?f (\<lambda>k. - contrib j k) (\<lambda>k. - hcontrib j k) m)"
      by (rule calls_I(2) [OF sp(1)]) (simp_all add: z delta_minus hdelta_def, (case_tac k; simp)+)
    moreover have "calls jy j' n (upd_QHU ?t (contrib j') (hcontrib j') n)" for n
      by (rule calls_I(2) [OF sp(2)]) (simp_all add: z delta_minus hdelta_def, (case_tac k; simp)+)
    ultimately show ?thesis using w False by auto
  qed
qed

lemma replace_unplaced:
  assumes "consistent m js" "i < length js" "j_queue j = j_queue (js ! i)" "j_user j = j_user (js ! i)"
    and "contrib j = contrib (js ! i)" "\<And>k. hcontrib (js ! i) k = 0" "\<And>k. hcontrib j k = 0"
  shows "consistent m (js[i := j])"
proof -
  have "owners m j = owners m (js ! i)" "aowners m j = aowners m (js ! i)" using assms(4) by (simp_all add: owners_def aowners_def)
  then show ?thesis using assms by (simp add: consistent_def sum_list_upd)
qed

text \<open>The invariant of the daemon's counters and jobs while it is not replaying its log.\<close>

definition cinv :: "mbd \<Rightarrow> job list \<Rightarrow> bool" where
  "cinv m js \<longleftrightarrow> consistent m js \<and> cfg_ok m \<and> list_all job_ok js \<and> \<not> m_replay m"

lemma calls_cinv:
  assumes "cinv m js" "i < length js" "calls (js ! i) j' m m'" "job_ok j'" "same_place (js ! i) j'"
  shows "cinv m' (js[i := j'])"
  using calls_consistent [OF assms(3) _ _ assms(2) _ assms(4,5)] assms(1) by (auto simp: cinv_def same_config_def)

lemma list_all_update: "list_all P js \<Longrightarrow> P x \<Longrightarrow> list_all P (js[i := x])"
  by (auto simp: list_all_iff dest: set_update_subset_insert [THEN subsetD])

lemma cinv_ok: "cinv m js \<Longrightarrow> i < length js \<Longrightarrow> job_ok (js ! i)"
  by (simp add: cinv_def list_all_length)

lemma switch_counts_cinv:
  assumes "cinv m js" "i < length js" "switchable (j_status (js ! i))" "\<not> has (j_status (js ! i)) JOB_STAT_RESERVE" "0 \<le> r"
    and "j' = (js ! i)\<lparr>j_numReq := r, j_queue := qtp\<rparr>"
  shows "cinv (switch_counts j' (j_queue (js ! i)) qtp (j_numReq (js ! i)) m) (js[i := j'])"
proof -
  let ?x = "(js ! i)\<lparr>j_status := JOB_STAT_EXIT\<rparr>"
  let ?y = "?x\<lparr>j_queue := qtp, j_numReq := r\<rparr>"
  have ord: "(js ! i)\<lparr>j_numReq := r, j_queue := qtp\<rparr> = (js ! i)\<lparr>j_queue := qtp, j_numReq := r\<rparr>" by (cases "js ! i") simp
  have rp: "\<not> m_replay m" using assms(1) by (simp add: cinv_def)
  obtain m1 where c1: "calls (js ! i) ?x m m1"
    and c2: "calls ?y j' m1 (switch_counts j' (j_queue (js ! i)) qtp (j_numReq (js ! i)) m)"
    using switch_counts_calls [OF assms(3,4) rp, where qtp = qtp and r = r] unfolding ord [symmetric] assms(6) by blast
  have e: "base JOB_STAT_EXIT = JOB_STAT_EXIT" "\<not> has JOB_STAT_EXIT JOB_STAT_RESERVE"
    by (simp_all add: base_mask has_def job_stat_defs)
  have ok: "job_ok ?x" "job_ok ?y" "job_ok j'"
    using cinv_ok [OF assms(1,2)] assms(4,5) e(2) by (auto simp: job_ok_def assms(6))
  have x: "cinv m1 (js[i := ?x])" by (rule calls_cinv [OF assms(1,2) c1 ok(1)]) (simp add: same_place_def)
  have "consistent m1 (js[i := ?x, i := ?y])"
    using x assms(2) e(1) finished_contrib [of ?x] finished_contrib [of ?y]
    by (intro zero_replace [of m1 "js[i := ?x]"]) (auto simp: cinv_def)
  then have y: "cinv m1 (js[i := ?y])" using x ok(2) assms(1) list_all_update by (auto simp: cinv_def)
  have "cinv (switch_counts j' (j_queue (js ! i)) qtp (j_numReq (js ! i)) m) (js[i := ?y, i := j'])"
    by (rule calls_cinv [OF y]) (use assms(2) c2 ok(3) in \<open>auto simp: same_place_def assms(6)\<close>)
  then show ?thesis by simp
qed

lemma switchable_reserve: "switchable (s AND NOT JOB_STAT_RESERVE) = switchable s"
proof -
  have "MASK_STATUS (s AND NOT JOB_STAT_RESERVE) = s AND (NOT JOB_STAT_RESERVE AND MASK_INT_JOB_STAT)"
    by (simp only: MASK_STATUS_def and.assoc)
  then have "MASK_STATUS (s AND NOT JOB_STAT_RESERVE) = MASK_STATUS s" by (simp add: MASK_STATUS_def job_stat_defs)
  then show ?thesis by (simp add: switchable_def)
qed

lemma updSwitchJob_cinv:
  assumes "cinv m js" "i < length js" "switchable (j_status (js ! i))"
    and "has (j_status (js ! i)) JOB_STAT_RESERVE \<Longrightarrow> reservable (j_status (js ! i))" "job_ok ((js ! i)\<lparr>j_numReq := r\<rparr>)"
    and "updSwitchJob ((js ! i)\<lparr>j_numReq := r\<rparr>) (j_queue (js ! i)) qtp (j_numReq (js ! i)) m = (j', m')"
  shows "j_queue j' = qtp \<and> cinv m' (js[i := j'])"
proof (cases "has (j_status (js ! i)) JOB_STAT_RESERVE")
  case False
  have "0 \<le> r" using assms(5) by (simp add: job_ok_def)
  then show ?thesis using switch_counts_cinv [OF assms(1-3) False _ refl, of r qtp] assms(3,6) False
    by (auto simp: updSwitchJob_def Let_def)
next
  case True
  let ?j = "js ! i"
  let ?off = "j_status ?j AND NOT JOB_STAT_RESERVE"
  let ?on = "?off OR JOB_STAT_RESERVE"
  let ?c = "?j\<lparr>j_numReq := r, j_queue := j_queue ?j\<rparr>"
  let ?m1 = "updResCounters ?c ?off m"
  let ?jo = "?j\<lparr>j_status := ?off\<rparr>"
  let ?jt = "?j\<lparr>j_numReq := r, j_queue := qtp, j_status := ?off\<rparr>"
  let ?m2 = "switch_counts ?jt (j_queue ?j) qtp (j_numReq ?j) ?m1"
  have r: "0 \<le> r" "int (length (j_hosts ?j)) \<le> r" using assms(5) True by (auto simp: job_ok_def)
  have out: "j' = ?jt\<lparr>j_status := ?on\<rparr>" "m' = updResCounters ?jt ?on ?m2"
    using assms(6) True by (simp_all add: updSwitchJob_def Let_def)
  have ok0: "job_ok ?jo" using cinv_ok [OF assms(1,2)] by (simp add: job_ok_def reserve_flag)
  have "calls ?j ?jo m ?m1"
    by (rule updResCounters_off [OF assms(4) [OF True] _ _ True]) (simp_all add: same_place_def)
  then have c1: "cinv ?m1 (js[i := ?jo])" by (rule calls_cinv [OF assms(1,2) _ ok0]) (simp add: same_place_def)
  have ord: "?jt = (js[i := ?jo] ! i)\<lparr>j_numReq := r, j_queue := qtp\<rparr>" using assms(2) by (cases "js ! i") simp
  have c2: "cinv ?m2 (js[i := ?jt])"
    using switch_counts_cinv [OF c1 _ _ _ _ ord] assms(2,3) r(1) by (simp add: switchable_reserve reserve_flag)
  have rb: "reservable ?off" using assms(4) [OF True] by (simp add: reservable_def reserve_flag)
  have "calls ?jt (?jt\<lparr>j_status := j_status ?jt OR JOB_STAT_RESERVE\<rparr>) ?m2 (updResCounters ?jt (j_status ?jt OR JOB_STAT_RESERVE) ?m2)"
    using rb by (intro updResCounters_on) (simp_all add: same_place_def reserve_flag)
  then have "cinv m' (js[i := ?jt, i := j'])"
    using out r by (intro calls_cinv [OF c2]) (use assms(2) in \<open>auto simp: same_place_def job_ok_def\<close>)
  then show ?thesis using out by simp
qed

section \<open>Runs of the daemon\<close>

text \<open>
  The events that change the counters outside the replay of the log: a job is submitted; a
  pending or finished job without reservation gets or loses its hosts; a job changes its state;
  a pending or suspended job reserves its slots or releases them; a job is switched to another
  queue; a finished job is requeued (pending, or suspended by its user) or removed.
\<close>

definition unplaced :: "jstatus \<Rightarrow> bool" where
  "unplaced s \<longleftrightarrow> base s \<in> {JOB_STAT_PEND, JOB_STAT_PSUSP, JOB_STAT_EXIT, JOB_STAT_DONE} \<and> \<not> has s JOB_STAT_RESERVE"

inductive mbd_step :: "mbd \<times> job list \<Rightarrow> mbd \<times> job list \<Rightarrow> bool" where
  submit: "base (j_status j) \<in> {JOB_STAT_PEND, JOB_STAT_PSUSP} \<Longrightarrow> \<not> has (j_status j) JOB_STAT_RESERVE \<Longrightarrow> 0 \<le> j_numReq j \<Longrightarrow>
    mbd_step (m, js) (count_new j m, js @ [j])"
| place: "i < length js \<Longrightarrow> unplaced (j_status (js ! i)) \<Longrightarrow> mbd_step (m, js) (m, js[i := (js ! i)\<lparr>j_hosts := hs\<rparr>])"
| change: "i < length js \<Longrightarrow> legal (base (j_status (js ! i))) (base new) \<Longrightarrow>
    \<not> has (j_status (js ! i)) JOB_STAT_RESERVE \<Longrightarrow> \<not> has new JOB_STAT_RESERVE \<Longrightarrow> j' = (js ! i)\<lparr>j_status := new\<rparr> \<Longrightarrow>
    mbd_step (m, js) (updCounters j' (j_status (js ! i)) m, js[i := j'])"
| reserve: "i < length js \<Longrightarrow> j = js ! i \<Longrightarrow> reservable (j_status j) \<Longrightarrow> \<not> has (j_status j) JOB_STAT_RESERVE \<Longrightarrow>
    int (length (j_hosts j)) \<le> j_numReq j \<Longrightarrow> new = j_status j OR JOB_STAT_RESERVE \<Longrightarrow>
    mbd_step (m, js) (updResCounters j new m, js[i := j\<lparr>j_status := new\<rparr>])"
| release: "i < length js \<Longrightarrow> j = js ! i \<Longrightarrow> reservable (j_status j) \<Longrightarrow> has (j_status j) JOB_STAT_RESERVE \<Longrightarrow>
    new = j_status j AND NOT JOB_STAT_RESERVE \<Longrightarrow>
    mbd_step (m, js) (updResCounters j new m, js[i := j\<lparr>j_status := new\<rparr>])"
| switch: "i < length js \<Longrightarrow> j = (js ! i)\<lparr>j_numReq := r\<rparr> \<Longrightarrow> job_ok j \<Longrightarrow> switchable (j_status j) \<Longrightarrow>
    (has (j_status j) JOB_STAT_RESERVE \<Longrightarrow> reservable (j_status j)) \<Longrightarrow>
    updSwitchJob j (j_queue j) qtp (j_numReq (js ! i)) m = (j', m') \<Longrightarrow> mbd_step (m, js) (m', js[i := j'])"
| requeue: "i < length js \<Longrightarrow> base (j_status (js ! i)) \<in> {JOB_STAT_EXIT, JOB_STAT_DONE} \<Longrightarrow> new \<in> {JOB_STAT_PEND, JOB_STAT_PSUSP} \<Longrightarrow>
    j' = (js ! i)\<lparr>j_status := new, j_hosts := []\<rparr> \<Longrightarrow> mbd_step (m, js) (count_new j' m, js[i := j'])"
| remove: "base (j_status j) \<in> {JOB_STAT_EXIT, JOB_STAT_DONE} \<Longrightarrow> mbd_step (m, xs @ j # ys) (m, xs @ ys)"

definition zeroed :: "mbd \<Rightarrow> bool" where
  "zeroed m \<longleftrightarrow> cfg_ok m
   \<and> (\<forall>q. q_counts (m_queues m q) = (\<lambda>k. 0) \<and> q_uAcct (m_queues m q) = Map.empty)
   \<and> (\<forall>u. u_counts (m_users m u) = (\<lambda>k. 0)) \<and> (\<forall>h. h_counts (m_hosts m h) = (\<lambda>k. 0))"

definition fresh_mbd :: "mbd \<Rightarrow> bool" where
  "fresh_mbd m \<longleftrightarrow> \<not> m_replay m \<and> zeroed m"

definition reached :: "mbd \<Rightarrow> job list \<Rightarrow> bool" where
  "reached m js \<longleftrightarrow> (\<exists>m0. fresh_mbd m0 \<and> mbd_step\<^sup>*\<^sup>* (m0, []) (m, js))"

lemma zeroed_consistent: "zeroed m \<Longrightarrow> consistent m [] \<and> cfg_ok m"
  by (simp add: zeroed_def consistent_def count_defs)

lemma fresh_cinv: "fresh_mbd m \<Longrightarrow> cinv m []"
  by (simp add: fresh_mbd_def cinv_def zeroed_consistent)

lemma pend_calls:
  assumes "base (j_status j) \<in> {JOB_STAT_PEND, JOB_STAT_PSUSP}" "\<not> has (j_status j) JOB_STAT_RESERVE"
    and "j_numReq c = j_numReq j" "same_place j c"
  shows "calls (j\<lparr>j_status := JOB_STAT_EXIT\<rparr>) j m (upd_QU c (delta (j_numReq c) (j_numReq c) 0 0 0 0) m)"
proof (rule calls_I(3))
  let ?x = "j\<lparr>j_status := JOB_STAT_EXIT\<rparr>"
  have z: "contrib ?x k = 0 \<and> hcontrib ?x k = 0" for k by (rule finished_contrib) (simp add: base_mask job_stat_defs)
  have p: "contrib j = delta (j_numReq j) (j_numReq j) 0 0 0 0" "hcontrib j = hdelta 0 0 0 0 0"
    using assms(1,2) by (auto simp: contrib_def hcontrib_def Let_def)
  show "delta (j_numReq c) (j_numReq c) 0 0 0 0 k = contrib j k - contrib ?x k" for k using z p assms(3) by simp
  show "hcontrib j = hcontrib ?x"
  proof
    show "hcontrib j k = hcontrib ?x k" for k using z p by (cases k) (simp_all add: hdelta_def)
  qed
  show "same_place ?x c" using assms(4) by (simp add: same_place_def)
qed

lemma exit_job: "base JOB_STAT_EXIT = JOB_STAT_EXIT" "\<not> has JOB_STAT_EXIT JOB_STAT_RESERVE"
  by (simp_all add: base_mask has_def job_stat_defs)

lemma finished_cinv:
  assumes "cinv m js" "i < length js" "base (j_status (js ! i)) \<in> {JOB_STAT_EXIT, JOB_STAT_DONE}"
    and "base (j_status x) \<in> {JOB_STAT_EXIT, JOB_STAT_DONE}" "job_ok x"
  shows "cinv m (js[i := x])"
  using assms finished_contrib [of "js ! i"] finished_contrib [of x]
  by (auto simp: cinv_def list_all_update intro!: zero_replace)

lemma append_cinv:
  assumes "cinv m js" "base (j_status x) \<in> {JOB_STAT_EXIT, JOB_STAT_DONE}" "job_ok x"
  shows "cinv m (js @ [x])"
  using assms finished_contrib [of x] by (auto simp: cinv_def intro!: zero_append)

lemma count_new_cinv:
  assumes "cinv m (js[i := j\<lparr>j_status := JOB_STAT_EXIT\<rparr>])" "i < length js"
    and "base (j_status j) \<in> {JOB_STAT_PEND, JOB_STAT_PSUSP}" "\<not> has (j_status j) JOB_STAT_RESERVE" "0 \<le> j_numReq j"
  shows "cinv (count_new j m) (js[i := j])"
proof -
  have "cinv (count_new j m) (js[i := j\<lparr>j_status := JOB_STAT_EXIT\<rparr>, i := j])"
    by (rule calls_cinv [OF assms(1)])
      (use assms pend_calls [OF assms(3,4), of j m] in \<open>auto simp: same_place_def job_ok_def count_new_def cinv_def\<close>)
  then show ?thesis by simp
qed

lemma mbd_step_cinv:
  assumes "mbd_step (m, js) (m', js')" "cinv m js"
  shows "cinv m' js'"
  using assms
proof (cases rule: mbd_step.cases)
  case (submit j)
  have "cinv m (js @ [j\<lparr>j_status := JOB_STAT_EXIT\<rparr>])"
    by (rule append_cinv [OF assms(2)]) (use submit exit_job in \<open>simp_all add: job_ok_def\<close>)
  then have "cinv m ((js @ [j])[length js := j\<lparr>j_status := JOB_STAT_EXIT\<rparr>])" by simp
  from count_new_cinv [OF this] show ?thesis using submit by simp
next
  case (place i hs)
  let ?x = "(js ! i)\<lparr>j_hosts := hs\<rparr>"
  have z: "contrib ?x = contrib (js ! i)" "hcontrib (js ! i) k = 0" "hcontrib ?x k = 0" for k
    using place(4) by (cases k; auto simp: unplaced_def contrib_def hcontrib_def hdelta_def Let_def job_stat_defs)+
  have "job_ok ?x" using cinv_ok [OF assms(2) place(3)] place(4) by (simp add: job_ok_def unplaced_def)
  then show ?thesis using place assms(2) z replace_unplaced [of m js i ?x] by (simp add: cinv_def list_all_update)
next
  case (change i new j')
  have "job_ok j'" using cinv_ok [OF assms(2) change(3)] change(6,7) by (simp add: job_ok_def)
  then show ?thesis
    using calls_cinv [OF assms(2) change(3) updCounters_calls [OF change(4-6)]] change by (simp add: same_place_def)
next
  case (reserve i j new)
  have "job_ok (j\<lparr>j_status := new\<rparr>)" using cinv_ok [OF assms(2) reserve(3)] reserve(4-8) by (simp add: job_ok_def)
  then show ?thesis
    using calls_cinv [OF assms(2) reserve(3)] updResCounters_on [of j j m] reserve by (simp add: same_place_def)
next
  case (release i j new)
  have "job_ok (j\<lparr>j_status := new\<rparr>)" using cinv_ok [OF assms(2) release(3)] release(4-7) by (simp add: job_ok_def reserve_flag)
  then show ?thesis
    using calls_cinv [OF assms(2) release(3)] updResCounters_off [of j j m] release by (simp add: same_place_def)
next
  case (switch i j r qtp j')
  then show ?thesis using updSwitchJob_cinv [OF assms(2) switch(2), of r qtp j' m'] by simp
next
  case (requeue i new j')
  have b: "base (j_status j') \<in> {JOB_STAT_PEND, JOB_STAT_PSUSP}" "\<not> has (j_status j') JOB_STAT_RESERVE"
    using requeue(5,6) by (auto simp: base_mask has_def job_stat_defs)
  have n: "0 \<le> j_numReq j'" using cinv_ok [OF assms(2) requeue(3)] requeue(6) by (simp add: job_ok_def)
  have "cinv m (js[i := j'\<lparr>j_status := JOB_STAT_EXIT\<rparr>])"
    by (rule finished_cinv [OF assms(2) requeue(3,4)]) (use exit_job n in \<open>simp_all add: job_ok_def\<close>)
  from count_new_cinv [OF this requeue(3) b n] show ?thesis using requeue(1,2) by simp
next
  case (remove j xs ys)
  then show ?thesis using assms(2) finished_contrib [of j] by (auto simp: cinv_def consistent_def cong: if_cong)
qed

lemma reached_cinv:
  assumes "reached m js"
  shows "cinv m js"
proof -
  obtain m0 where m0: "fresh_mbd m0" "mbd_step\<^sup>*\<^sup>* (m0, []) (m, js)" using assms by (auto simp: reached_def)
  from m0(2) show ?thesis
    by (induction "(m, js)" arbitrary: m js rule: rtranclp_induct) (use fresh_cinv [OF m0(1)] mbd_step_cinv in \<open>auto split: prod.splits\<close>)
qed

subsection \<open>Restart\<close>

definition unfinished :: "job \<Rightarrow> bool" where
  "unfinished j \<longleftrightarrow> base (j_status j) \<in> {JOB_STAT_PEND, JOB_STAT_PSUSP, JOB_STAT_RUN, JOB_STAT_SSUSP, JOB_STAT_USUSP}"

lemma unfinished_contrib: "\<not> unfinished j \<Longrightarrow> contrib j k = 0 \<and> hcontrib j k = 0"
  by (cases k) (auto simp: unfinished_def contrib_def hcontrib_def hdelta_def Let_def)

lemma exclusive_consistent:
  "consistent (m\<lparr>m_hosts := \<lambda>h. if P h then (m_hosts m h)\<lparr>h_exclusive := True\<rparr> else m_hosts m h\<rparr>) js = consistent m js"
  "same_config m0 (m\<lparr>m_hosts := \<lambda>h. if P h then (m_hosts m h)\<lparr>h_exclusive := True\<rparr> else m_hosts m h\<rparr>) = same_config m0 m"
  by (auto simp: consistent_def count_defs owners_def aowners_def same_config_def)

lemma recount_job_consistent:
  assumes "consistent m js" "cfg_ok m" "list_all job_ok js"
    and "unfinished j" "\<not> has (j_status j) JOB_STAT_RESERVE" "0 \<le> j_numReq j"
  shows "consistent (recount_job j m) (js @ [j]) \<and> same_config m (recount_job j m)"
proof -
  let ?x = "j\<lparr>j_status := JOB_STAT_EXIT\<rparr>" and ?p = "j\<lparr>j_status := JOB_STAT_PEND\<rparr>"
  let ?m1 = "upd_QU ?p (delta (j_numReq j) (j_numReq j) 0 0 0 0) m"
  let ?n = "length js"
  have st: "base JOB_STAT_PEND = JOB_STAT_PEND" "\<not> has JOB_STAT_PEND JOB_STAT_RESERVE"
    by (simp_all add: base_mask has_def job_stat_defs)
  have x: "consistent m (js @ [?x])" by (rule zero_append [OF assms(1)]) (simp_all add: finished_contrib exit_job)
  have "calls ?x ?p m ?m1" using pend_calls [of ?p ?p m] st by (simp add: same_place_def)
  then have p: "consistent ?m1 (js @ [?p]) \<and> same_config m ?m1 \<and> cfg_ok ?m1 \<and> list_all job_ok (js @ [?p])"
    using calls_consistent [of "js @ [?x]" ?n ?p m ?m1] x assms st exit_job by (simp add: job_ok_def same_place_def)
  show ?thesis
  proof (cases "has (j_status j) JOB_STAT_PEND")
    case True
    have "base (j_status j) = JOB_STAT_PEND" using True assms(4) has_states [of "j_status j"]
      by (auto simp: unfinished_def states_def job_stat_defs)
    then have "contrib j = contrib ?p" "hcontrib j = hcontrib ?p" "owners ?m1 j = owners ?m1 ?p" "aowners ?m1 j = aowners ?m1 ?p"
      using assms(5) st by (simp_all add: contrib_def hcontrib_def owners_def aowners_def Let_def)
    then show ?thesis using p True by (simp add: recount_job_def Let_def consistent_def)
  next
    case False
    have "legal JOB_STAT_PEND (base (j_status j))" using assms(4) by (auto simp: legal_def unfinished_def job_stat_defs)
    then have "calls ?p j ?m1 (updCounters j JOB_STAT_PEND ?m1)"
      using updCounters_calls [of ?p "j_status j" ?m1] st assms(5) by simp
    then have "consistent (updCounters j JOB_STAT_PEND ?m1) (js @ [j]) \<and> same_config ?m1 (updCounters j JOB_STAT_PEND ?m1)"
      using calls_consistent [of "js @ [?p]" ?n j ?m1] p assms(5,6) by (simp add: job_ok_def same_place_def)
    then show ?thesis using p False same_config_trans by (auto simp: recount_job_def Let_def exclusive_consistent)
  qed
qed

lemma recount_consistent:
  assumes "consistent m js" "cfg_ok m" "list_all job_ok js"
    and "list_all (\<lambda>j. unfinished j \<and> \<not> has (j_status j) JOB_STAT_RESERVE \<and> 0 \<le> j_numReq j) ks"
  shows "consistent (recount ks m) (js @ ks) \<and> same_config m (recount ks m)"
  using assms
proof (induction ks arbitrary: m js)
  case (Cons j ks)
  have c: "consistent (recount_job j m) (js @ [j]) \<and> same_config m (recount_job j m)"
    using recount_job_consistent [of m js j] Cons.prems by simp
  have "consistent (recount ks (recount_job j m)) ((js @ [j]) @ ks) \<and> same_config (recount_job j m) (recount ks (recount_job j m))"
    by (rule Cons.IH) (use c Cons.prems same_config_cfg in \<open>auto simp: job_ok_def\<close>)
  then show ?case using c same_config_trans by (auto simp: recount_def)
qed (simp add: recount_def)

lemma sum_list_filter_mset:
  assumes "mset ks = mset (filter P js)" "\<And>j. j \<in> set js \<Longrightarrow> \<not> P j \<Longrightarrow> f j = (0 :: int)"
  shows "(\<Sum>j\<leftarrow>ks. f j) = (\<Sum>j\<leftarrow>js. f j)"
proof -
  have "(\<Sum>j\<leftarrow>ks. f j) = (\<Sum>j\<leftarrow>filter P js. f j)"
    using assms(1) by (metis mset_map sum_mset_sum_list)
  also have "\<dots> = (\<Sum>j\<leftarrow>js. f j)" using assms(2) by (induction js) auto
  finally show ?thesis .
qed

lemma consistent_counts:
  assumes "consistent m js" "consistent m' ks" "mset ks = mset (filter unfinished js)"
    and "same_config (m\<lparr>m_replay := b\<rparr>) m'"
  shows "qcount m' = qcount m" "ucount m' = ucount m"
    "k \<noteq> NumJobs \<Longrightarrow> acount m' q u k = acount m q u k"
    "\<not> h_remote (m_hosts m h) \<Longrightarrow> k \<noteq> NumPEND \<Longrightarrow> hcount m' h k = hcount m h k"
proof -
  have o: "owners m' j = owners m j" "aowners m' j = aowners m j" "h_remote (m_hosts m' h) = h_remote (m_hosts m h)" for j
    using assms(4) by (simp_all add: same_config_def owners_def aowners_def)
  note S = sum_list_filter_mset [OF assms(3)]
  show "qcount m' = qcount m" "ucount m' = ucount m"
    using assms(1,2) by (simp_all add: fun_eq_iff consistent_def o S unfinished_contrib)
  show "acount m' q u k = acount m q u k" if "k \<noteq> NumJobs"
    using assms(1,2) that by (simp add: consistent_def o S unfinished_contrib)
  show "hcount m' h k = hcount m h k" if "\<not> h_remote (m_hosts m h)" "k \<noteq> NumPEND"
    using assms(1,2) that by (simp add: consistent_def o S unfinished_contrib)
qed

section \<open>An example\<close>

text \<open>A daemon with empty counters, and a job of two slots that is submitted and then started.\<close>

definition eg_mbd :: mbd where
  "eg_mbd =
     \<lparr>m_queues = (\<lambda>q. \<lparr>q_counts = (\<lambda>k. 0), q_maxJobs = 8, q_uJobLimit = 4, q_reason = 0, q_hostReason = (\<lambda>h. 0),
        q_uAcct = Map.empty, q_hAcct = Map.empty\<rparr>),
      m_users = (\<lambda>u. \<lparr>u_counts = (\<lambda>k. 0), u_maxJobs = 4, u_reason = 0, u_hostReason = (\<lambda>h. 0), u_pLimited = False,
        u_hAcct = Map.empty, u_numSlots = 4, u_isGroup = (u = ''staff''), u_groups = (if u = ''ann'' then [''staff''] else []),
        u_ancestors = (if u = ''ann'' then [''staff''] else [])\<rparr>),
      m_hosts = (\<lambda>h. \<lparr>h_counts = (\<lambda>k. 0), h_maxJobs = 2, h_uJobLimit = 2, h_uAcct = Map.empty, h_remote = False,
        h_full = False, h_exclusive = False, h_reason = 0\<rparr>),
      m_replay = False, m_garbage = 17\<rparr>"

definition eg_job :: job where
  "eg_job = \<lparr>j_queue = ''normal'', j_user = ''ann'', j_hosts = [''h1'', ''h1''], j_numReq = 2,
     j_status = JOB_STAT_PEND, j_exclusive = False\<rparr>"

definition eg_run :: job where
  "eg_run = eg_job\<lparr>j_status := JOB_STAT_RUN\<rparr>"

definition eg_started :: mbd where
  "eg_started = updCounters eg_run JOB_STAT_PEND (count_new eg_job eg_mbd)"

lemmas eg_job_defs = eg_job_def eg_run_def

lemma eg_zeroed: "zeroed eg_mbd" "\<not> m_replay eg_mbd"
  by (simp_all add: zeroed_def eg_mbd_def cfg_ok_def)

lemma eg_states: "base JOB_STAT_RUN = JOB_STAT_RUN" "base JOB_STAT_PEND = JOB_STAT_PEND"
  "\<not> has JOB_STAT_RUN JOB_STAT_RESERVE" "\<not> has JOB_STAT_PEND JOB_STAT_RESERVE"
  by (simp_all add: base_mask has_def job_stat_defs)

lemma eg_reached: "reached eg_started [eg_run]"
proof -
  have "mbd_step (eg_mbd, []) (count_new eg_job eg_mbd, [] @ [eg_job])"
    by (rule mbd_step.submit) (simp_all add: eg_job_def eg_states)
  moreover have "mbd_step (count_new eg_job eg_mbd, [eg_job]) (updCounters eg_run (j_status ([eg_job] ! 0)) (count_new eg_job eg_mbd), [eg_job][0 := eg_run])"
    by (rule mbd_step.change [where new = JOB_STAT_RUN]) (simp_all add: eg_job_defs eg_states legal_def)
  ultimately have "mbd_step\<^sup>*\<^sup>* (eg_mbd, []) (eg_started, [eg_run])"
    by (simp add: eg_started_def eg_job_def)
  then show ?thesis using eg_zeroed unfolding reached_def fresh_mbd_def by blast
qed

lemma eg_config: "same_config eg_mbd eg_started"
proof -
  have "recount [eg_run] eg_mbd = eg_started"
    using eg_zeroed(2) by (simp add: recount_def recount_job_def eg_started_def count_new_def eg_job_defs) (simp add: has_def job_stat_defs)
  moreover have "same_config eg_mbd (recount [eg_run] eg_mbd)"
    using recount_consistent [of eg_mbd "[]" "[eg_run]"] zeroed_consistent [OF eg_zeroed(1)]
    by (simp add: eg_job_defs unfinished_def eg_states)
  ultimately show ?thesis by simp
qed

section \<open>Properties\<close>







end
