(* ===== verification/DList.thy ===== *)
theory DList
  imports Interfaces "HOL-Library.Monad_Syntax"
begin

text \<open>
  The doubly linked lists of lsf/intlib/list.c on an explicit store.  A list is a ring of cells
  through its header; the header also holds the number of entries and, when observers are
  allowed, the list of observers that are told of every entry that enters or leaves.  Reading
  or writing a cell that is not allocated is a fault (\<open>None\<close>).  The loops over a list
  may not end on a store that is not a ring, so they are partial functions; that they end
  on the lists of the program is proved.
\<close>

section \<open>Store\<close>

record LIST_ENTRY_T =
  e_forw :: pointer
  e_back :: pointer

record LIST_T =
  numEnts :: int
  allowObservers :: bool
  observers :: pointer

datatype LIST_EVENT_T = LIST_EVENT_ENTER pointer | LIST_EVENT_LEAVE pointer

text \<open>
  An observer: the \<open>select\<close> function, if there is one, whether it has callbacks, and the list it
  is attached to (0 if none).  A callback that is called is recorded in \<open>calls\<close>.
\<close>

record LIST_OBSERVER_T =
  o_select :: "(LIST_EVENT_T \<Rightarrow> bool) option"
  o_enter :: bool
  o_leave :: bool
  o_list :: pointer

record LIST_ITERATOR_T =
  it_list :: pointer
  curEnt :: pointer

record store =
  cells :: "pointer \<Rightarrow> LIST_ENTRY_T option"
  lists :: "pointer \<Rightarrow> LIST_T option"
  obs :: "pointer \<Rightarrow> LIST_OBSERVER_T option"
  called :: "(pointer \<times> LIST_EVENT_T) list"

definition get_forw :: "pointer \<Rightarrow> store \<Rightarrow> pointer option" where
  "get_forw p s = map_option e_forw (cells s p)"

definition get_back :: "pointer \<Rightarrow> store \<Rightarrow> pointer option" where
  "get_back p s = map_option e_back (cells s p)"

definition set_forw :: "pointer \<Rightarrow> pointer \<Rightarrow> store \<Rightarrow> store option" where
  "set_forw p q s = map_option (\<lambda>c. s\<lparr>cells := (cells s)(p \<mapsto> c\<lparr>e_forw := q\<rparr>)\<rparr>) (cells s p)"

definition set_back :: "pointer \<Rightarrow> pointer \<Rightarrow> store \<Rightarrow> store option" where
  "set_back p q s = map_option (\<lambda>c. s\<lparr>cells := (cells s)(p \<mapsto> c\<lparr>e_back := q\<rparr>)\<rparr>) (cells s p)"

definition free_cell :: "pointer \<Rightarrow> store \<Rightarrow> store option" where
  "free_cell p s =
     (if cells s p = None then None
      else Some (s\<lparr>cells := (cells s)(p := None), lists := (lists s)(p := None), obs := (obs s)(p := None)\<rparr>))"

definition upd_list :: "pointer \<Rightarrow> (LIST_T \<Rightarrow> LIST_T) \<Rightarrow> store \<Rightarrow> store option" where
  "upd_list l f s = map_option (\<lambda>i. s\<lparr>lists := (lists s)(l \<mapsto> f i)\<rparr>) (lists s l)"

section \<open>Operations\<close>

text \<open>\<open>LIST_IS_EMPTY\<close>, creation at a new address \<open>p\<close> (NULL when there is no memory).\<close>

definition LIST_IS_EMPTY :: "pointer \<Rightarrow> store \<Rightarrow> bool option" where
  "LIST_IS_EMPTY l s = do { f \<leftarrow> get_forw l s; Some (f = l) }"

definition listCreate :: "pointer \<Rightarrow> store \<Rightarrow> pointer \<times> store" where
  "listCreate p s =
     (if p = 0 then (0, s)
      else (p, s\<lparr>cells := (cells s)(p \<mapsto> \<lparr>e_forw = p, e_back = p\<rparr>),
                 lists := (lists s)(p \<mapsto> \<lparr>numEnts = 0, allowObservers = False, observers = 0\<rparr>)\<rparr>))"

text \<open>Iterators.\<close>

definition listIteratorAttach :: "pointer \<Rightarrow> store \<Rightarrow> LIST_ITERATOR_T option" where
  "listIteratorAttach l s = do { f \<leftarrow> get_forw l s; Some \<lparr>it_list = l, curEnt = f\<rparr> }"

definition listIteratorGetCurEntry :: "LIST_ITERATOR_T \<Rightarrow> pointer" where
  "listIteratorGetCurEntry iter = (if curEnt iter = it_list iter then 0 else curEnt iter)"

definition listIteratorIsEndOfList :: "LIST_ITERATOR_T \<Rightarrow> bool" where
  "listIteratorIsEndOfList iter \<longleftrightarrow> curEnt iter = it_list iter"

definition listIteratorNext :: "LIST_ITERATOR_T \<Rightarrow> store \<Rightarrow> LIST_ITERATOR_T option" where
  "listIteratorNext iter s = do { f \<leftarrow> get_forw (curEnt iter) s; Some (iter\<lparr>curEnt := f\<rparr>) }"

definition listIteratorPrev :: "LIST_ITERATOR_T \<Rightarrow> store \<Rightarrow> LIST_ITERATOR_T option" where
  "listIteratorPrev iter s = do { b \<leftarrow> get_back (curEnt iter) s; Some (iter\<lparr>curEnt := b\<rparr>) }"

text \<open>
  The loop of the traversals: \<open>body\<close> is run on every entry, with the store and a value it may
  change, and says whether to go on.
\<close>

partial_function (option) traverse ::
  "bool \<Rightarrow> (pointer \<Rightarrow> store \<Rightarrow> 'a \<Rightarrow> (bool \<times> store \<times> 'a) option) \<Rightarrow> LIST_ITERATOR_T \<Rightarrow> store \<Rightarrow> 'a \<Rightarrow> (store \<times> 'a) option" where
  "traverse fwd body iter s a =
     (let e = listIteratorGetCurEntry iter in
      if e = 0 then Some (s, a)
      else do {
        (go_on, s, a) \<leftarrow> body e s a;
        if \<not> go_on then Some (s, a)
        else do {
          iter \<leftarrow> if fwd then listIteratorNext iter s else listIteratorPrev iter s;
          traverse fwd body iter s a } })"

text \<open>
  Notification: the callback of every observer whose \<open>select\<close> accepts the event.  The case of an
  unknown event type cannot arise.
\<close>

definition tell_one :: "LIST_EVENT_T \<Rightarrow> pointer \<Rightarrow> store \<Rightarrow> store option" where
  "tell_one event p s =
     do { ob \<leftarrow> obs s p;
          let selected = (case o_select ob of None \<Rightarrow> True | Some f \<Rightarrow> f event);
              cb = (case event of LIST_EVENT_ENTER e \<Rightarrow> o_enter ob | LIST_EVENT_LEAVE e \<Rightarrow> o_leave ob) in
          Some (if selected \<and> cb then s\<lparr>called := called s @ [(p, event)]\<rparr> else s) }"

partial_function (option) tell_loop :: "LIST_EVENT_T \<Rightarrow> LIST_ITERATOR_T \<Rightarrow> store \<Rightarrow> store option" where
  "tell_loop event iter s =
     (if listIteratorIsEndOfList iter then Some s
      else do { s \<leftarrow> tell_one event (listIteratorGetCurEntry iter) s;
                iter \<leftarrow> listIteratorNext iter s;
                tell_loop event iter s })"

definition listNotifyObservers :: "pointer \<Rightarrow> LIST_EVENT_T \<Rightarrow> store \<Rightarrow> store option" where
  "listNotifyObservers l event s =
     do { i \<leftarrow> lists s l; iter \<leftarrow> listIteratorAttach (observers i) s; tell_loop event iter s }"

definition notify_if :: "pointer \<Rightarrow> LIST_EVENT_T \<Rightarrow> store \<Rightarrow> store option" where
  "notify_if l event s =
     do { i \<leftarrow> lists s l;
          if \<not> allowObservers i then Some s
          else do { e \<leftarrow> LIST_IS_EMPTY (observers i) s; if e then Some s else listNotifyObservers l event s } }"

definition listInsertEntryBefore :: "pointer \<Rightarrow> pointer \<Rightarrow> pointer \<Rightarrow> store \<Rightarrow> store option" where
  "listInsertEntryBefore l succ entry s =
     do { s \<leftarrow> set_forw entry succ s;
          b \<leftarrow> get_back succ s;
          s \<leftarrow> set_back entry b s;
          b \<leftarrow> get_back succ s;
          s \<leftarrow> set_forw b entry s;
          s \<leftarrow> set_back succ entry s;
          s \<leftarrow> notify_if l (LIST_EVENT_ENTER entry) s;
          upd_list l (\<lambda>i. i\<lparr>numEnts := numEnts i + 1\<rparr>) s }"

definition listInsertEntryAfter :: "pointer \<Rightarrow> pointer \<Rightarrow> pointer \<Rightarrow> store \<Rightarrow> store option" where
  "listInsertEntryAfter l pred entry s = do { f \<leftarrow> get_forw pred s; listInsertEntryBefore l f entry s }"

definition listInsertEntryAtFront :: "pointer \<Rightarrow> pointer \<Rightarrow> store \<Rightarrow> store option" where
  "listInsertEntryAtFront l entry s = do { f \<leftarrow> get_forw l s; listInsertEntryBefore l f entry s }"

definition listInsertEntryAtBack :: "pointer \<Rightarrow> pointer \<Rightarrow> store \<Rightarrow> store option" where
  "listInsertEntryAtBack l entry s = listInsertEntryBefore l l entry s"

definition listRemoveEntry :: "pointer \<Rightarrow> pointer \<Rightarrow> store \<Rightarrow> store option" where
  "listRemoveEntry l entry s =
     do { b \<leftarrow> get_back entry s;
          f \<leftarrow> get_forw entry s;
          if b = 0 \<or> f = 0 then Some s
          else do {
            s \<leftarrow> set_forw b f s;
            f \<leftarrow> get_forw entry s;
            b \<leftarrow> get_back entry s;
            s \<leftarrow> set_back f b s;
            s \<leftarrow> notify_if l (LIST_EVENT_LEAVE entry) s;
            upd_list l (\<lambda>i. i\<lparr>numEnts := numEnts i - 1\<rparr>) s } }"

definition listGetFrontEntry :: "pointer \<Rightarrow> store \<Rightarrow> pointer option" where
  "listGetFrontEntry l s = do { e \<leftarrow> LIST_IS_EMPTY l s; if e then Some 0 else get_forw l s }"

definition listGetBackEntry :: "pointer \<Rightarrow> store \<Rightarrow> pointer option" where
  "listGetBackEntry l s = do { e \<leftarrow> LIST_IS_EMPTY l s; if e then Some 0 else get_back l s }"

text \<open>The unchecked operations without a count.\<close>

definition inList :: "pointer \<Rightarrow> pointer \<Rightarrow> store \<Rightarrow> store option" where
  "inList pred entry s =
     do { s \<leftarrow> set_forw entry pred s;
          b \<leftarrow> get_back pred s;
          s \<leftarrow> set_back entry b s;
          b \<leftarrow> get_back pred s;
          s \<leftarrow> set_forw b entry s;
          set_back pred entry s }"

definition offList :: "pointer \<Rightarrow> store \<Rightarrow> store option" where
  "offList entry s =
     do { b \<leftarrow> get_back entry s;
          f \<leftarrow> get_forw entry s;
          s \<leftarrow> set_forw b f s;
          f \<leftarrow> get_forw entry s;
          b \<leftarrow> get_back entry s;
          set_back f b s }"

text \<open>Setting an iterator to an entry, which is looked for in the list if \<open>validateEnt\<close> is set.\<close>

partial_function (option) find_entry :: "pointer \<Rightarrow> LIST_ITERATOR_T \<Rightarrow> store \<Rightarrow> bool option" where
  "find_entry entry iter s =
     (if listIteratorIsEndOfList iter then Some False
      else if listIteratorGetCurEntry iter = entry then Some True
      else do { iter \<leftarrow> listIteratorNext iter s; find_entry entry iter s })"

definition listIteratorSetCurEntry :: "LIST_ITERATOR_T \<Rightarrow> pointer \<Rightarrow> bool \<Rightarrow> store \<Rightarrow> (int \<times> LIST_ITERATOR_T) option" where
  "listIteratorSetCurEntry iter entry validateEnt s =
     (if validateEnt
      then do { f \<leftarrow> listGetFrontEntry (it_list iter) s;
                found \<leftarrow> find_entry entry (iter\<lparr>curEnt := f\<rparr>) s;
                Some (if found then (0, iter\<lparr>curEnt := entry\<rparr>) else (-1, iter)) }
      else Some (0, iter\<lparr>curEnt := entry\<rparr>))"

text \<open>Search, and the traversals in either direction.\<close>

definition listSearchEntry :: "pointer \<Rightarrow> (pointer \<Rightarrow> bool) \<Rightarrow> store \<Rightarrow> pointer option" where
  "listSearchEntry l equal s =
     do { iter \<leftarrow> listIteratorAttach l s;
          (s, r) \<leftarrow> traverse True (\<lambda>e s r. Some (if equal e then (False, s, e) else (True, s, r))) iter s 0;
          Some r }"

definition start_iter :: "pointer \<Rightarrow> bool \<Rightarrow> store \<Rightarrow> LIST_ITERATOR_T option" where
  "start_iter l backward s =
     do { iter \<leftarrow> listIteratorAttach l s;
          if backward then do { e \<leftarrow> listGetBackEntry l s; Some (iter\<lparr>curEnt := e\<rparr>) } else Some iter }"

definition list2Vector :: "pointer \<Rightarrow> bool \<Rightarrow> store \<Rightarrow> pointer list option" where
  "list2Vector l backward s =
     do { iter \<leftarrow> start_iter l backward s;
          (s, v) \<leftarrow> traverse (\<not> backward) (\<lambda>e s v. Some (True, s, v @ [e])) iter s [];
          Some v }"

definition cat_one :: "int \<Rightarrow> (pointer \<Rightarrow> string option) \<Rightarrow> pointer \<Rightarrow> store \<Rightarrow> string \<Rightarrow> (bool \<times> store \<times> string) option" where
  "cat_one bufferSize catFunc e s buffer =
     Some (case catFunc e of
             None \<Rightarrow> (True, s, buffer)
           | Some str \<Rightarrow>
               if int (length buffer) + int (length str) > (bufferSize - 1) mod 2 ^ 64 then (False, s, buffer)
               else (True, s, buffer @ str))"

definition listCat :: "pointer \<Rightarrow> bool \<Rightarrow> int \<Rightarrow> (pointer \<Rightarrow> string option) \<Rightarrow> store \<Rightarrow> string option" where
  "listCat l backward bufferSize catFunc s =
     do { iter \<leftarrow> start_iter l backward s;
          (s, buffer) \<leftarrow> traverse (\<not> backward) (cat_one bufferSize catFunc) iter s [];
          Some buffer }"

text \<open>
  A copy of the list: \<open>ps\<close> are the addresses the allocator hands out, the first of them for the
  header.
\<close>

definition dup_one :: "pointer \<Rightarrow> pointer \<Rightarrow> store \<Rightarrow> pointer list \<Rightarrow> (bool \<times> store \<times> pointer list) option" where
  "dup_one newList e s ps =
     do { c \<leftarrow> cells s e;
          (case ps of
             [] \<Rightarrow> None
           | p # ps \<Rightarrow>
               do { s \<leftarrow> listInsertEntryAtBack newList p (s\<lparr>cells := (cells s)(p \<mapsto> c)\<rparr>);
                    Some (True, s, ps) }) }"

definition listDup :: "pointer \<Rightarrow> pointer list \<Rightarrow> store \<Rightarrow> (pointer \<times> store) option" where
  "listDup l ps s =
     (let (newList, s) = listCreate (case ps of [] \<Rightarrow> 0 | p # _ \<Rightarrow> p) s in
      if newList = 0 then Some (0, s)
      else do {
        iter \<leftarrow> listIteratorAttach l s;
        (s, _) \<leftarrow> traverse True (dup_one newList) iter s (tl ps);
        Some (newList, s) })"

text \<open>Observers.\<close>

definition listAllowObservers :: "pointer \<Rightarrow> pointer \<Rightarrow> store \<Rightarrow> (int \<times> store) option" where
  "listAllowObservers l p s =
     do { i \<leftarrow> lists s l;
          if allowObservers i then Some (0, s)
          else do {
            s \<leftarrow> upd_list l (\<lambda>i. i\<lparr>allowObservers := True\<rparr>) s;
            let (q, s) = listCreate p s in
            do { s \<leftarrow> upd_list l (\<lambda>i. i\<lparr>observers := q\<rparr>) s; Some (if q = 0 then -1 else 0, s) } } }"

definition listObserverAttach :: "pointer \<Rightarrow> pointer \<Rightarrow> store \<Rightarrow> (int \<times> store) option" where
  "listObserverAttach observer l s =
     do { i \<leftarrow> lists s l;
          if \<not> allowObservers i then Some (-1, s)
          else do {
            s \<leftarrow> listInsertEntryBefore (observers i) (observers i) observer s;
            ob \<leftarrow> obs s observer;
            Some (0, s\<lparr>obs := (obs s)(observer \<mapsto> ob\<lparr>o_list := l\<rparr>)\<rparr>) } }"

definition listObserverDetach :: "pointer \<Rightarrow> store \<Rightarrow> store option" where
  "listObserverDetach observer s =
     do { ob \<leftarrow> obs s observer;
          s \<leftarrow> (if o_list ob \<noteq> 0 then listRemoveEntry (o_list ob) observer s else Some s);
          ob \<leftarrow> obs s observer;
          Some (s\<lparr>obs := (obs s)(observer \<mapsto> ob\<lparr>o_list := 0\<rparr>)\<rparr>) }"

text \<open>Destruction; \<open>destroy\<close> is the function called on each entry.\<close>

partial_function (option) destroy_loop :: "(pointer \<Rightarrow> store \<Rightarrow> store option) \<Rightarrow> pointer \<Rightarrow> store \<Rightarrow> store option" where
  "destroy_loop destroy l s =
     do { e \<leftarrow> LIST_IS_EMPTY l s;
          if e then Some s
          else do {
            entry \<leftarrow> get_forw l s;
            s \<leftarrow> listRemoveEntry l entry s;
            s \<leftarrow> destroy entry s;
            destroy_loop destroy l s } }"

partial_function (option) listDestroy :: "(pointer \<Rightarrow> store \<Rightarrow> store option) \<Rightarrow> pointer \<Rightarrow> store \<Rightarrow> store option" where
  "listDestroy destroy l s =
     do { s \<leftarrow> destroy_loop destroy l s;
          i \<leftarrow> lists s l;
          s \<leftarrow> (if allowObservers i then listDestroy free_cell (observers i) s else Some s);
          free_cell l s }"

section \<open>Rings\<close>

text \<open>
  \<open>links a xs b\<close> are the pairs of neighbours on the way from \<open>a\<close> over \<open>xs\<close> to \<open>b\<close>.  A list with
  header \<open>l\<close> holds \<open>xs\<close> when the neighbours on the way from \<open>l\<close> back to \<open>l\<close> point to each other.
\<close>

definition links :: "pointer \<Rightarrow> pointer list \<Rightarrow> pointer \<Rightarrow> (pointer \<times> pointer) list" where
  "links a xs b = zip (a # xs) (xs @ [b])"

definition linked :: "store \<Rightarrow> pointer \<Rightarrow> pointer \<Rightarrow> bool" where
  "linked s p q \<longleftrightarrow> get_forw p s = Some q \<and> get_back q s = Some p"

definition ring :: "store \<Rightarrow> pointer \<Rightarrow> pointer list \<Rightarrow> bool" where
  "ring s l xs \<longleftrightarrow> distinct (l # xs) \<and> 0 \<notin> set (l # xs) \<and> (\<forall>p q. (p, q) \<in> set (links l xs l) \<longrightarrow> linked s p q)"

lemma links_simps [simp]:
  "links a [] b = [(a, b)]" "links a (x # xs) b = (a, x) # links x xs b"
  by (simp_all add: links_def)

lemma links_sets: "fst ` set (links a xs b) = set (a # xs)" "snd ` set (links a xs b) = set (xs @ [b])"
  by (induction xs arbitrary: a) auto

text \<open>The links before, at and after a place of the list.\<close>

definition before :: "pointer \<Rightarrow> pointer list \<Rightarrow> (pointer \<times> pointer) list" where
  "before a pre = zip (a # pre) pre"

definition after :: "pointer list \<Rightarrow> pointer \<Rightarrow> (pointer \<times> pointer) list" where
  "after post b = zip post (tl (post @ [b]))"

lemma links_split: "links a (pre @ post) b = before a pre @ (last (a # pre), hd (post @ [b])) # after post b"
proof (induction pre arbitrary: a)
  case Nil
  show ?case by (cases post) (simp_all add: before_def after_def links_def)
qed (simp add: before_def)

lemma links_insert:
  "links a (pre @ e # post) b = before a pre @ (last (a # pre), e) # (e, hd (post @ [b])) # after post b"
  using links_split [of a pre "e # post" b] links_split [of e "[]" post b]
  by (cases post) (simp_all add: after_def links_def before_def)

lemma before_sets: "fst ` set (before a pre) = set (butlast (a # pre))" "snd ` set (before a pre) = set pre"
proof -
  have "map fst (before a pre) = butlast (a # pre)" "map snd (before a pre) = pre"
    by (simp_all add: before_def map_fst_zip_take map_snd_zip_take butlast_conv_take)
  then show "fst ` set (before a pre) = set (butlast (a # pre))" "snd ` set (before a pre) = set pre"
    by (metis list.set_map)+
qed

lemma after_sets: "fst ` set (after post b) = set post" "snd ` set (after post b) = set (tl (post @ [b]))"
proof -
  have "map fst (after post b) = post" "map snd (after post b) = tl (post @ [b])"
    by (simp_all add: after_def map_fst_zip_take map_snd_zip_take)
  then show "fst ` set (after post b) = set post" "snd ` set (after post b) = set (tl (post @ [b]))"
    by (metis list.set_map)+
qed

lemma place_distinct:
  assumes "distinct (l # pre @ post)"
  shows "last (l # pre) \<notin> set (butlast (l # pre))" "last (l # pre) \<notin> set post"
    "hd (post @ [l]) \<notin> set pre" "hd (post @ [l]) \<notin> set (tl (post @ [l]))"
proof -
  have "distinct (butlast (l # pre) @ [last (l # pre)])" using assms by (simp del: butlast.simps last.simps)
  then show "last (l # pre) \<notin> set (butlast (l # pre))" by simp
  show "last (l # pre) \<notin> set post" using assms by (cases pre rule: rev_cases) auto
  show "hd (post @ [l]) \<notin> set pre" "hd (post @ [l]) \<notin> set (tl (post @ [l]))" using assms by (cases post; auto)+
qed

text \<open>A pointer read at any link other than the one at the place is unchanged by an update there.\<close>

lemma link_untouched:
  assumes "distinct (l # pre @ post)" "(x, y) \<in> set (before l pre) \<union> set (after post l)"
  shows "x \<noteq> last (l # pre) \<and> y \<noteq> hd (post @ [l]) \<and> x \<in> set (l # pre @ post) \<and> y \<in> set (l # pre @ post)"
proof -
  note P = place_distinct [OF assms(1)]
  from assms(2) consider (b) "(x, y) \<in> set (before l pre)" | (a) "(x, y) \<in> set (after post l)" by blast
  then show ?thesis
  proof cases
    case b
    have x: "x \<in> set (butlast (l # pre))" and y: "y \<in> set pre"
      using imageI [OF b, of fst] imageI [OF b, of snd] before_sets [of l pre] by (simp_all del: butlast.simps)
    have "x \<in> set (l # pre)" using x by (rule in_set_butlastD)
    moreover have "x \<noteq> last (l # pre)" using x P(1) by metis
    moreover have "y \<noteq> hd (post @ [l])" using y P(3) by metis
    ultimately show ?thesis using y by auto
  next
    case a
    have x: "x \<in> set post" and y: "y \<in> set (tl (post @ [l]))"
      using imageI [OF a, of fst] imageI [OF a, of snd] after_sets [of post l] by simp_all
    have "y \<in> set (post @ [l])" using y by (rule list.set_sel(2) [rotated]) simp
    moreover have "x \<noteq> last (l # pre)" using x P(2) by metis
    moreover have "y \<noteq> hd (post @ [l])" using y P(4) by metis
    ultimately show ?thesis using x by auto
  qed
qed

lemma place_in: "last (l # pre) \<in> set (l # pre @ post)" "hd (post @ [l]) \<in> set (l # pre @ post)"
proof -
  have "last (l # pre) \<in> set (l # pre)" by (rule last_in_set) simp
  then show "last (l # pre) \<in> set (l # pre @ post)" by (auto simp del: last.simps)
  show "hd (post @ [l]) \<in> set (l # pre @ post)" by (cases post) auto
qed

text \<open>A ring with a place marked, without and with an entry there.\<close>

definition rest_linked :: "store \<Rightarrow> pointer \<Rightarrow> pointer list \<Rightarrow> pointer list \<Rightarrow> bool" where
  "rest_linked s l pre post \<longleftrightarrow> (\<forall>p q. (p, q) \<in> set (before l pre) \<union> set (after post l) \<longrightarrow> linked s p q)"

lemma ring_at:
  "ring s l (pre @ post) \<longleftrightarrow> distinct (l # pre @ post) \<and> 0 \<notin> set (l # pre @ post)
     \<and> rest_linked s l pre post \<and> linked s (last (l # pre)) (hd (post @ [l]))"
  unfolding ring_def links_split rest_linked_def set_append list.set by blast

lemma ring_entry_at:
  "ring s l (pre @ e # post) \<longleftrightarrow> distinct (l # pre @ e # post) \<and> 0 \<notin> set (l # pre @ e # post)
     \<and> rest_linked s l pre post \<and> linked s (last (l # pre)) e \<and> linked s e (hd (post @ [l]))"
  unfolding ring_def links_insert rest_linked_def set_append list.set by blast

lemma rest_linked_update:
  assumes "rest_linked s l pre post" "distinct (l # pre @ post)"
    and "\<And>x. x \<in> set (l # pre @ post) \<Longrightarrow> x \<noteq> last (l # pre) \<Longrightarrow> get_forw x s' = get_forw x s"
    and "\<And>x. x \<in> set (l # pre @ post) \<Longrightarrow> x \<noteq> hd (post @ [l]) \<Longrightarrow> get_back x s' = get_back x s"
  shows "rest_linked s' l pre post"
proof -
  have "linked s' x y" if x: "(x, y) \<in> set (before l pre) \<union> set (after post l)" for x y
  proof -
    note u = link_untouched [OF assms(2) x]
    have "linked s x y" using assms(1) x unfolding rest_linked_def by blast
    then show ?thesis using assms(3) [of x] assms(4) [of y] u unfolding linked_def by metis
  qed
  then show ?thesis unfolding rest_linked_def by blast
qed

lemma ring_insert:
  assumes "ring s l (pre @ post)" "e \<notin> set (l # pre @ post)" "e \<noteq> 0"
    and f: "\<And>x. get_forw x s' = (if x = last (l # pre) then Some e else if x = e then Some (hd (post @ [l])) else get_forw x s)"
    and b: "\<And>x. get_back x s' = (if x = hd (post @ [l]) then Some e else if x = e then Some (last (l # pre)) else get_back x s)"
  shows "ring s' l (pre @ e # post)"
proof -
  have r: "distinct (l # pre @ post)" "0 \<notin> set (l # pre @ post)" "rest_linked s l pre post"
    using assms(1) unfolding ring_at by blast+
  have n: "e \<noteq> last (l # pre)" "e \<noteq> hd (post @ [l])" using place_in [where l = l and pre = pre and post = post] assms(2) by metis+
  have "rest_linked s' l pre post" by (rule rest_linked_update [OF r(3,1)]) (use f b assms(2) in metis)+
  moreover have "linked s' (last (l # pre)) e" "linked s' e (hd (post @ [l]))" using n f b unfolding linked_def by metis+
  moreover have "distinct (l # pre @ e # post)" "0 \<notin> set (l # pre @ e # post)" using r assms(2,3) by auto
  ultimately show ?thesis unfolding ring_entry_at by blast
qed

lemma ring_delete:
  assumes "ring s l (pre @ e # post)"
    and f: "\<And>x. x \<noteq> e \<Longrightarrow> get_forw x s' = (if x = last (l # pre) then Some (hd (post @ [l])) else get_forw x s)"
    and b: "\<And>x. x \<noteq> e \<Longrightarrow> get_back x s' = (if x = hd (post @ [l]) then Some (last (l # pre)) else get_back x s)"
  shows "ring s' l (pre @ post)"
proof -
  have r: "distinct (l # pre @ e # post)" "0 \<notin> set (l # pre @ e # post)" "rest_linked s l pre post"
    using assms(1) unfolding ring_entry_at by blast+
  then have d: "distinct (l # pre @ post)" and e: "e \<notin> set (l # pre @ post)" and z: "0 \<notin> set (l # pre @ post)" by auto
  have n: "e \<noteq> last (l # pre)" "e \<noteq> hd (post @ [l])" using place_in [where l = l and pre = pre and post = post] e by metis+
  have "rest_linked s' l pre post" by (rule rest_linked_update [OF r(3) d]) (use f b e in metis)+
  moreover have "linked s' (last (l # pre)) (hd (post @ [l]))" using n f b unfolding linked_def by metis
  ultimately show ?thesis using d z unfolding ring_at by blast
qed

lemma ring_place:
  assumes "ring s l (pre @ post)"
  shows "get_forw (last (l # pre)) s = Some (hd (post @ [l]))" "get_back (hd (post @ [l])) s = Some (last (l # pre))"
  using assms unfolding ring_at linked_def by blast+

lemma ring_entry:
  assumes "ring s l (pre @ e # post)"
  shows "get_forw e s = Some (hd (post @ [l]))" "get_back e s = Some (last (l # pre))"
    "get_forw (last (l # pre)) s = Some e" "get_back (hd (post @ [l])) s = Some e"
  using assms unfolding ring_entry_at linked_def by blast+

lemma ring_cong:
  assumes "ring s l xs" "\<And>p. p \<in> set (l # xs) \<Longrightarrow> cells s' p = cells s p"
  shows "ring s' l xs"
proof -
  have "linked s' p q" if x: "(p, q) \<in> set (links l xs l)" for p q
  proof -
    have "p \<in> fst ` set (links l xs l)" "q \<in> snd ` set (links l xs l)" using x by force+
    then have "p \<in> set (l # xs)" "q \<in> set (l # xs)" using links_sets [of l xs l] by auto
    then show ?thesis using assms x unfolding ring_def linked_def get_forw_def get_back_def by metis
  qed
  then show ?thesis using assms(1) unfolding ring_def by blast
qed

section \<open>Operations on rings\<close>

text \<open>
  A well-formed list: a ring of its entries, with their number in the header.  When observers
  are allowed, their list is another ring, without a cell in common, of allocated observers.
\<close>

definition wf_info :: "store \<Rightarrow> pointer \<Rightarrow> pointer list \<Rightarrow> pointer list \<Rightarrow> bool" where
  "wf_info s l xs os \<longleftrightarrow>
     (\<exists>i. lists s l = Some i \<and> numEnts i = int (length xs)
        \<and> (if allowObservers i
           then ring s (observers i) os \<and> set (observers i # os) \<inter> set (l # xs) = {} \<and> (\<forall>p\<in>set os. obs s p \<noteq> None)
           else os = []))"

definition wf_list :: "store \<Rightarrow> pointer \<Rightarrow> pointer list \<Rightarrow> pointer list \<Rightarrow> bool" where
  "wf_list s l xs os \<longleftrightarrow> ring s l xs \<and> wf_info s l xs os"

text \<open>What a run of the loop over the rest of a list does, when the body always goes on.\<close>

fun run_body :: "(pointer \<Rightarrow> store \<Rightarrow> 'a \<Rightarrow> (bool \<times> store \<times> 'a) option) \<Rightarrow> pointer list \<Rightarrow> store \<Rightarrow> 'a \<Rightarrow> (store \<times> 'a) option" where
  "run_body body [] s a = Some (s, a)"
| "run_body body (e # es) s a =
     do { (go_on, s, a) \<leftarrow> body e s a; if go_on then run_body body es s a else Some (s, a) }"

definition safe :: "(store \<Rightarrow> 'a \<Rightarrow> bool) \<Rightarrow> pointer set \<Rightarrow> (pointer \<Rightarrow> store \<Rightarrow> 'a \<Rightarrow> (bool \<times> store \<times> 'a) option) \<Rightarrow> bool" where
  "safe I A body \<longleftrightarrow> (\<forall>e s a g s' a'. I s a \<longrightarrow> body e s a = Some (g, s', a') \<longrightarrow> I s' a' \<and> (\<forall>p\<in>A. cells s' p = cells s p))"

lemma safeD:
  assumes "safe I A body" "I s a" "body e s a = Some (g, s', a')"
  shows "I s' a'" "\<And>p. p \<in> A \<Longrightarrow> cells s' p = cells s p"
  using assms unfolding safe_def by blast+

lemma traverse_forward:
  assumes "safe I (set (l # pre @ post)) body" "I s a" "ring s l (pre @ post)"
  shows "traverse True body \<lparr>it_list = l, curEnt = hd (post @ [l])\<rparr> s a = run_body body post s a"
  using assms
proof (induction post arbitrary: pre s a)
  case Nil
  show ?case by (simp add: traverse.simps listIteratorGetCurEntry_def)
next
  case (Cons e es)
  have e: "e \<noteq> l" "e \<noteq> 0" using Cons.prems(3) by (auto simp: ring_def)
  show ?case
  proof (cases "body e s a")
    case (Some r)
    then obtain g s' a' where b: "body e s a = Some (g, s', a')" by (cases r) auto
    note S = safeD [OF Cons.prems(1,2) b]
    have r: "ring s' l ((pre @ [e]) @ es)" using ring_cong [OF Cons.prems(3), of s'] S(2) by simp
    have "traverse True body \<lparr>it_list = l, curEnt = hd (es @ [l])\<rparr> s' a' = run_body body es s' a'"
      using Cons.IH [OF _ S(1) r] Cons.prems(1) by simp
    then show ?thesis using e b ring_place(1) [OF r]
      by (subst traverse.simps) (simp add: listIteratorGetCurEntry_def listIteratorNext_def)
  qed (use e in \<open>subst traverse.simps, simp add: listIteratorGetCurEntry_def\<close>)
qed

lemma traverse_backward:
  assumes "safe I (set (l # pre @ post)) body" "I s a" "ring s l (pre @ post)"
  shows "traverse False body \<lparr>it_list = l, curEnt = last (l # pre)\<rparr> s a = run_body body (rev pre) s a"
  using assms
proof (induction pre arbitrary: post s a rule: rev_induct)
  case Nil
  show ?case by (simp add: traverse.simps listIteratorGetCurEntry_def)
next
  case (snoc e es)
  have e: "e \<noteq> l" "e \<noteq> 0" using snoc.prems(3) by (auto simp: ring_def)
  show ?case
  proof (cases "body e s a")
    case (Some r)
    then obtain g s' a' where b: "body e s a = Some (g, s', a')" by (cases r) auto
    note S = safeD [OF snoc.prems(1,2) b]
    have r: "ring s' l (es @ e # post)" using ring_cong [OF snoc.prems(3), of s'] S(2) by simp
    have "traverse False body \<lparr>it_list = l, curEnt = last (l # es)\<rparr> s' a' = run_body body (rev es) s' a'"
      using snoc.IH [OF _ S(1) r] snoc.prems(1) by simp
    then show ?thesis using e b ring_entry(2) [OF r]
      by (subst traverse.simps) (simp add: listIteratorGetCurEntry_def listIteratorPrev_def)
  qed (use e in \<open>subst traverse.simps, simp add: listIteratorGetCurEntry_def\<close>)
qed

lemma attach_ring: "ring s l xs \<Longrightarrow> listIteratorAttach l s = Some \<lparr>it_list = l, curEnt = hd (xs @ [l])\<rparr>"
  using ring_place(1) [of s l "[]" xs] by (simp add: listIteratorAttach_def)

lemma empty_ring: "ring s l xs \<Longrightarrow> LIST_IS_EMPTY l s = Some (xs = [])"
  using ring_place(1) [of s l "[]" xs] by (cases xs) (auto simp: LIST_IS_EMPTY_def ring_def)

lemma run_body_keep: "(\<And>e a. body e s a = Some (True, s, f e a)) \<Longrightarrow> run_body body es s a = Some (s, fold f es a)"
  by (induction es arbitrary: a) simp_all

text \<open>Writes of single fields.\<close>

definition frame :: "store \<Rightarrow> store \<Rightarrow> bool" where
  "frame s s' \<longleftrightarrow> dom (cells s') = dom (cells s) \<and> lists s' = lists s \<and> obs s' = obs s \<and> called s' = called s"

lemma frame_trans: "frame s s1 \<Longrightarrow> frame s1 s2 \<Longrightarrow> frame s s2"
  by (simp add: frame_def)

lemma set_forw_ok:
  assumes "p \<in> dom (cells s)"
  obtains s' where "set_forw p q s = Some s'" "frame s s'" "\<And>x. get_forw x s' = (if x = p then Some q else get_forw x s)"
    "\<And>x. get_back x s' = get_back x s" "\<And>x. x \<noteq> p \<Longrightarrow> cells s' x = cells s x"
proof -
  obtain c where c: "cells s p = Some c" using assms by blast
  show ?thesis
    by (rule that [of "s\<lparr>cells := (cells s)(p \<mapsto> c\<lparr>e_forw := q\<rparr>)\<rparr>"])
      (use c in \<open>auto simp: set_forw_def get_forw_def get_back_def frame_def\<close>)
qed

lemma set_back_ok:
  assumes "p \<in> dom (cells s)"
  obtains s' where "set_back p q s = Some s'" "frame s s'" "\<And>x. get_back x s' = (if x = p then Some q else get_back x s)"
    "\<And>x. get_forw x s' = get_forw x s" "\<And>x. x \<noteq> p \<Longrightarrow> cells s' x = cells s x"
proof -
  obtain c where c: "cells s p = Some c" using assms by blast
  show ?thesis
    by (rule that [of "s\<lparr>cells := (cells s)(p \<mapsto> c\<lparr>e_back := q\<rparr>)\<rparr>"])
      (use c in \<open>auto simp: set_back_def get_forw_def get_back_def frame_def\<close>)
qed

lemma get_dom: "get_forw p s = Some q \<Longrightarrow> p \<in> dom (cells s)" "get_back p s = Some q \<Longrightarrow> p \<in> dom (cells s)"
  by (auto simp: get_forw_def get_back_def)

lemma inList_ring:
  assumes "ring s l (pre @ post)" "e \<notin> set (l # pre @ post)" "e \<noteq> 0" "e \<in> dom (cells s)"
  obtains s' where "inList (hd (post @ [l])) e s = Some s'" "ring s' l (pre @ e # post)" "frame s s'"
    "\<And>x. x \<notin> set (e # l # pre @ post) \<Longrightarrow> cells s' x = cells s x"
proof -
  define a b where "a = last (l # pre)" and "b = hd (post @ [l])"
  note m = place_in [where l = l and pre = pre and post = post, folded a_def b_def]
  have n: "e \<noteq> a" "e \<noteq> b" using m assms(2) by metis+
  note p = ring_place [OF assms(1), folded a_def b_def]
  have d: "a \<in> dom (cells s)" "b \<in> dom (cells s)" using get_dom p by metis+
  obtain s1 where s1: "set_forw e b s = Some s1" "frame s s1" "\<And>x. get_forw x s1 = (if x = e then Some b else get_forw x s)"
    "\<And>x. get_back x s1 = get_back x s" "\<And>x. x \<noteq> e \<Longrightarrow> cells s1 x = cells s x" using set_forw_ok [OF assms(4)] by metis
  have "e \<in> dom (cells s1)" using s1(2) assms(4) by (simp add: frame_def)
  then obtain s2 where s2: "set_back e a s1 = Some s2" "frame s1 s2" "\<And>x. get_back x s2 = (if x = e then Some a else get_back x s1)"
    "\<And>x. get_forw x s2 = get_forw x s1" "\<And>x. x \<noteq> e \<Longrightarrow> cells s2 x = cells s1 x" using set_back_ok by metis
  have "a \<in> dom (cells s2)" using s1(2) s2(2) d by (simp add: frame_def)
  then obtain s3 where s3: "set_forw a e s2 = Some s3" "frame s2 s3" "\<And>x. get_forw x s3 = (if x = a then Some e else get_forw x s2)"
    "\<And>x. get_back x s3 = get_back x s2" "\<And>x. x \<noteq> a \<Longrightarrow> cells s3 x = cells s2 x" using set_forw_ok by metis
  have "b \<in> dom (cells s3)" using s1(2) s2(2) s3(2) d by (simp add: frame_def)
  then obtain s4 where s4: "set_back b e s3 = Some s4" "frame s3 s4" "\<And>x. get_back x s4 = (if x = b then Some e else get_back x s3)"
    "\<And>x. get_forw x s4 = get_forw x s3" "\<And>x. x \<noteq> b \<Longrightarrow> cells s4 x = cells s3 x" using set_back_ok by metis
  show ?thesis
  proof (rule that)
    show "inList (hd (post @ [l])) e s = Some s4" unfolding b_def [symmetric]
      using s1 s2 s3 s4 p n by (simp add: inList_def)
    show "ring s4 l (pre @ e # post)"
      by (rule ring_insert [OF assms(1-3)]) (use s1 s2 s3 s4 n in \<open>auto simp: a_def b_def simp del: last.simps\<close>)
    show "frame s s4" using s1(2) s2(2) s3(2) s4(2) by (simp add: frame_def)
    show "cells s4 x = cells s x" if x: "x \<notin> set (e # l # pre @ post)" for x
    proof -
      have "x \<notin> set (l # pre @ post)" "x \<noteq> e" using x by simp_all
      then have "x \<noteq> a" "x \<noteq> b" "x \<noteq> e" using m by metis+
      then show ?thesis using s1(5) s2(5) s3(5) s4(5) by simp
    qed
  qed
qed

lemma offList_ring:
  assumes "ring s l (pre @ e # post)"
  obtains s' where "offList e s = Some s'" "ring s' l (pre @ post)" "frame s s'"
    "\<And>x. x \<notin> set (l # pre @ post) \<Longrightarrow> cells s' x = cells s x"
proof -
  define a b where "a = last (l # pre)" and "b = hd (post @ [l])"
  note m = place_in [where l = l and pre = pre and post = post, folded a_def b_def]
  have n: "e \<noteq> a" "e \<noteq> b" using m assms unfolding ring_def by auto
  note p = ring_entry [OF assms, folded a_def b_def]
  have d: "a \<in> dom (cells s)" "b \<in> dom (cells s)" using get_dom p by metis+
  obtain s1 where s1: "set_forw a b s = Some s1" "frame s s1" "\<And>x. get_forw x s1 = (if x = a then Some b else get_forw x s)"
    "\<And>x. get_back x s1 = get_back x s" "\<And>x. x \<noteq> a \<Longrightarrow> cells s1 x = cells s x" using set_forw_ok [OF d(1)] by metis
  have "b \<in> dom (cells s1)" using s1(2) d by (simp add: frame_def)
  then obtain s2 where s2: "set_back b a s1 = Some s2" "frame s1 s2" "\<And>x. get_back x s2 = (if x = b then Some a else get_back x s1)"
    "\<And>x. get_forw x s2 = get_forw x s1" "\<And>x. x \<noteq> b \<Longrightarrow> cells s2 x = cells s1 x" using set_back_ok by metis
  show ?thesis
  proof (rule that)
    show "offList e s = Some s2" using s1 s2 p n by (simp add: offList_def)
    show "ring s2 l (pre @ post)"
      by (rule ring_delete [OF assms]) (use s1 s2 in \<open>auto simp: a_def b_def simp del: last.simps\<close>)
    show "frame s s2" using s1(2) s2(2) by (simp add: frame_def)
    show "cells s2 x = cells s x" if x: "x \<notin> set (l # pre @ post)" for x
    proof -
      have "x \<noteq> a" "x \<noteq> b" using x m by metis+
      then show ?thesis using s1(5) s2(5) by simp
    qed
  qed
qed

lemma insert_inList:
  "listInsertEntryBefore l succ e s =
     do { s \<leftarrow> inList succ e s; s \<leftarrow> notify_if l (LIST_EVENT_ENTER e) s; upd_list l (\<lambda>i. i\<lparr>numEnts := numEnts i + 1\<rparr>) s }"
  by (simp add: listInsertEntryBefore_def inList_def)

lemma remove_offList:
  "get_back e s = Some b \<Longrightarrow> get_forw e s = Some f \<Longrightarrow> b \<noteq> 0 \<Longrightarrow> f \<noteq> 0 \<Longrightarrow>
   listRemoveEntry l e s =
     do { s \<leftarrow> offList e s; s \<leftarrow> notify_if l (LIST_EVENT_LEAVE e) s; upd_list l (\<lambda>i. i\<lparr>numEnts := numEnts i - 1\<rparr>) s }"
  by (simp add: listRemoveEntry_def offList_def)

text \<open>Which observers are told of an event.\<close>

definition wants :: "store \<Rightarrow> LIST_EVENT_T \<Rightarrow> pointer \<Rightarrow> bool" where
  "wants s event p \<longleftrightarrow>
     (case obs s p of
        None \<Rightarrow> False
      | Some ob \<Rightarrow> (case o_select ob of None \<Rightarrow> True | Some f \<Rightarrow> f event)
          \<and> (case event of LIST_EVENT_ENTER e \<Rightarrow> o_enter ob | LIST_EVENT_LEAVE e \<Rightarrow> o_leave ob))"

definition told :: "store \<Rightarrow> LIST_EVENT_T \<Rightarrow> pointer list \<Rightarrow> (pointer \<times> LIST_EVENT_T) list" where
  "told s event os = map (\<lambda>p. (p, event)) (filter (wants s event) os)"

lemma told_cong: "obs s' = obs s \<Longrightarrow> told s' = told s"
  by (simp add: told_def [abs_def] wants_def [abs_def])

lemma notify_ring:
  assumes "ring s l (pre @ os)" "\<forall>p\<in>set os. obs s p \<noteq> None"
  shows "tell_loop event \<lparr>it_list = l, curEnt = hd (os @ [l])\<rparr> s = Some (s\<lparr>called := called s @ told s event os\<rparr>)"
  using assms
proof (induction os arbitrary: pre s)
  case (Cons p os)
  obtain ob where ob: "obs s p = Some ob" using Cons.prems(2) by auto
  let ?s = "if wants s event p then s\<lparr>called := called s @ [(p, event)]\<rparr> else s"
  have o: "obs ?s = obs s" "told ?s = told s" using told_cong [of ?s s] by auto
  have n: "tell_one event p s = Some ?s" using ob by (auto simp: tell_one_def wants_def Let_def)
  have r: "ring ?s l ((pre @ [p]) @ os)" using ring_cong [OF Cons.prems(1), of ?s] by simp
  have "p \<noteq> l" using Cons.prems(1) by (auto simp: ring_def)
  then have "tell_loop event \<lparr>it_list = l, curEnt = hd ((p # os) @ [l])\<rparr> s = tell_loop event \<lparr>it_list = l, curEnt = hd (os @ [l])\<rparr> ?s"
    using n ring_place(1) [OF r]
    by (subst tell_loop.simps) (simp add: listIteratorIsEndOfList_def listIteratorGetCurEntry_def listIteratorNext_def)
  also have "\<dots> = Some (?s\<lparr>called := called ?s @ told ?s event os\<rparr>)" by (rule Cons.IH [OF r]) (use Cons.prems(2) o in simp)
  finally show ?case unfolding o by (simp add: told_def)
qed (simp add: told_def tell_loop.simps listIteratorIsEndOfList_def)

lemma notify_wf:
  assumes "wf_info s l xs os"
  shows "notify_if l event s = Some (s\<lparr>called := called s @ told s event os\<rparr>)"
proof -
  obtain i where i: "lists s l = Some i" "if allowObservers i
           then ring s (observers i) os \<and> set (observers i # os) \<inter> set (l # xs) = {} \<and> (\<forall>p\<in>set os. obs s p \<noteq> None)
           else os = []" using assms unfolding wf_info_def by blast
  show ?thesis
  proof (cases "allowObservers i \<and> os \<noteq> []")
    case True
    then have r: "ring s (observers i) ([] @ os)" and o: "\<forall>p\<in>set os. obs s p \<noteq> None" using i(2) by auto
    show ?thesis using True i(1) attach_ring [of s "observers i" os] empty_ring [of s "observers i" os] r
        notify_ring [OF r o, of event]
      by (simp add: notify_if_def listNotifyObservers_def)
  next
    case False
    then show ?thesis using i empty_ring [of s "observers i" os] by (auto simp: notify_if_def told_def split: if_splits)
  qed
qed

definition obs_ring :: "store \<Rightarrow> pointer \<Rightarrow> pointer list \<Rightarrow> pointer set" where
  "obs_ring s l os = (case lists s l of Some i \<Rightarrow> if allowObservers i then set (observers i # os) else {} | None \<Rightarrow> {})"

lemma wf_info_upd:
  assumes "wf_info s l xs os" "lists s' l = Some ((the (lists s l))\<lparr>numEnts := int (length ys)\<rparr>)" "obs s' = obs s"
    and "set ys \<inter> obs_ring s l os = {}" "\<And>x. x \<in> obs_ring s l os \<Longrightarrow> cells s' x = cells s x"
  shows "wf_info s' l ys os"
proof -
  obtain i where i: "lists s l = Some i" "if allowObservers i
           then ring s (observers i) os \<and> set (observers i # os) \<inter> set (l # xs) = {} \<and> (\<forall>p\<in>set os. obs s p \<noteq> None)
           else os = []" using assms(1) unfolding wf_info_def by blast
  show ?thesis
  proof (cases "allowObservers i")
    case True
    then have o: "obs_ring s l os = set (observers i # os)" using i(1) by (simp add: obs_ring_def)
    have r: "ring s (observers i) os" "set (observers i # os) \<inter> set (l # xs) = {}" "\<forall>p\<in>set os. obs s p \<noteq> None"
      using i(2) True by simp_all
    have "ring s' (observers i) os" by (rule ring_cong [OF r(1)]) (rule assms(5), simp only: o)
    moreover have "set (observers i # os) \<inter> set (l # ys) = {}" using r(2) assms(4) unfolding o by (simp add: Int_commute)
    ultimately show ?thesis using i(1) assms(2,3) r(3) True unfolding wf_info_def by simp
  qed (use i assms(2) in \<open>simp add: wf_info_def\<close>)
qed

lemma put_wf:
  assumes "wf_list s l (pre @ post) os" "e \<notin> set (l # pre @ post)" "e \<noteq> 0" "e \<in> dom (cells s)" "e \<notin> obs_ring s l os"
  obtains s' where "listInsertEntryBefore l (hd (post @ [l])) e s = Some s'" "wf_list s' l (pre @ e # post) os"
    "called s' = called s @ told s (LIST_EVENT_ENTER e) os" "obs_ring s' l os = obs_ring s l os"
    "\<And>x. x \<notin> set (e # l # pre @ post) \<Longrightarrow> cells s' x = cells s x"
proof -
  have w: "ring s l (pre @ post)" "wf_info s l (pre @ post) os" using assms(1) by (simp_all add: wf_list_def)
  obtain s1 where s1: "inList (hd (post @ [l])) e s = Some s1" "ring s1 l (pre @ e # post)" "frame s s1"
    "\<And>x. x \<notin> set (e # l # pre @ post) \<Longrightarrow> cells s1 x = cells s x"
    using inList_ring [OF w(1) assms(2-4)] by metis
  obtain i where i: "lists s l = Some i" "numEnts i = int (length (pre @ post))" using w(2) unfolding wf_info_def by blast
  have dj: "set (l # pre @ post) \<inter> obs_ring s l os = {}" using w(2) by (auto simp: wf_info_def obs_ring_def split: if_splits)
  have same: "cells s1 x = cells s x" if "x \<in> obs_ring s l os" for x using that dj assms(5) s1(4) [of x] by auto
  have fr: "lists s1 = lists s" "obs s1 = obs s" "called s1 = called s" "dom (cells s1) = dom (cells s)" using s1(3) by (simp_all add: frame_def)
  have w1: "wf_info s1 l (pre @ post) os" by (rule wf_info_upd [OF w(2)]) (use i fr dj same in auto)
  let ?s2 = "s1\<lparr>called := called s1 @ told s1 (LIST_EVENT_ENTER e) os\<rparr>"
  let ?s3 = "?s2\<lparr>lists := (lists s1)(l \<mapsto> i\<lparr>numEnts := numEnts i + 1\<rparr>)\<rparr>"
  have t: "told s1 = told s" by (rule told_cong) (rule fr(2))
  show ?thesis
  proof (rule that)
    show "listInsertEntryBefore l (hd (post @ [l])) e s = Some ?s3"
      using s1(1) i fr(1) by (simp add: insert_inList notify_wf [OF w1] upd_list_def)
    have "ring ?s3 l (pre @ e # post)" by (rule ring_cong [OF s1(2)]) simp
    moreover have "wf_info ?s3 l (pre @ e # post) os"
      by (rule wf_info_upd [OF w(2)]) (use i fr dj same assms(5) in auto)
    ultimately show "wf_list ?s3 l (pre @ e # post) os" by (simp add: wf_list_def)
    show "obs_ring ?s3 l os = obs_ring s l os" using i by (simp add: obs_ring_def)
  qed (use fr t s1(4) in auto)
qed

lemma take_wf:
  assumes "wf_list s l (pre @ e # post) os"
  obtains s' where "listRemoveEntry l e s = Some s'" "wf_list s' l (pre @ post) os"
    "called s' = called s @ told s (LIST_EVENT_LEAVE e) os" "dom (cells s') = dom (cells s)"
    "obs_ring s' l os = obs_ring s l os"
proof -
  have w: "ring s l (pre @ e # post)" "wf_info s l (pre @ e # post) os" using assms by (simp_all add: wf_list_def)
  obtain s1 where s1: "offList e s = Some s1" "ring s1 l (pre @ post)" "frame s s1"
    "\<And>x. x \<notin> set (l # pre @ post) \<Longrightarrow> cells s1 x = cells s x"
    using offList_ring [OF w(1)] by metis
  obtain i where i: "lists s l = Some i" "numEnts i = int (length (pre @ e # post))" using w(2) unfolding wf_info_def by blast
  have dj: "set (l # pre @ post) \<inter> obs_ring s l os = {}" "e \<notin> obs_ring s l os"
    using w(2) by (auto simp: wf_info_def obs_ring_def split: if_splits)
  have same: "cells s1 x = cells s x" if "x \<in> obs_ring s l os" for x using that dj s1(4) [of x] by auto
  have fr: "lists s1 = lists s" "obs s1 = obs s" "called s1 = called s" "dom (cells s1) = dom (cells s)" using s1(3) by (simp_all add: frame_def)
  have w1: "wf_info s1 l (pre @ e # post) os" by (rule wf_info_upd [OF w(2)]) (use i fr dj same in auto)
  let ?s2 = "s1\<lparr>called := called s1 @ told s1 (LIST_EVENT_LEAVE e) os\<rparr>"
  let ?s3 = "?s2\<lparr>lists := (lists s1)(l \<mapsto> i\<lparr>numEnts := numEnts i - 1\<rparr>)\<rparr>"
  have t: "told s1 = told s" by (rule told_cong) (rule fr(2))
  have "0 \<notin> set (l # pre @ post)" using w(1) by (simp add: ring_def)
  then have nz: "last (l # pre) \<noteq> 0" "hd (post @ [l]) \<noteq> 0" using place_in [where l = l and pre = pre and post = post] by metis+
  show ?thesis
  proof (rule that)
    show "listRemoveEntry l e s = Some ?s3"
      using s1(1) i fr(1) by (simp add: remove_offList [OF ring_entry(2,1) [OF w(1)] nz] notify_wf [OF w1] upd_list_def)
    have "ring ?s3 l (pre @ post)" by (rule ring_cong [OF s1(2)]) simp
    moreover have "wf_info ?s3 l (pre @ post) os" by (rule wf_info_upd [OF w(2)]) (use i fr dj same in auto)
    ultimately show "wf_list ?s3 l (pre @ post) os" by (simp add: wf_list_def)
    show "obs_ring ?s3 l os = obs_ring s l os" using i by (simp add: obs_ring_def)
  qed (use fr t in auto)
qed

text \<open>The traversals.\<close>

definition pure_body :: "(pointer \<Rightarrow> store \<Rightarrow> 'a \<Rightarrow> (bool \<times> store \<times> 'a) option) \<Rightarrow> bool" where
  "pure_body body \<longleftrightarrow> (\<forall>e s a. \<exists>g a'. body e s a = Some (g, s, a'))"

lemma pure_safe: "pure_body body \<Longrightarrow> safe (\<lambda>s a. True) A body"
  unfolding safe_def pure_body_def by (metis option.inject prod.inject)

lemma start_iter_ring:
  assumes "ring s l xs"
  shows "start_iter l False s = Some \<lparr>it_list = l, curEnt = hd (xs @ [l])\<rparr>"
    "xs \<noteq> [] \<Longrightarrow> start_iter l True s = Some \<lparr>it_list = l, curEnt = last (l # xs)\<rparr>"
    "xs = [] \<Longrightarrow> start_iter l True s = Some \<lparr>it_list = l, curEnt = 0\<rparr>"
  using attach_ring [OF assms] empty_ring [OF assms] ring_place(2) [of s l xs "[]"] assms
  by (simp_all add: start_iter_def listGetBackEntry_def)

lemma traverse_null: "traverse fwd body \<lparr>it_list = l, curEnt = 0\<rparr> s a = Some (s, a)"
  by (simp add: traverse.simps listIteratorGetCurEntry_def)

lemma traverse_ring:
  assumes "ring s l xs" "pure_body body"
  shows "do { iter \<leftarrow> start_iter l backward s; traverse (\<not> backward) body iter s a }
       = run_body body (if backward then rev xs else xs) s a"
proof (cases backward)
  case False
  then show ?thesis
    using start_iter_ring(1) [OF assms(1)] traverse_forward [OF pure_safe [OF assms(2)], where s = s and a = a and pre = "[]" and post = xs] assms(1)
    by simp
next
  case True
  show ?thesis
  proof (cases "xs = []")
    case False
    show ?thesis
      using True start_iter_ring(2) [OF assms(1) False]
        traverse_backward [OF pure_safe [OF assms(2)], where s = s and a = a and pre = xs and post = "[]"] assms(1)
      by (simp del: last.simps)
  qed (use True start_iter_ring(3) [OF assms(1)] traverse_null in simp)
qed

lemma bind_assoc_pair: "do { x \<leftarrow> (a :: 'a option); (s, v) \<leftarrow> f x; g s v } = do { (s, v) \<leftarrow> do { x \<leftarrow> a; f x }; g s v }"
  by (cases a) simp_all

lemma list2Vector_ring:
  assumes "ring s l xs"
  shows "list2Vector l backward s = Some (if backward then rev xs else xs)"
proof -
  let ?b = "\<lambda>e s v. Some (True, s, v @ [e])"
  have "fold (\<lambda>e v. v @ [e]) es v = v @ es" for es v :: "pointer list" by (induction es arbitrary: v) auto
  then have r: "run_body ?b es s [] = Some (s, es)" for es using run_body_keep [of ?b s "\<lambda>e v. v @ [e]" es "[]"] by simp
  have "pure_body ?b" unfolding pure_body_def by auto
  from traverse_ring [OF assms this] show ?thesis unfolding list2Vector_def bind_assoc_pair by (simp add: r)
qed

lemma listSearchEntry_ring:
  assumes "ring s l xs"
  shows "listSearchEntry l equal s = Some (case find equal xs of None \<Rightarrow> 0 | Some e \<Rightarrow> e)"
proof -
  let ?b = "\<lambda>e s r. Some (if equal e then (False, s, e) else (True, s, r))"
  have r: "run_body ?b es s 0 = Some (s, case find equal es of None \<Rightarrow> 0 | Some e \<Rightarrow> e)" for es
    by (induction es) auto
  have "pure_body ?b" unfolding pure_body_def by auto
  then show ?thesis
    using traverse_forward [OF pure_safe, where body = ?b and s = s and a = 0 and pre = "[]" and post = xs and l = l] attach_ring [OF assms] assms r
    by (simp add: listSearchEntry_def)
qed

text \<open>What fits in the buffer: whole words, up to the first that does not.\<close>

fun fitting :: "nat \<Rightarrow> string list \<Rightarrow> string list" where
  "fitting n [] = []"
| "fitting n (w # ws) = (if length w \<le> n then w # fitting (n - length w) ws else [])"

lemma cat_run:
  assumes "1 \<le> bufferSize" "bufferSize < 2 ^ 31" "length buffer \<le> nat (bufferSize - 1)"
  shows "run_body (cat_one bufferSize catFunc) es s buffer =
     Some (s, buffer @ concat (fitting (nat (bufferSize - 1) - length buffer) (List.map_filter catFunc es)))"
  using assms(3)
proof (induction es arbitrary: buffer)
  case (Cons e es)
  define n where "n = nat (bufferSize - 1) - length buffer"
  have m: "(bufferSize - 1) mod 2 ^ 64 = bufferSize - 1" using assms(1,2) by (intro mod_pos_pos_trivial) auto
  have n: "bufferSize - 1 = int (length buffer) + int n" using assms(1) Cons.prems by (simp add: n_def of_nat_diff)
  show ?case
  proof (cases "catFunc e")
    case (Some w)
    have c: "cat_one bufferSize catFunc e s buffer = Some (if length w \<le> n then (True, s, buffer @ w) else (False, s, buffer))"
      unfolding cat_one_def m Some by (simp add: n)
    have "n - length w = nat (bufferSize - 1) - length (buffer @ w)" by (simp add: n_def)
    then show ?thesis unfolding n_def [symmetric]
      using c Some Cons.prems Cons.IH [of "buffer @ w"] by (simp add: List.map_filter_def n_def)
  next
    case None
    then have "cat_one bufferSize catFunc e s buffer = Some (True, s, buffer)" by (simp add: cat_one_def)
    then show ?thesis using None Cons by (simp add: List.map_filter_def)
  qed
qed (simp add: List.map_filter_def)

lemma listCat_ring:
  assumes "ring s l xs" "1 \<le> bufferSize" "bufferSize < 2 ^ 31"
  shows "listCat l backward bufferSize catFunc s =
     Some (concat (fitting (nat (bufferSize - 1)) (List.map_filter catFunc (if backward then rev xs else xs))))"
proof -
  have p: "pure_body (cat_one bufferSize catFunc)" by (auto simp: pure_body_def cat_one_def split: option.splits)
  show ?thesis unfolding listCat_def bind_assoc_pair traverse_ring [OF assms(1) p] using cat_run [OF assms(2,3), of "[]"] by simp
qed

lemma fitting_length: "length (concat (fitting n ws)) \<le> n"
proof (induction ws arbitrary: n)
  case (Cons w ws)
  show ?case
  proof (cases "length w \<le> n")
    case True
    then show ?thesis using Cons.IH [of "n - length w"] by (simp del: length_concat)
  qed simp
qed simp

text \<open>Validated positions of an iterator.\<close>

lemma find_entry_ring:
  assumes "ring s l (pre @ post)"
  shows "find_entry entry \<lparr>it_list = l, curEnt = hd (post @ [l])\<rparr> s = Some (entry \<in> set post)"
  using assms
proof (induction post arbitrary: pre)
  case (Cons e es)
  have e: "e \<noteq> l" using Cons.prems by (auto simp: ring_def)
  have "find_entry entry \<lparr>it_list = l, curEnt = hd (es @ [l])\<rparr> s = Some (entry \<in> set es)"
    using Cons.IH [of "pre @ [e]"] Cons.prems by simp
  then show ?case using e ring_entry(1) [OF Cons.prems]
    by (subst find_entry.simps) (auto simp: listIteratorIsEndOfList_def listIteratorGetCurEntry_def listIteratorNext_def)
qed (simp add: find_entry.simps listIteratorIsEndOfList_def)

text \<open>The contract of the lists, for lists with any set of observers.\<close>

definition loose_entry :: "pointer \<Rightarrow> pointer list \<Rightarrow> store \<Rightarrow> pointer \<Rightarrow> bool" where
  "loose_entry l os s e \<longleftrightarrow> e \<noteq> 0 \<and> e \<in> dom (cells s) \<and> e \<notin> obs_ring s l os"

lemma wf_obs_ring: "wf_list s l xs os \<Longrightarrow> set (l # xs) \<inter> obs_ring s l os = {}"
  by (auto simp: wf_list_def wf_info_def obs_ring_def split: if_splits)

lemma remove_loose:
  assumes "wf_list s l (pre @ e # post) os"
  obtains s' where "listRemoveEntry l e s = Some s'" "wf_list s' l (pre @ post) os"
    "called s' = called s @ told s (LIST_EVENT_LEAVE e) os" "loose_entry l os s' e"
proof -
  obtain s' where s': "listRemoveEntry l e s = Some s'" "wf_list s' l (pre @ post) os"
    "called s' = called s @ told s (LIST_EVENT_LEAVE e) os" "dom (cells s') = dom (cells s)"
    "obs_ring s' l os = obs_ring s l os"
    using take_wf [OF assms] by metis
  have r: "ring s l (pre @ e # post)" using assms by (simp add: wf_list_def)
  have "e \<noteq> 0" "e \<in> dom (cells s)" using r get_dom(1) [OF ring_entry(1) [OF r]] by (auto simp: ring_def)
  moreover have "e \<notin> obs_ring s l os" using wf_obs_ring [OF assms] by auto
  ultimately show ?thesis using that [OF s'(1-3)] s'(4,5) by (simp add: loose_entry_def)
qed

interpretation dl: entry_list l "\<lambda>s xs. wf_list s l xs os" "loose_entry l os" "listInsertEntryBefore l" "listRemoveEntry l" for l os
proof unfold_locales
  show "\<exists>s'. listInsertEntryBefore l (hd (post @ [l])) e s = Some s' \<and> wf_list s' l (pre @ e # post) os"
    if "wf_list s l (pre @ post) os" "loose_entry l os s e" "e \<notin> set (l # pre @ post)" for s pre post e
    using put_wf [OF that(1,3)] that(2) unfolding loose_entry_def by metis
  show "\<exists>s'. listRemoveEntry l e s = Some s' \<and> wf_list s' l (pre @ post) os \<and> loose_entry l os s' e"
    if "wf_list s l (pre @ e # post) os" for s pre e post using remove_loose [OF that] by metis
  show "distinct (l # xs)" if "wf_list s l xs os" for s xs using that by (simp add: wf_list_def ring_def)
qed

text \<open>Copies: the entries of the new list are the addresses of the allocator, in order.\<close>

definition dup_inv :: "pointer \<Rightarrow> pointer set \<Rightarrow> pointer list \<Rightarrow> store \<Rightarrow> pointer list \<Rightarrow> bool" where
  "dup_inv n A ys s ps \<longleftrightarrow> wf_list s n ys [] \<and> obs_ring s n [] = {} \<and> A \<inter> set (n # ys @ ps) = {}
     \<and> distinct (n # ys @ ps) \<and> 0 \<notin> set ps"

lemma dup_step:
  assumes "dup_inv n A ys s (p # ps)" "cells s e = Some c"
  obtains s' where "dup_one n e s (p # ps) = Some (True, s', ps)" "dup_inv n A (ys @ [p]) s' ps"
    "\<And>x. x \<in> A \<Longrightarrow> cells s' x = cells s x"
proof -
  let ?s1 = "s\<lparr>cells := (cells s)(p \<mapsto> c)\<rparr>"
  have a: "wf_list s n ys []" "obs_ring s n [] = {}" "A \<inter> set (n # ys @ p # ps) = {}" "distinct (n # ys @ p # ps)" "0 \<notin> set (p # ps)"
    using assms(1) by (simp_all add: dup_inv_def)
  have r: "ring ?s1 n ys" by (rule ring_cong [of s]) (use a(1,4) in \<open>auto simp: wf_list_def\<close>)
  have o: "obs_ring ?s1 n [] = {}" using a(2) by (simp add: obs_ring_def)
  have "wf_info ?s1 n ys []" using a(1,2) by (auto simp: wf_list_def wf_info_def obs_ring_def split: option.splits if_splits)
  then have w: "wf_list ?s1 n (ys @ []) []" using r by (simp add: wf_list_def)
  have np: "p \<notin> set (n # ys @ [])" "p \<noteq> 0" "p \<in> dom (cells ?s1)" "p \<notin> {}" using a(4,5) by auto
  obtain s' where s': "listInsertEntryBefore n (hd ([] @ [n])) p ?s1 = Some s'" "wf_list s' n (ys @ p # []) []"
    "obs_ring s' n [] = obs_ring ?s1 n []" "\<And>x. x \<notin> set (p # n # ys @ []) \<Longrightarrow> cells s' x = cells ?s1 x"
    using put_wf [OF w, of p] np o by metis
  show ?thesis
  proof (rule that)
    show "dup_one n e s (p # ps) = Some (True, s', ps)" using s'(1) assms(2) by (simp add: dup_one_def listInsertEntryAtBack_def)
    show "dup_inv n A (ys @ [p]) s' ps" using a s'(2,3) o by (simp add: dup_inv_def)
    show "cells s' x = cells s x" if "x \<in> A" for x using that a(3) s'(4) [of x] by auto
  qed
qed

lemma dup_safe: "safe (\<lambda>s ps. \<exists>ys. dup_inv n A ys s ps) A (dup_one n)"
proof -
  have "(\<exists>ys. dup_inv n A ys s' a') \<and> (\<forall>p\<in>A. cells s' p = cells s p)"
    if I: "dup_inv n A ys s ps" and b: "dup_one n e s ps = Some (g, s', a')" for ys e s ps g s' a'
  proof -
    obtain c where c1: "cells s e = Some c" "ps \<noteq> []" using b by (cases "cells s e"; cases ps) (auto simp: dup_one_def)
    then obtain p qs where c: "cells s e = Some c" "ps = p # qs" by (cases ps) auto
    obtain s'' where s'': "dup_one n e s (p # qs) = Some (True, s'', qs)" "dup_inv n A (ys @ [p]) s'' qs"
      "\<And>x. x \<in> A \<Longrightarrow> cells s'' x = cells s x" using dup_step [OF _ c(1)] I c(2) by metis
    then show ?thesis using b c(2) by auto
  qed
  then show ?thesis unfolding safe_def by blast
qed

lemma dup_run:
  assumes "dup_inv n A ys s ps" "length xs \<le> length ps" "set xs \<subseteq> A" "\<forall>x\<in>A. cells s x \<noteq> None"
  shows "\<exists>s'. run_body (dup_one n) xs s ps = Some (s', drop (length xs) ps)
     \<and> dup_inv n A (ys @ take (length xs) ps) s' (drop (length xs) ps) \<and> (\<forall>x\<in>A. cells s' x = cells s x)"
  using assms
proof (induction xs arbitrary: ys s ps)
  case (Cons e es)
  obtain c where c: "cells s e = Some c" using Cons.prems(3,4) by auto
  obtain p qs where ps: "ps = p # qs" using Cons.prems(2) by (cases ps) auto
  obtain s1 where s1: "dup_one n e s (p # qs) = Some (True, s1, qs)" "dup_inv n A (ys @ [p]) s1 qs"
    "\<And>x. x \<in> A \<Longrightarrow> cells s1 x = cells s x" using dup_step [OF _ c] Cons.prems(1) ps by metis
  have "\<exists>s'. run_body (dup_one n) es s1 qs = Some (s', drop (length es) qs)
     \<and> dup_inv n A ((ys @ [p]) @ take (length es) qs) s' (drop (length es) qs) \<and> (\<forall>x\<in>A. cells s' x = cells s1 x)"
    by (rule Cons.IH [OF s1(2)]) (use Cons.prems ps s1(3) in auto)
  then show ?case using s1 ps by auto
qed simp

lemma listDup_ring:
  assumes "ring s l xs" "distinct ps" "length ps = Suc (length xs)" "set ps \<inter> insert 0 (set (l # xs)) = {}"
  shows "\<exists>s'. listDup l ps s = Some (hd ps, s') \<and> wf_list s' (hd ps) (tl ps) [] \<and> ring s' l xs"
proof -
  obtain n qs where ps: "ps = n # qs" using assms(3) by (cases ps) auto
  let ?s = "snd (listCreate n s)" and ?A = "set (l # xs)"
  have fst_cr: "fst (listCreate n s) = n" and cr: "listCreate n s = (n, ?s)" "n \<noteq> 0" using assms(4) ps by (auto simp: listCreate_def)
  have r: "ring ?s l ([] @ xs)" using assms(4) ps cr(2) by simp (intro ring_cong [OF assms(1)], auto simp: listCreate_def)
  have d: "\<forall>x\<in>?A. cells ?s x \<noteq> None"
  proof
    fix x
    assume "x \<in> ?A"
    then have "x \<in> fst ` set (links l xs l)" unfolding links_sets .
    then obtain q where "(x, q) \<in> set (links l xs l)" by auto
    then have "get_forw x ?s = Some q" using r unfolding ring_def linked_def by simp
    then show "cells ?s x \<noteq> None" by (auto simp: get_forw_def)
  qed
  have i: "dup_inv n ?A [] ?s qs" using assms(2,4) ps cr(2)
    by (auto simp: dup_inv_def wf_list_def ring_def linked_def wf_info_def obs_ring_def listCreate_def get_forw_def get_back_def)
  obtain s' where s': "run_body (dup_one n) xs ?s qs = Some (s', [])" "dup_inv n ?A qs s' []" "\<forall>x\<in>?A. cells s' x = cells ?s x"
    using dup_run [OF i, of xs] assms(3) ps d by auto
  have "traverse True (dup_one n) \<lparr>it_list = l, curEnt = hd (xs @ [l])\<rparr> ?s qs = Some (s', [])"
    using traverse_forward [where pre = "[]" and post = xs, simplified, OF dup_safe _ r [simplified], of n qs] i s'(1) by auto
  then have "listDup l ps s = Some (n, s')"
    using attach_ring [of ?s l xs] r cr(2) fst_cr by (simp add: listDup_def ps prod.case_eq_if)
  moreover have "ring s' l xs" by (rule ring_cong [of ?s]) (use r s'(3) in auto)
  ultimately show ?thesis using s'(2) ps by (auto simp: dup_inv_def)
qed

section \<open>Properties\<close>

text \<open>
  A list with header 1 and entries 2 and 3, watched by the observer 8 of the observer list 9,
  which has both callbacks and selects everything.  Cell 4 is in no list.
\<close>

definition eg_store :: store where
  "eg_store =
     \<lparr>cells = [1 \<mapsto> \<lparr>e_forw = 2, e_back = 3\<rparr>, 2 \<mapsto> \<lparr>e_forw = 3, e_back = 1\<rparr>, 3 \<mapsto> \<lparr>e_forw = 1, e_back = 2\<rparr>,
        4 \<mapsto> \<lparr>e_forw = 0, e_back = 0\<rparr>, 9 \<mapsto> \<lparr>e_forw = 8, e_back = 8\<rparr>, 8 \<mapsto> \<lparr>e_forw = 9, e_back = 9\<rparr>],
      lists = [1 \<mapsto> \<lparr>numEnts = 2, allowObservers = True, observers = 9\<rparr>],
      obs = [8 \<mapsto> \<lparr>o_select = None, o_enter = True, o_leave = True, o_list = 1\<rparr>], called = []\<rparr>"

lemma eg_wf: "wf_list eg_store 1 [2, 3] [8]"
  by (auto simp: wf_list_def ring_def linked_def wf_info_def eg_store_def get_forw_def get_back_def)

text \<open>
  C13: Putting an entry into a well-formed list before any of its entries, or before the header,
  succeeds and gives the well-formed list with the entry at that place and the count one
  higher; taking an entry out gives the list without it.  In both cases exactly the observers
  that select the event and have the callback are called, once each and in their order.
\<close>

theorem list_insert_remove:
  "(wf_list s l (pre @ post) os \<and> loose_entry l os s e \<and> e \<notin> set (l # pre @ post) \<longrightarrow>
     (\<exists>s'. listInsertEntryBefore l (hd (post @ [l])) e s = Some s' \<and> wf_list s' l (pre @ e # post) os
        \<and> called s' = called s @ told s (LIST_EVENT_ENTER e) os))
   \<and> (wf_list s l (pre @ e # post) os \<longrightarrow>
     (\<exists>s'. listRemoveEntry l e s = Some s' \<and> wf_list s' l (pre @ post) os
        \<and> called s' = called s @ told s (LIST_EVENT_LEAVE e) os))"
proof (intro conjI impI)
  assume a: "wf_list s l (pre @ post) os \<and> loose_entry l os s e \<and> e \<notin> set (l # pre @ post)"
  show "\<exists>s'. listInsertEntryBefore l (hd (post @ [l])) e s = Some s' \<and> wf_list s' l (pre @ e # post) os
        \<and> called s' = called s @ told s (LIST_EVENT_ENTER e) os"
    using put_wf [of s l pre post os e] a unfolding loose_entry_def by metis
next
  assume "wf_list s l (pre @ e # post) os"
  then show "\<exists>s'. listRemoveEntry l e s = Some s' \<and> wf_list s' l (pre @ post) os
        \<and> called s' = called s @ told s (LIST_EVENT_LEAVE e) os"
    using remove_loose by metis
qed

theorem list_insert_remove_witness:
  "(\<exists>s'. listInsertEntryBefore 1 3 4 eg_store = Some s' \<and> wf_list s' 1 [2, 4, 3] [8] \<and> called s' = [(8, LIST_EVENT_ENTER 4)])
   \<and> (\<exists>s'. listRemoveEntry 1 2 eg_store = Some s' \<and> wf_list s' 1 [3] [8] \<and> called s' = [(8, LIST_EVENT_LEAVE 2)])"
proof -
  have l: "loose_entry 1 [8] eg_store 4" by (auto simp: loose_entry_def eg_store_def obs_ring_def)
  have c: "called eg_store = []" "told eg_store (LIST_EVENT_ENTER 4) [8] = [(8, LIST_EVENT_ENTER 4)]"
    "told eg_store (LIST_EVENT_LEAVE 2) [8] = [(8, LIST_EVENT_LEAVE 2)]"
    by (simp_all add: eg_store_def told_def wants_def)
  show ?thesis
    using list_insert_remove [of eg_store 1 "[2]" "[3]" "[8]" 4] list_insert_remove [of eg_store 1 "[]" "[3]" "[8]" 2] eg_wf l c by auto
qed

text \<open>
  C14: Every loop over a ring ends: a list is read into a vector in either direction, a search
  returns the first entry that matches or NULL, the text of the entries is cut at the last
  whole word that fits the buffer and never exceeds it, and a copy is a new well-formed list
  with an entry for every entry, which leaves the old one as it is.
\<close>

theorem list_loops_end:
  assumes "ring s l xs"
  shows "list2Vector l backward s = Some (if backward then rev xs else xs)
   \<and> listSearchEntry l equal s = Some (case find equal xs of None \<Rightarrow> 0 | Some e \<Rightarrow> e)
   \<and> (1 \<le> bufferSize \<and> bufferSize < 2 ^ 31 \<longrightarrow>
      (\<exists>b. listCat l backward bufferSize catFunc s = Some b \<and> int (length b) \<le> bufferSize - 1
         \<and> b = concat (fitting (nat (bufferSize - 1)) (List.map_filter catFunc (if backward then rev xs else xs)))))
   \<and> (distinct ps \<and> length ps = Suc (length xs) \<and> set ps \<inter> insert 0 (set (l # xs)) = {} \<longrightarrow>
      (\<exists>s'. listDup l ps s = Some (hd ps, s') \<and> wf_list s' (hd ps) (tl ps) [] \<and> ring s' l xs))"
proof (intro conjI impI)
  show "list2Vector l backward s = Some (if backward then rev xs else xs)" by (rule list2Vector_ring [OF assms])
  show "listSearchEntry l equal s = Some (case find equal xs of None \<Rightarrow> 0 | Some e \<Rightarrow> e)" by (rule listSearchEntry_ring [OF assms])
  show "\<exists>b. listCat l backward bufferSize catFunc s = Some b \<and> int (length b) \<le> bufferSize - 1
         \<and> b = concat (fitting (nat (bufferSize - 1)) (List.map_filter catFunc (if backward then rev xs else xs)))"
    if "1 \<le> bufferSize \<and> bufferSize < 2 ^ 31"
    using that listCat_ring [OF assms, of bufferSize backward catFunc]
      fitting_length [of "nat (bufferSize - 1)" "List.map_filter catFunc (if backward then rev xs else xs)"] by (auto simp: le_nat_iff)
  show "\<exists>s'. listDup l ps s = Some (hd ps, s') \<and> wf_list s' (hd ps) (tl ps) [] \<and> ring s' l xs"
    if "distinct ps \<and> length ps = Suc (length xs) \<and> set ps \<inter> insert 0 (set (l # xs)) = {}"
    using that listDup_ring [OF assms] by blast
qed

theorem list_loops_end_witness:
  "list2Vector 1 True eg_store = Some [3, 2] \<and> listSearchEntry 1 (\<lambda>e. e > 2) eg_store = Some 3
   \<and> listCat 1 True 4 (\<lambda>e. Some (if e = 2 then ''ab'' else ''cd'')) eg_store = Some ''cd''
   \<and> (\<exists>s'. listDup 1 [20, 21, 22] eg_store = Some (20, s') \<and> wf_list s' 20 [21, 22] [] \<and> ring s' 1 [2, 3])"
proof -
  have r: "ring eg_store 1 [2, 3]" using eg_wf by (simp add: wf_list_def)
  show ?thesis
    using list_loops_end [OF r, where backward = True and equal = "\<lambda>e. e > 2" and bufferSize = 4
        and catFunc = "\<lambda>e. Some (if e = 2 then ''ab'' else ''cd'')" and ps = "[20, 21, 22]"]
    by (simp add: List.map_filter_def)
qed

text \<open>
  C38: Setting an iterator with validation succeeds on the entries of a list that is not empty
  and refuses everything else, leaving the iterator as it was.  On an empty list it starts
  from the NULL that \<open>listGetFrontEntry\<close> returns, which is not the end of the list, and follows
  its forward pointer: a fault, for every entry asked for.
\<close>

theorem set_cur_entry_empty:
  assumes "ring s (it_list iter) xs" "cells s 0 = None" "entry \<noteq> 0"
  shows "listIteratorSetCurEntry iter entry True s =
     (if xs = [] then None else if entry \<in> set xs then Some (0, iter\<lparr>curEnt := entry\<rparr>) else Some (-1, iter))"
proof -
  obtain l c where i: "iter = \<lparr>it_list = l, curEnt = c\<rparr>" by (cases iter) simp
  have r: "ring s l ([] @ xs)" and l: "l \<noteq> 0" using assms(1) i by (simp_all add: ring_def)
  have f: "listGetFrontEntry l s = Some (if xs = [] then 0 else hd (xs @ [l]))"
    using empty_ring [of s l xs] ring_place(1) [OF r] r by (simp add: listGetFrontEntry_def)
  have "find_entry entry \<lparr>it_list = l, curEnt = 0\<rparr> s = None"
    using l assms(2,3) by (subst find_entry.simps) (simp add: listIteratorIsEndOfList_def listIteratorGetCurEntry_def listIteratorNext_def get_forw_def)
  then show ?thesis using f find_entry_ring [OF r, of entry] i by (cases xs) (simp_all add: listIteratorSetCurEntry_def)
qed

theorem set_cur_entry_empty_witness:
  "let s = snd (listCreate 5 eg_store) in
   listIteratorSetCurEntry \<lparr>it_list = 5, curEnt = 5\<rparr> 2 True s = None
   \<and> listIteratorSetCurEntry \<lparr>it_list = 1, curEnt = 1\<rparr> 3 True eg_store = Some (0, \<lparr>it_list = 1, curEnt = 3\<rparr>)"
proof -
  have r: "ring eg_store 1 [2, 3]" "cells eg_store 0 = None" using eg_wf by (simp_all add: wf_list_def eg_store_def)
  have e: "ring (snd (listCreate 5 eg_store)) 5 []" "cells (snd (listCreate 5 eg_store)) 0 = None"
    by (simp_all add: ring_def linked_def listCreate_def eg_store_def get_forw_def get_back_def)
  show ?thesis
    using set_cur_entry_empty [of _ "\<lparr>it_list = 5, curEnt = 5\<rparr>" "[]" 2] set_cur_entry_empty [of eg_store "\<lparr>it_list = 1, curEnt = 1\<rparr>" "[2, 3]" 3] r e
    by simp
qed

end
