(* ===== verification/JobLists.thy ===== *)
theory JobLists
  imports Counters JobIndex DList
begin

text \<open>
  The job lists of the master batch daemon and the changes of a job's state
  (lsbatch/daemons/mbd.job.c): where a job is put into the pending, migrating, started and
  finished lists, and what \<open>jStatusChange\<close>, \<open>handleRequeueJob\<close>, \<open>handleNewJob\<close> and \<open>removeJob\<close> do to
  the lists, to the status of the job, to the counters (theory Counters) and to the counters of
  the job groups above it (\<open>updJgrpCountByJStatus\<close> of mbd.jgrp.c).  Jobs are records at
  addresses; a list of jobs is the list of their addresses in the order of \<open>forw\<close>.

  The event log, replies to clients, the candidate hosts of a job and the tables of preemptable
  resources are not part of the model, nor is \<open>newSub\<close>, the modification kept for the next
  run of a job, which \<open>changeJobParams\<close> applies.
\<close>

section \<open>State\<close>

definition JOB_STAT_PRE_EXEC :: jstatus where "JOB_STAT_PRE_EXEC = 0x04000000"
definition JOB_STAT_RSRC_PREEMPT_WAIT :: jstatus where "JOB_STAT_RSRC_PREEMPT_WAIT = 0x00400000"
definition JOB_STAT_CHKPNTED_ONCE :: jstatus where "JOB_STAT_CHKPNTED_ONCE = 0x10000000"

definition JFLAG_LASTRUN_SUCC :: "32 word" where "JFLAG_LASTRUN_SUCC = 0x002"
definition JFLAG_READY :: "32 word" where "JFLAG_READY = 0x008"
definition JFLAG_SEND_SIG :: "32 word" where "JFLAG_SEND_SIG = 0x10000"
definition JFLAG_READY1 :: "32 word" where "JFLAG_READY1 = 0x100000"
definition JFLAG_READY2 :: "32 word" where "JFLAG_READY2 = 0x200000"
definition JFLAG_URGENT :: "32 word" where "JFLAG_URGENT = 0x400000"
definition JFLAG_URGENT_NOSTOP :: "32 word" where "JFLAG_URGENT_NOSTOP = 0x800000"
definition JFLAG_REQUEUE :: "32 word" where "JFLAG_REQUEUE = 0x1000000"
definition JFLAG_HAS_BEEN_REQUEUED :: "32 word" where "JFLAG_HAS_BEEN_REQUEUED = 0x2000000"
definition JFLAG_WILL_BE_PREEMPTED :: "32 word" where "JFLAG_WILL_BE_PREEMPTED = 0x40000000"

definition SUB_RERUNNABLE :: "32 word" where "SUB_RERUNNABLE = 0x4000"
definition SUB_CHKPNTABLE :: "32 word" where "SUB_CHKPNTABLE = 0x800"
definition SUB_RESTART :: "32 word" where "SUB_RESTART = 0x2000"
definition SUB_RESTART_FORCE :: "32 word" where "SUB_RESTART_FORCE = 0x1000"
definition SUB_INTERACTIVE :: "32 word" where "SUB_INTERACTIVE = 0x4000000"
definition SUB2_HOLD :: "32 word" where "SUB2_HOLD = 0x01"
definition DEL_ACTION_REQUEUE :: "32 word" where "DEL_ACTION_REQUEUE = 0x02"

definition PEND_JOB_NEW :: int where "PEND_JOB_NEW = 1"
definition PEND_JOB_PRE_EXEC :: int where "PEND_JOB_PRE_EXEC = 6"
definition PEND_JOB_REQUEUED :: int where "PEND_JOB_REQUEUED = 23"
definition PEND_JOB_SWITCH :: int where "PEND_JOB_SWITCH = 14"
definition PEND_QUE_PRE_FAIL :: int where "PEND_QUE_PRE_FAIL = 306"
definition PEND_SBD_JOB_REQUEUE :: int where "PEND_SBD_JOB_REQUEUE = 311"
definition PEND_USER_STOP :: int where "PEND_USER_STOP = 607"
definition EXIT_NORMAL :: int where "EXIT_NORMAL = 0"
definition EXIT_KILL_ZOMBIE :: "32 word" where "EXIT_KILL_ZOMBIE = 0x8"
definition EXIT_NO_MAPPING :: int where "EXIT_NO_MAPPING = 0x40"
definition EXIT_INIT_ENVIRON :: int where "EXIT_INIT_ENVIRON = 0x100"
definition EXIT_PRE_EXEC :: int where "EXIT_PRE_EXEC = 0x200"

definition LOG_IT :: int where "LOG_IT = 0"
definition SIG_NULL :: int where "SIG_NULL = -65535"

text \<open>
  A job is the record the counters are about, with the fields the list operations and changes
  of state use.  \<open>jd_jgrp\<close> are the groups and arrays above the job's node, from the node up;
  \<open>jd_dptRoot\<close> says whether the job has a dependency condition.
\<close>

record jData = job +
  jd_jobId :: int
  jd_jobPriority :: int
  jd_submitTime :: int
  jd_startTime :: int
  jd_endTime :: int
  jd_updStateTime :: int
  jd_resumeTime :: int
  jd_runTime :: int
  jd_requeueTime :: int
  jd_reserveTime :: int
  jd_newReason :: int
  jd_subreasons :: int
  jd_runCount :: int
  jd_nextSeq :: int
  jd_jFlags :: "32 word"
  jd_options :: "32 word"
  jd_options2 :: "32 word"
  jd_userPriority :: int
  jd_sig1Flags :: jstatus
  jd_sigDel :: "32 word"
  jd_sig1 :: int
  jd_sig :: int
  jd_dptRoot :: bool
  jd_jobPid :: int
  jd_restartPid :: int
  jd_cpuTime :: int
  jd_notSwitched :: bool
  jd_notModified :: bool
  jd_jgrp :: "string list"

datatype jlistno = SJL | MJL | PJL | FJL

text \<open>
  The daemon: the counters, the jobs, the lists and their counts, the counters of the job
  groups by index, the numbers of jobs dispatched to the hosts, the priority and attribute of the queues, and the parameters of the
  scheduler that matter here.
\<close>

record sys =
  s_mbd :: mbd
  s_jobs :: "pointer \<Rightarrow> jData"
  s_lists :: "jlistno \<Rightarrow> pointer list"
  s_numEnts :: "jlistno \<Rightarrow> int"
  s_jgrp :: "string \<Rightarrow> nat \<Rightarrow> int"
  s_numDispJobs :: "string \<Rightarrow> int"
  s_qprio :: "string \<Rightarrow> int"
  s_qahead :: "string \<Rightarrow> bool"
  s_requeueToBottom :: bool
  s_arraySchedOrder :: bool
  s_glMigToPendFlag :: bool
  s_maxUserPriority :: int
  s_jobPriorityValue :: int
  s_jobPriorityTime :: int
  s_statusChanged :: bool
  s_eventPending :: bool
  s_numRemoveJobs :: int
  s_now :: int
  s_time :: int

definition jb :: "sys \<Rightarrow> pointer \<Rightarrow> jData" where
  "jb s r = s_jobs s r"

definition upd_job :: "pointer \<Rightarrow> (jData \<Rightarrow> jData) \<Rightarrow> sys \<Rightarrow> sys" where
  "upd_job r f s = s\<lparr>s_jobs := (s_jobs s)(r := f (s_jobs s r))\<rparr>"

section \<open>Lists\<close>

definition prio :: "sys \<Rightarrow> pointer \<Rightarrow> int" where
  "prio s r = s_qprio s (j_queue (jb s r))"

definition jobsOnSameSegment :: "sys \<Rightarrow> pointer \<Rightarrow> pointer \<Rightarrow> bool" where
  "jobsOnSameSegment s j1 j2 \<longleftrightarrow> (if j_queue (jb s j2) = j_queue (jb s j1) then True else prio s j2 = prio s j1)"

text \<open>
  The loop of \<open>inPendJobList\<close> over the rest of the list: the place where it stops (the entries
  from there on) and \<open>lastJob\<close>.
\<close>

definition older :: "sys \<Rightarrow> pointer \<Rightarrow> int \<Rightarrow> pointer \<Rightarrow> bool" where
  "older s job compareTime jp \<longleftrightarrow>
     compareTime > jd_submitTime (jb s jp)
     \<or> compareTime = jd_submitTime (jb s jp)
       \<and> (s_arraySchedOrder s \<and> LSB_ARRAY_IDX (word_of_int (jd_jobId (jb s job))) \<noteq> 0
          \<or> jd_jobId (jb s job) = -1 \<or> jd_jobId (jb s jp) = -1 \<or> jd_jobId (jb s job) > jd_jobId (jb s jp))"

definition mark_last :: "sys \<Rightarrow> pointer \<Rightarrow> pointer \<Rightarrow> pointer option \<Rightarrow> pointer option" where
  "mark_last s job jp lastJob =
     (if jd_submitTime (jb s job) > jd_submitTime (jb s jp) \<and> lastJob = None then Some jp
      else if jd_submitTime (jb s job) = jd_submitTime (jb s jp) \<and> lastJob = None
      then (if jd_jobId (jb s job) = -1 \<or> jd_jobId (jb s jp) = -1 then Some jp
            else if jd_jobId (jb s job) > jd_jobId (jb s jp) then Some jp else lastJob)
      else lastJob)"

fun pend_scan :: "sys \<Rightarrow> pointer \<Rightarrow> int \<Rightarrow> pointer list \<Rightarrow> pointer option \<Rightarrow> pointer list \<times> pointer option" where
  "pend_scan s job compareTime [] lastJob = ([], lastJob)"
| "pend_scan s job compareTime (jp # rest) lastJob =
     (if prio s job < prio s jp then (jp # rest, lastJob)
      else if prio s job = prio s jp then
        (if \<not> jobsOnSameSegment s job jp then
           (let lastJob' = mark_last s job jp lastJob in
            pend_scan s job compareTime rest
              (if rest \<noteq> [] \<and> jobsOnSameSegment s (hd rest) job then None else lastJob'))
         else if s_qahead s (j_queue (jb s job)) \<and> jd_options (jb s job) AND SUB_INTERACTIVE \<noteq> 0
                 \<and> jd_options (jb s jp) AND SUB_INTERACTIVE = 0
         then pend_scan s job compareTime rest lastJob
         else if jd_jobPriority (jb s job) < jd_jobPriority (jb s jp) then (jp # rest, lastJob)
         else if jd_jobPriority (jb s job) = jd_jobPriority (jb s jp) \<and> older s job compareTime jp then (jp # rest, lastJob)
         else if rest \<noteq> [] \<and> jobsOnSameSegment s job jp \<and> \<not> jobsOnSameSegment s job (hd rest) then (rest, lastJob)
         else pend_scan s job compareTime rest lastJob)
      else pend_scan s job compareTime rest lastJob)"

text \<open>The walk back from \<open>lastJob\<close> to the first job of its segment; \<open>ps\<close> are the jobs before it, nearest first.\<close>

fun segment_start :: "sys \<Rightarrow> pointer \<Rightarrow> pointer list \<Rightarrow> pointer" where
  "segment_start s lastJob [] = lastJob"
| "segment_start s lastJob (p # ps) = (if \<not> jobsOnSameSegment s lastJob p then lastJob else segment_start s p ps)"

definition insert_before :: "pointer \<Rightarrow> pointer \<Rightarrow> pointer list \<Rightarrow> pointer list" where
  "insert_before succ e xs = takeWhile (\<lambda>x. x \<noteq> succ) xs @ e # dropWhile (\<lambda>x. x \<noteq> succ) xs"

definition put_list :: "jlistno \<Rightarrow> pointer list \<Rightarrow> sys \<Rightarrow> sys" where
  "put_list l xs s = s\<lparr>s_lists := (s_lists s)(l := xs), s_numEnts := (s_numEnts s)(l := s_numEnts s l + 1)\<rparr>"

definition pend_place :: "sys \<Rightarrow> pointer \<Rightarrow> int \<Rightarrow> pointer list \<Rightarrow> pointer list" where
  "pend_place s job compareTime xs =
     (let (rest, lastJob) = pend_scan s job compareTime xs None in
      case lastJob of
        None \<Rightarrow> take (length xs - length rest) xs @ job # rest
      | Some q \<Rightarrow>
          (let q' = (if \<not> jobsOnSameSegment s job q then segment_start s q (rev (takeWhile (\<lambda>x. x \<noteq> q) xs)) else q) in
           insert_before q' job xs))"

definition inPendJobList :: "pointer \<Rightarrow> jlistno \<Rightarrow> int \<Rightarrow> sys \<Rightarrow> sys" where
  "inPendJobList job listno requeueTime s =
     (let compareTime = (if requeueTime \<noteq> 0 \<and> listno = PJL
                            \<and> (s_requeueToBottom s \<or> jd_sigDel (jb s job) AND DEL_ACTION_REQUEUE \<noteq> 0)
                         then requeueTime else jd_submitTime (jb s job));
          s = upd_job job (\<lambda>j. j\<lparr>jd_sigDel := jd_sigDel j AND NOT DEL_ACTION_REQUEUE\<rparr>) s in
      put_list listno (pend_place s job compareTime (s_lists s listno)) s)"

text \<open>A job is taken out of the list it is in; the count that goes down is that of the list named.\<close>

definition offJobList :: "pointer \<Rightarrow> jlistno \<Rightarrow> sys \<Rightarrow> sys" where
  "offJobList jp listno s =
     (if \<exists>l\<in>{SJL, MJL, PJL, FJL}. jp \<in> set (s_lists s l)
      then s\<lparr>s_lists := (\<lambda>l. remove1 jp (s_lists s l)), s_numEnts := (s_numEnts s)(listno := s_numEnts s listno - 1)\<rparr>
      else s)"

definition start_stop :: "sys \<Rightarrow> pointer \<Rightarrow> pointer \<Rightarrow> bool" where
  "start_stop s job jp \<longleftrightarrow>
     prio s job < prio s jp
     \<or> prio s job = prio s jp
       \<and> (jd_startTime (jb s job) > jd_startTime (jb s jp)
          \<or> (jd_startTime (jb s job) = jd_startTime (jb s jp) \<or> jd_startTime (jb s job) = 0)
            \<and> jd_jobId (jb s job) > jd_jobId (jb s jp))"

definition start_place :: "sys \<Rightarrow> pointer \<Rightarrow> pointer list \<Rightarrow> pointer list" where
  "start_place s job xs =
     takeWhile (\<lambda>jp. \<not> start_stop s job jp) xs @ job # dropWhile (\<lambda>jp. \<not> start_stop s job jp) xs"

definition inStartJobList :: "pointer \<Rightarrow> sys \<Rightarrow> sys" where
  "inStartJobList job s = put_list SJL (start_place s job (s_lists s SJL)) s"

definition PJLorMJL :: "pointer \<Rightarrow> sys \<Rightarrow> jlistno" where
  "PJLorMJL job s = (if job \<in> set (s_lists s MJL) then MJL else PJL)"

text \<open>\<open>inList\<close> at the front of the finished list does not count the entry.\<close>

definition in_finished :: "pointer \<Rightarrow> sys \<Rightarrow> sys" where
  "in_finished job s = s\<lparr>s_lists := (s_lists s)(FJL := job # s_lists s FJL)\<rparr>"

definition jobInQueueEnd :: "pointer \<Rightarrow> string \<Rightarrow> sys \<Rightarrow> sys" where
  "jobInQueueEnd job qp s =
     (let st = j_status (jb s job) in
      if IS_FINISH st then s
      else
        (let listno = (if IS_PEND st then PJLorMJL job s else SJL);
             s = upd_job job (\<lambda>j. j\<lparr>j_queue := qp\<rparr>) (offJobList job listno s) in
         if IS_PEND st then
           (if has st JOB_STAT_MIG then
              (if s_glMigToPendFlag s
               then upd_job job (\<lambda>j. j\<lparr>j_status := j_status j AND NOT JOB_STAT_MIG\<rparr>) (inPendJobList job PJL 0 s)
               else inPendJobList job MJL 0 s)
            else inPendJobList job PJL 0 s)
         else inStartJobList job s))"

section \<open>Changes of state\<close>

text \<open>The counters of job groups: the index for a status, and the change along the groups above a job.\<close>

definition JGRP_COUNT_NJOBS :: nat where "JGRP_COUNT_NJOBS = 0"

definition getIndexOfJStatus :: "jstatus \<Rightarrow> nat" where
  "getIndexOfJStatus status =
     (let st = MASK_STATUS (status AND NOT JOB_STAT_UNKWN AND NOT JOB_STAT_PDONE AND NOT JOB_STAT_PERR) in
      if st = JOB_STAT_PEND \<or> st = JOB_STAT_RUN OR JOB_STAT_WAIT then 1
      else if st = JOB_STAT_PSUSP then 2
      else if st = JOB_STAT_RUN then 3
      else if st = JOB_STAT_SSUSP then 4
      else if st = JOB_STAT_USUSP then 5
      else if st = JOB_STAT_EXIT \<or> st = JOB_STAT_EXIT OR JOB_STAT_WAIT then 6
      else if st = JOB_STAT_DONE \<or> st = JOB_STAT_DONE OR JOB_STAT_WAIT then 7
      else 8)"

definition bump :: "nat \<Rightarrow> int \<Rightarrow> (nat \<Rightarrow> int) \<Rightarrow> (nat \<Rightarrow> int)" where
  "bump i d c = c(i := c i + d)"

definition jgrp_change :: "jstatus \<Rightarrow> jstatus \<Rightarrow> (nat \<Rightarrow> int) \<Rightarrow> (nat \<Rightarrow> int)" where
  "jgrp_change oldStatus newStatus c =
     (let c = (if oldStatus \<noteq> JOB_STAT_NULL then bump JGRP_COUNT_NJOBS (-1) (bump (getIndexOfJStatus oldStatus) (-1) c) else c) in
      if newStatus \<noteq> JOB_STAT_NULL then bump JGRP_COUNT_NJOBS 1 (bump (getIndexOfJStatus newStatus) 1 c) else c)"

definition updJgrpCountByJStatus :: "pointer \<Rightarrow> jstatus \<Rightarrow> jstatus \<Rightarrow> sys \<Rightarrow> sys" where
  "updJgrpCountByJStatus job oldStatus newStatus s =
     s\<lparr>s_jgrp := fold (\<lambda>g cs. cs(g := jgrp_change oldStatus newStatus (cs g))) (jd_jgrp (jb s job)) (s_jgrp s)\<rparr>"

text \<open>The counters of queues, users and hosts see the job without the fields added here.\<close>

abbreviation core :: "jData \<Rightarrow> job" where
  "core j \<equiv> job.truncate j"

definition counters :: "(mbd \<Rightarrow> mbd) \<Rightarrow> sys \<Rightarrow> sys" where
  "counters f s = s\<lparr>s_mbd := f (s_mbd s)\<rparr>"

text \<open>Releasing a reservation: \<open>freeReserveSlots\<close> with \<open>deallocHosts\<close>, and \<open>resetReserve\<close>.\<close>

definition clear_reserve :: "pointer \<Rightarrow> sys \<Rightarrow> sys" where
  "clear_reserve r s =
     upd_job r (\<lambda>j. j\<lparr>j_status := j_status j AND NOT JOB_STAT_RESERVE\<rparr>)
       (counters (updResCounters (core (jb s r)) (j_status (jb s r) AND NOT JOB_STAT_RESERVE)) s)"

definition deallocHosts :: "pointer \<Rightarrow> sys \<Rightarrow> sys" where
  "deallocHosts r s =
     upd_job r (\<lambda>j. j\<lparr>j_hosts := []\<rparr>)
       (s\<lparr>s_numDispJobs := (\<lambda>h. s_numDispJobs s h - int (count_list (j_hosts (jb s r)) h))\<rparr>)"

definition freeReserveSlots :: "pointer \<Rightarrow> sys \<Rightarrow> sys" where
  "freeReserveSlots r s = (if \<not> has (j_status (jb s r)) JOB_STAT_RESERVE then s else deallocHosts r (clear_reserve r s))"

definition resetReserve :: "pointer \<Rightarrow> jstatus \<Rightarrow> sys \<Rightarrow> sys" where
  "resetReserve r newStatus s =
     (if \<not> has (j_status (jb s r)) JOB_STAT_RESERVE then s
      else
        (let s = (if (has newStatus JOB_STAT_PSUSP \<or> IS_FINISH newStatus) \<and> has (j_status (jb s r)) JOB_STAT_PEND
                  then upd_job r (\<lambda>j. j\<lparr>j_status := j_status j AND NOT JOB_STAT_RESERVE, jd_reserveTime := 0\<rparr>) (freeReserveSlots r s)
                  else s) in
         if IS_START (j_status (jb s r))
            \<and> (has newStatus JOB_STAT_RUN \<or> IS_FINISH newStatus \<or> has newStatus JOB_STAT_USUSP \<or> has newStatus JOB_STAT_PEND)
         then clear_reserve r s else s))"

text \<open>
  The preemption bookkeeping, as far as it changes the job: \<open>freeReservePreemptResources\<close> clears
  the wait bit, \<open>updateStopJobPreemptResources\<close> the mark of a job chosen for preemption.
\<close>

definition freeReservePreemptResources :: "pointer \<Rightarrow> sys \<Rightarrow> sys" where
  "freeReservePreemptResources r s = upd_job r (\<lambda>j. j\<lparr>j_status := j_status j AND NOT JOB_STAT_RSRC_PREEMPT_WAIT\<rparr>) s"

definition updateStopJobPreemptResources :: "pointer \<Rightarrow> sys \<Rightarrow> sys" where
  "updateStopJobPreemptResources r s =
     (if jd_jFlags (jb s r) AND JFLAG_WILL_BE_PREEMPTED \<noteq> 0
      then upd_job r (\<lambda>j. j\<lparr>jd_jFlags := jd_jFlags j AND NOT JFLAG_WILL_BE_PREEMPTED\<rparr>) s else s)"

definition accum_job :: "int \<Rightarrow> int \<Rightarrow> jstatus \<Rightarrow> jData \<Rightarrow> jData" where
  "accum_job nowv currentTime newStatus j =
     (let st = j_status j;
          j = (if has newStatus JOB_STAT_RUN \<and> has st JOB_STAT_PEND then j\<lparr>jd_runTime := 0\<rparr>
               else if has newStatus JOB_STAT_RUN \<and> IS_SUSP st then j\<lparr>jd_resumeTime := nowv\<rparr>
               else if \<not> IS_START newStatus \<and> IS_START st then j\<lparr>jd_runTime := 0\<rparr>
               else if has st JOB_STAT_RUN then j\<lparr>jd_runTime := c_int (jd_runTime j + c_int (currentTime - jd_updStateTime j))\<rparr>
               else j) in
      j\<lparr>jd_updStateTime := currentTime\<rparr>)"

definition accumRunTime :: "pointer \<Rightarrow> jstatus \<Rightarrow> int \<Rightarrow> sys \<Rightarrow> sys" where
  "accumRunTime r newStatus eventTime s =
     upd_job r (accum_job (s_now s) (if eventTime \<noteq> 0 then eventTime else s_time s) newStatus) s"

text \<open>\<open>freeExecParams\<close> with \<open>cleanCandHosts\<close>, and the small assignments.\<close>

definition cleanCandHosts :: "jData \<Rightarrow> jData" where
  "cleanCandHosts j = (if IS_PEND (j_status j) then j\<lparr>jd_jFlags := jd_jFlags j AND NOT JFLAG_READY\<rparr> else j)"

definition free_exec :: "jData \<Rightarrow> jData" where
  "free_exec j =
     cleanCandHosts (j\<lparr>j_hosts := [], jd_nextSeq := 1\<rparr>)"

definition freeExecParams :: "pointer \<Rightarrow> sys \<Rightarrow> sys" where
  "freeExecParams r s = upd_job r free_exec s"

definition setJobPendReason :: "int \<Rightarrow> jData \<Rightarrow> jData" where
  "setJobPendReason pendReason j = j\<lparr>jd_newReason := pendReason\<rparr>"

definition jobRequeueTimeUpdate :: "int \<Rightarrow> jData \<Rightarrow> jData" where
  "jobRequeueTimeUpdate t j = j\<lparr>jd_requeueTime := t\<rparr>"

definition finish_flags :: "jstatus \<Rightarrow> jData \<Rightarrow> jData" where
  "finish_flags oldStatus j =
     (let requeue = jd_sigDel j AND DEL_ACTION_REQUEUE \<noteq> 0;
          j = (if (jd_options j AND SUB_RERUNNABLE \<noteq> 0 \<or> requeue) \<and> (has oldStatus JOB_STAT_ZOMBIE \<or> requeue)
                  \<and> word_of_int (jd_newReason j) AND EXIT_KILL_ZOMBIE = 0
               then j\<lparr>jd_jFlags := jd_jFlags j OR JFLAG_REQUEUE\<rparr> else j) in
      j\<lparr>j_status := j_status j AND NOT JOB_STAT_MIG, jd_sig1 := SIG_NULL, jd_sig := SIG_NULL,
        jd_notSwitched := False, jd_notModified := False\<rparr>)"

definition handleFinishJob :: "pointer \<Rightarrow> jstatus \<Rightarrow> sys \<Rightarrow> sys" where
  "handleFinishJob r oldStatus s =
     (let s = upd_job r (finish_flags oldStatus) s;
          listno = (if IS_START oldStatus then SJL else PJLorMJL r s) in
      in_finished r (offJobList r listno s))"

text \<open>The branches of \<open>jStatusChange\<close> on the lists; the status is already the new one.\<close>

definition to_started :: "pointer \<Rightarrow> sys \<Rightarrow> sys" where
  "to_started r s =
     (let s = upd_job r (\<lambda>j. j\<lparr>jd_newReason := 0, jd_subreasons := 0, jd_reserveTime := 0,
                               j_status := j_status j AND NOT JOB_STAT_MIG\<rparr>) s in
      inStartJobList r (offJobList r (PJLorMJL r s) s))"

definition exit_reason :: "jData \<Rightarrow> jData" where
  "exit_reason j =
     (let j = (if \<not> has (j_status j) JOB_STAT_ZOMBIE
                  \<and> jd_newReason j \<notin> {EXIT_INIT_ENVIRON, EXIT_NO_MAPPING, EXIT_PRE_EXEC}
               then j\<lparr>jd_newReason := EXIT_NORMAL\<rparr> else j) in
      if jd_runCount j \<noteq> INFINIT_INT then j\<lparr>jd_runCount := max 0 (jd_runCount j - 1)\<rparr> else j)"

definition to_finished :: "pointer \<Rightarrow> jstatus \<Rightarrow> sys \<Rightarrow> sys" where
  "to_finished r oldStatus s = handleFinishJob r oldStatus (upd_job r exit_reason s)"

definition back_to_pend :: "pointer \<Rightarrow> int \<Rightarrow> sys \<Rightarrow> sys" where
  "back_to_pend r eventTime s =
     (let s = upd_job r (jobRequeueTimeUpdate (if eventTime = LOG_IT then s_time s else eventTime)) s;
          s = offJobList r SJL s;
          s = upd_job r (\<lambda>j. if jd_newReason j \<in> {PEND_JOB_PRE_EXEC, PEND_QUE_PRE_FAIL, PEND_SBD_JOB_REQUEUE}
                              then j\<lparr>jd_startTime := 0\<rparr> else j) s;
          s = (if has (j_status (jb s r)) JOB_STAT_MIG then
                 (let s = upd_job r (\<lambda>j. if jd_options j AND SUB_CHKPNTABLE \<noteq> 0
                                         then j\<lparr>jd_options := jd_options j OR SUB_RESTART OR SUB_RESTART_FORCE\<rparr> else j) s in
                  if s_glMigToPendFlag s
                  then upd_job r (\<lambda>j. j\<lparr>j_status := j_status j AND NOT JOB_STAT_MIG\<rparr>) (inPendJobList r PJL (s_time s) s)
                  else inPendJobList r MJL 0 s)
               else if jd_newReason (jb s r) = PEND_SBD_JOB_REQUEUE then inPendJobList r PJL (s_time s) s
               else inPendJobList r PJL 0 s) in
      upd_job r (\<lambda>j. setJobPendReason (jd_newReason j) (j\<lparr>j_status := j_status j AND NOT JOB_STAT_PRE_EXEC\<rparr>)) s)"

definition same_list :: "pointer \<Rightarrow> jstatus \<Rightarrow> sys \<Rightarrow> sys" where
  "same_list r newStatus s =
     (if has newStatus JOB_STAT_RUN
      then upd_job r (\<lambda>j. j\<lparr>jd_newReason := 0, jd_subreasons := 0, jd_reserveTime := 0,
                            jd_jFlags := jd_jFlags j AND NOT JFLAG_SEND_SIG\<rparr>) s
      else s)"

text \<open>During the replay of the log, a job that was started but waiting goes back to pending when it is suspended.\<close>

definition replay_wait :: "pointer \<Rightarrow> jstatus \<Rightarrow> sys \<Rightarrow> sys" where
  "replay_wait r newStatus s =
     (let s = offJobList r SJL s;
          s = upd_job r (\<lambda>j. j\<lparr>j_status := (if has newStatus JOB_STAT_SSUSP then JOB_STAT_PEND else JOB_STAT_PSUSP), j_hosts := []\<rparr>) s in
      inPendJobList r PJL 0 s)"

definition before_change :: "pointer \<Rightarrow> jstatus \<Rightarrow> int \<Rightarrow> sys \<Rightarrow> sys" where
  "before_change r newStatus eventTime s =
     (let s = (if eventTime = LOG_IT \<and> has (j_status (jb s r)) JOB_STAT_RESERVE then resetReserve r newStatus s else s);
          s = (if eventTime = LOG_IT \<and> has (j_status (jb s r)) JOB_STAT_RSRC_PREEMPT_WAIT
                  \<and> (\<not> IS_PEND newStatus \<and> \<not> has newStatus JOB_STAT_SSUSP \<or> has newStatus JOB_STAT_PSUSP \<or> IS_FINISH newStatus)
               then freeReservePreemptResources r s else s);
          s = (if eventTime = LOG_IT \<and> has (j_status (jb s r)) JOB_STAT_RUN
                  \<and> (\<not> has newStatus JOB_STAT_RUN \<or> IS_FINISH newStatus \<or> IS_SUSP newStatus)
               then updateStopJobPreemptResources r s else s);
          s = (if jd_jobId (jb s r) \<ge> 0 then updJgrpCountByJStatus r (j_status (jb s r)) newStatus s else s);
          s = accumRunTime r newStatus eventTime s;
          st = j_status (jb s r) in
      if \<not> m_replay (s_mbd s) \<and> (IS_PEND st \<and> IS_START newStatus \<or> IS_START st \<and> IS_FINISH newStatus)
      then s\<lparr>s_statusChanged := True\<rparr> else s)"

definition set_state :: "jstatus \<Rightarrow> jData \<Rightarrow> jData" where
  "set_state newStatus j =
     (let j = j\<lparr>j_status := SET_STATE (j_status j) newStatus\<rparr> in
      if has (j_status j) JOB_STAT_PSUSP \<and> jd_options2 j AND SUB2_HOLD \<noteq> 0 then j\<lparr>jd_startTime := 0, jd_endTime := 0\<rparr> else j)"

definition jStatusChange :: "pointer \<Rightarrow> jstatus \<Rightarrow> int \<Rightarrow> sys \<Rightarrow> sys" where
  "jStatusChange r newStatus0 eventTime s =
     (let oldStatus = j_status (jb s r) in
      if base newStatus0 = base oldStatus then s
      else
        (let newStatus = MASK_STATUS newStatus0;
             s = upd_job r (set_state newStatus) (before_change r newStatus eventTime s);
             freeExec = (\<not> (IS_START newStatus \<and> IS_PEND oldStatus) \<and> \<not> IS_FINISH newStatus
                         \<and> has newStatus JOB_STAT_PEND \<and> IS_START oldStatus);
             s = (if IS_START newStatus \<and> IS_PEND oldStatus then to_started r s
                  else if IS_FINISH newStatus then to_finished r oldStatus s
                  else if freeExec then back_to_pend r eventTime s
                  else same_list r newStatus s);
             s = (if \<not> m_replay (s_mbd s) \<or> eventTime = LOG_IT
                  then counters (updCounters (core (jb s r)) oldStatus) s
                  else if has oldStatus JOB_STAT_RUN \<and> has oldStatus JOB_STAT_WAIT
                          \<and> (has newStatus JOB_STAT_SSUSP \<or> has newStatus JOB_STAT_USUSP)
                  then replay_wait r newStatus s
                  else s) in
         if freeExec then freeExecParams r s else s))"

text \<open>A finished job runs again.\<close>

definition requeue_job :: "sys \<Rightarrow> jData \<Rightarrow> jData" where
  "requeue_job s j =
     (let fl = jd_jFlags j AND NOT JFLAG_REQUEUE;
          fl = (if has (j_status j) JOB_STAT_DONE then fl OR JFLAG_LASTRUN_SUCC else fl AND NOT JFLAG_LASTRUN_SUCC);
          fl = fl AND NOT (JFLAG_READY1 OR JFLAG_READY2) AND NOT (JFLAG_URGENT OR JFLAG_URGENT_NOSTOP) in
      j\<lparr>jd_jFlags := fl, jd_runCount := 1,
        jd_startTime := (if jd_options j AND SUB_RERUNNABLE \<noteq> 0 \<and> has (j_status j) JOB_STAT_MIG then 0 else jd_startTime j),
        jd_restartPid := (if jd_options j AND SUB_RERUNNABLE \<noteq> 0 \<and> has (j_status j) JOB_STAT_CHKPNTED_ONCE
                          then jd_jobPid j else jd_restartPid j),
        j_status := JOB_STAT_PEND, jd_cpuTime := 0,
        jd_jobPriority := (if jd_userPriority j > 0 then jd_userPriority j
                           else if s_maxUserPriority s > 0 then s_maxUserPriority s div 2 else -1)\<rparr>)"

definition handleRequeueJob :: "pointer \<Rightarrow> int \<Rightarrow> sys \<Rightarrow> sys" where
  "handleRequeueJob r requeueTime s =
     (let s = updJgrpCountByJStatus r (j_status (jb s r)) JOB_STAT_PEND s;
          s = upd_job r (requeue_job s) s;
          s = inPendJobList r PJL requeueTime (offJobList r FJL s);
          s = upd_job r (jobRequeueTimeUpdate requeueTime) s;
          s = (if jd_sig1Flags (jb s r) = JOB_STAT_PSUSP
               then upd_job r (\<lambda>j. j\<lparr>jd_sig1Flags := 0\<rparr>)
                      (updJgrpCountByJStatus r JOB_STAT_PEND JOB_STAT_PSUSP
                        (upd_job r (\<lambda>j. setJobPendReason PEND_USER_STOP (j\<lparr>j_status := JOB_STAT_PSUSP\<rparr>)) s))
               else upd_job r (setJobPendReason PEND_JOB_REQUEUED) s);
          s = freeExecParams r s;
          s = counters (count_new (core (jb s r))) s in
      if jd_jFlags (jb s r) AND JFLAG_HAS_BEEN_REQUEUED \<noteq> 0
      then s\<lparr>s_numRemoveJobs := s_numRemoveJobs s + 1\<rparr>
      else upd_job r (\<lambda>j. j\<lparr>jd_jFlags := jd_jFlags j OR JFLAG_HAS_BEEN_REQUEUED\<rparr>) s)"

text \<open>
  A new job \<open>j\<close> at address \<open>r\<close>, which gets the groups \<open>gs\<close> above it in the tree, or a job read from
  the log (\<open>replay\<close>).  The table of job ids is that of theory HashTab.
\<close>

definition putOntoTree :: "pointer \<Rightarrow> string list \<Rightarrow> sys \<Rightarrow> sys" where
  "putOntoTree r gs s =
     (let s = upd_job r (\<lambda>j. j\<lparr>jd_jgrp := gs\<rparr>) s;
          s = updJgrpCountByJStatus r JOB_STAT_NULL (j_status (jb s r)) s in
      upd_job r (\<lambda>j. j\<lparr>jd_runCount := 1, jd_newReason := (if jd_newReason j = 0 then PEND_JOB_NEW else jd_newReason j),
                           jd_jFlags := (if jd_dptRoot j then jd_jFlags j else jd_jFlags j OR JFLAG_READY2)\<rparr>) s)"

definition modifyJobPriority :: "sys \<Rightarrow> int \<Rightarrow> jData \<Rightarrow> jData" where
  "modifyJobPriority s subPriority j =
     (let timeIntvl = ((s_time s - jd_submitTime j) sdiv 60) mod 2 ^ 64;
          newVal = c_uint (subPriority + ((timeIntvl * s_jobPriorityValue s) mod 2 ^ 64) div s_jobPriorityTime s) in
      j\<lparr>jd_jobPriority := (if s_jobPriorityValue s < 0 \<or> s_jobPriorityTime s < 0 then subPriority else min newVal INFINIT_INT)\<rparr>)"

definition replay_priority :: "pointer \<Rightarrow> sys \<Rightarrow> sys" where
  "replay_priority r s =
     (if s_maxUserPriority s > 0
      then inPendJobList r PJL 0
             (offJobList r PJL
               (upd_job r (\<lambda>j. modifyJobPriority s (if jd_userPriority j < 0 then s_maxUserPriority s div 2 else jd_userPriority j) j) s))
      else s)"

definition handleNewJob :: "pointer \<Rightarrow> jData \<Rightarrow> string list \<Rightarrow> bool \<Rightarrow> sys \<Rightarrow> sys" where
  "handleNewJob r j gs replay s =
     (let s = inPendJobList r PJL 0 (upd_job r (\<lambda>_. j) s);
          s = putOntoTree r gs s;
          s = upd_job r (\<lambda>j. j\<lparr>jd_jFlags := jd_jFlags j OR JFLAG_READY2\<rparr>) s;
          s = counters (count_new (core (jb s r))) s;
          s = (if replay then replay_priority r s else s) in
      if jd_options2 (jb s r) AND SUB2_HOLD \<noteq> 0
      then jStatusChange r JOB_STAT_PSUSP (-1) (upd_job r (\<lambda>j. j\<lparr>jd_newReason := PEND_USER_STOP\<rparr>) s)
      else s)"

text \<open>A finished job is forgotten: it leaves the finished list and the counts of the groups above it.\<close>

definition removeJob :: "pointer \<Rightarrow> sys \<Rightarrow> sys" where
  "removeJob r s =
     (let s = offJobList r FJL s;
          s = s\<lparr>s_numRemoveJobs := s_numRemoveJobs s + 1\<rparr> in
      updJgrpCountByJStatus r (j_status (jb s r)) JOB_STAT_NULL s)"

text \<open>The changes \<open>switchAJob\<close> makes once its checks have passed: the job goes to the queue \<open>qtp\<close>.\<close>

definition unreserved :: "pointer \<Rightarrow> sys \<Rightarrow> sys" where
  "unreserved r s =
     (let s = (if IS_PEND (j_status (jb s r)) \<and> has (j_status (jb s r)) JOB_STAT_RESERVE
               then upd_job r (\<lambda>j. j\<lparr>jd_reserveTime := 0\<rparr>) (freeReserveSlots r s) else s) in
      if has (j_status (jb s r)) JOB_STAT_RSRC_PREEMPT_WAIT then freeReservePreemptResources r s else s)"

definition switch_commit :: "pointer \<Rightarrow> string \<Rightarrow> sys \<Rightarrow> sys" where
  "switch_commit r qtp s =
     (let qfp = j_queue (jb s r);
          s = unreserved r s;
          s = jobInQueueEnd r qtp s;
          (j, m) = updSwitchJob (core (jb s r)) qfp qtp (j_numReq (jb s r)) (s_mbd s);
          s = upd_job r (\<lambda>jd. jd\<lparr>j_queue := j_queue j, j_status := j_status j\<rparr>) (s\<lparr>s_mbd := m\<rparr>) in
      if \<not> IS_PEND (j_status (jb s r))
      then upd_job r (\<lambda>j. j\<lparr>jd_notSwitched := True\<rparr>) (s\<lparr>s_eventPending := True\<rparr>)
      else if \<not> has (j_status (jb s r)) JOB_STAT_PSUSP then upd_job r (\<lambda>j. setJobPendReason PEND_JOB_SWITCH (if qfp \<noteq> qtp then cleanCandHosts j else j)) s
      else s)"

section \<open>Places\<close>

text \<open>The place \<open>inPendJobList\<close> finds is a place of the list, and \<open>lastJob\<close> is never set.\<close>

lemma segment_priority: "jobsOnSameSegment s a b \<longleftrightarrow> prio s a = prio s b"
  by (auto simp: jobsOnSameSegment_def prio_def)

lemma pend_scan_last: "snd (pend_scan s job t xs lastJob) = lastJob"
  by (induction s job t xs lastJob rule: pend_scan.induct) (auto simp: segment_priority)

lemma pend_scan_suffix: "\<exists>pre. xs = pre @ fst (pend_scan s job t xs lastJob)"
proof (induction s job t xs lastJob rule: pend_scan.induct)
  case (2 s job t jp rest lastJob)
  have "\<exists>pre. jp # rest = pre @ fst (pend_scan s job t rest l)" if "\<exists>pre. rest = pre @ fst (pend_scan s job t rest l)" for l
    using that by (metis append_Cons)
  moreover have "\<exists>pre. jp # rest = pre @ rest" by (intro exI [of _ "[jp]"]) simp
  ultimately show ?case using 2 by (auto simp: Let_def segment_priority)
qed simp

lemma pend_place_split: "\<exists>pre post. xs = pre @ post \<and> pend_place s job t xs = pre @ job # post"
proof -
  obtain pre where p: "xs = pre @ fst (pend_scan s job t xs None)" using pend_scan_suffix by blast
  obtain rest where r: "pend_scan s job t xs None = (rest, None)" using pend_scan_last [of s job t xs None] by (metis prod.collapse)
  have "pend_place s job t xs = take (length xs - length rest) xs @ job # rest" using r by (simp add: pend_place_def)
  moreover have "xs = pre @ rest" using p r by simp
  ultimately show ?thesis by auto
qed

lemma start_place_split: "\<exists>pre post. xs = pre @ post \<and> start_place s job xs = pre @ job # post"
  by (metis start_place_def takeWhile_dropWhile_id)

section \<open>Frames\<close>

lemma upd_job_fields [simp]:
  "s_lists (upd_job r f s) = s_lists s" "s_numEnts (upd_job r f s) = s_numEnts s" "s_mbd (upd_job r f s) = s_mbd s"
  "s_jgrp (upd_job r f s) = s_jgrp s" "jb (upd_job r f s) x = (if x = r then f (jb s r) else jb s x)"
  "s_glMigToPendFlag (upd_job r f s) = s_glMigToPendFlag s" "s_time (upd_job r f s) = s_time s"
  by (simp_all add: upd_job_def jb_def)

lemma counters_fields [simp]:
  "s_lists (counters f s) = s_lists s" "s_numEnts (counters f s) = s_numEnts s" "s_mbd (counters f s) = f (s_mbd s)"
  "s_jgrp (counters f s) = s_jgrp s" "jb (counters f s) x = jb s x"
  by (simp_all add: counters_def jb_def)

lemma jb_frame [simp]:
  "jb (s\<lparr>s_numRemoveJobs := n\<rparr>) x = jb s x" "jb (s\<lparr>s_eventPending := b\<rparr>) x = jb s x" "jb (s\<lparr>s_mbd := m\<rparr>) x = jb s x"
  "jb (s\<lparr>s_numDispJobs := d\<rparr>) x = jb s x"
  by (simp_all add: jb_def)

lemma updJgrp_fields [simp]:
  "s_lists (updJgrpCountByJStatus r a b s) = s_lists s" "s_numEnts (updJgrpCountByJStatus r a b s) = s_numEnts s"
  "s_mbd (updJgrpCountByJStatus r a b s) = s_mbd s" "jb (updJgrpCountByJStatus r a b s) x = jb s x"
  by (simp_all add: updJgrpCountByJStatus_def jb_def)

lemma put_list_fields [simp]:
  "s_lists (put_list l xs s) = (s_lists s)(l := xs)" "s_numEnts (put_list l xs s) = (s_numEnts s)(l := s_numEnts s l + 1)"
  "s_mbd (put_list l xs s) = s_mbd s" "s_jgrp (put_list l xs s) = s_jgrp s" "jb (put_list l xs s) x = jb s x"
  by (simp_all add: put_list_def jb_def)

lemma in_finished_fields [simp]:
  "s_lists (in_finished r s) = (s_lists s)(FJL := r # s_lists s FJL)" "s_numEnts (in_finished r s) = s_numEnts s"
  "s_mbd (in_finished r s) = s_mbd s" "s_jgrp (in_finished r s) = s_jgrp s" "jb (in_finished r s) x = jb s x"
  by (simp_all add: in_finished_def jb_def)

lemma offJobList_fields [simp]:
  "s_mbd (offJobList r l s) = s_mbd s" "s_jgrp (offJobList r l s) = s_jgrp s" "jb (offJobList r l s) x = jb s x"
  "s_glMigToPendFlag (offJobList r l s) = s_glMigToPendFlag s" "s_time (offJobList r l s) = s_time s"
  by (simp_all add: offJobList_def jb_def)

text \<open>Two versions of a job that differ in nothing the counters, the lists' names and the groups see.\<close>

definition alike :: "jData \<Rightarrow> jData \<Rightarrow> bool" where
  "alike j j' \<longleftrightarrow> j_queue j' = j_queue j \<and> j_user j' = j_user j \<and> j_hosts j' = j_hosts j \<and> j_numReq j' = j_numReq j
     \<and> j_exclusive j' = j_exclusive j \<and> jd_jgrp j' = jd_jgrp j \<and> jd_jobId j' = jd_jobId j
     \<and> base (j_status j') = base (j_status j) \<and> has (j_status j') JOB_STAT_RESERVE = has (j_status j) JOB_STAT_RESERVE"

lemma alike_refl [simp]: "alike j j"
  by (simp add: alike_def)

lemma alike_trans: "alike a b \<Longrightarrow> alike b c \<Longrightarrow> alike a c"
  by (simp add: alike_def)

lemma clear_flags:
  "base (s AND NOT JOB_STAT_MIG) = base s" "has (s AND NOT JOB_STAT_MIG) JOB_STAT_RESERVE = has s JOB_STAT_RESERVE"
  "base (s AND NOT JOB_STAT_PRE_EXEC) = base s" "has (s AND NOT JOB_STAT_PRE_EXEC) JOB_STAT_RESERVE = has s JOB_STAT_RESERVE"
  "base (s AND NOT JOB_STAT_RSRC_PREEMPT_WAIT) = base s"
  "has (s AND NOT JOB_STAT_RSRC_PREEMPT_WAIT) JOB_STAT_RESERVE = has s JOB_STAT_RESERVE"
  by (simp_all add: base_mask has_def and.assoc job_stat_defs JOB_STAT_PRE_EXEC_def JOB_STAT_RSRC_PREEMPT_WAIT_def)

section \<open>Moves between lists\<close>

definition all_refs :: "sys \<Rightarrow> pointer list" where
  "all_refs s = s_lists s SJL @ s_lists s MJL @ s_lists s PJL @ s_lists s FJL"

definition placed :: "pointer \<Rightarrow> jlistno \<Rightarrow> (jlistno \<Rightarrow> pointer list) \<Rightarrow> (jlistno \<Rightarrow> pointer list) \<Rightarrow> bool" where
  "placed r l ls ls' \<longleftrightarrow> (\<exists>pre post. ls l = pre @ post \<and> ls' = ls(l := pre @ r # post))"

text \<open>
  \<open>moved r from to s s'\<close>: \<open>r\<close> left the list \<open>from\<close> for a place in the list \<open>to\<close>; the other jobs and
  everything but the lists and the record of \<open>r\<close> is as before.
\<close>

definition moved :: "pointer \<Rightarrow> jlistno \<Rightarrow> jlistno \<Rightarrow> sys \<Rightarrow> sys \<Rightarrow> bool" where
  "moved r l k s s' \<longleftrightarrow>
     placed r k (\<lambda>l. remove1 r (s_lists s l)) (s_lists s')
     \<and> s_numEnts s' = (let n = (s_numEnts s)(l := s_numEnts s l - 1) in if k = FJL then n else n(k := n k + 1))
     \<and> s_mbd s' = s_mbd s \<and> s_jgrp s' = s_jgrp s
     \<and> (\<forall>x. x \<noteq> r \<longrightarrow> jb s' x = jb s x) \<and> alike (jb s r) (jb s' r)"

lemma placed_split: "\<exists>pre post. ls l = pre @ post \<and> xs = pre @ r # post \<Longrightarrow> placed r l ls (ls(l := xs))"
  unfolding placed_def by blast

lemma inPendJobList_placed:
  "placed r l (s_lists s) (s_lists (inPendJobList r l t s))"
  "s_numEnts (inPendJobList r l t s) = (s_numEnts s)(l := s_numEnts s l + 1)"
  "s_mbd (inPendJobList r l t s) = s_mbd s" "s_jgrp (inPendJobList r l t s) = s_jgrp s"
  "x \<noteq> r \<Longrightarrow> jb (inPendJobList r l t s) x = jb s x" "alike (jb s r) (jb (inPendJobList r l t s) r)"
  "s_glMigToPendFlag (inPendJobList r l t s) = s_glMigToPendFlag s"
proof -
  have "placed r l (s_lists s) ((s_lists s)(l := pend_place S r T (s_lists s l)))" for S T
    by (rule placed_split) (rule pend_place_split)
  then show "placed r l (s_lists s) (s_lists (inPendJobList r l t s))" by (simp add: inPendJobList_def Let_def)
qed (simp_all add: inPendJobList_def Let_def alike_def put_list_def upd_job_def jb_def)

lemma inStartJobList_placed: "placed r SJL (s_lists s) (s_lists (inStartJobList r s))"
  by (simp add: inStartJobList_def placed_split start_place_split)

lemma inStartJobList_fields [simp]:
  "s_numEnts (inStartJobList r s) = (s_numEnts s)(SJL := s_numEnts s SJL + 1)"
  "s_mbd (inStartJobList r s) = s_mbd s" "s_jgrp (inStartJobList r s) = s_jgrp s" "jb (inStartJobList r s) x = jb s x"
  by (simp_all add: inStartJobList_def)

lemma off_listed:
  assumes "r \<in> set (s_lists s k)"
  shows "s_lists (offJobList r l s) = (\<lambda>l. remove1 r (s_lists s l))" "s_numEnts (offJobList r l s) = (s_numEnts s)(l := s_numEnts s l - 1)"
  using assms by (cases k; auto simp: offJobList_def)+

lemma to_started_moved:
  assumes "r \<in> set (s_lists s l)" "l = PJLorMJL r s"
  shows "moved r l SJL s (to_started r s)"
proof -
  let ?s = "upd_job r (\<lambda>j. j\<lparr>jd_newReason := 0, jd_subreasons := 0, jd_reserveTime := 0, j_status := j_status j AND NOT JOB_STAT_MIG\<rparr>) s"
  have l: "PJLorMJL r ?s = l" using assms(2) by (simp add: PJLorMJL_def)
  have o: "s_lists (offJobList r l ?s) = (\<lambda>l. remove1 r (s_lists s l))" "s_numEnts (offJobList r l ?s) = (s_numEnts s)(l := s_numEnts s l - 1)"
    using off_listed [of r ?s l l] assms(1) by simp_all
  show ?thesis unfolding moved_def to_started_def Let_def l
    using inStartJobList_placed [of r "offJobList r l ?s"] o by (simp add: alike_def clear_flags)
qed

lemma alike_finish [simp]: "alike j (finish_flags o1 j)" "alike j (exit_reason j)"
  by (auto simp: alike_def finish_flags_def exit_reason_def Let_def clear_flags)

lemma to_finished_moved:
  assumes "r \<in> set (s_lists s l)" "l = (if IS_START oldStatus then SJL else PJLorMJL r s)"
  shows "moved r l FJL s (to_finished r oldStatus s)"
proof -
  let ?s = "upd_job r (finish_flags oldStatus) (upd_job r exit_reason s)"
  have l: "(if IS_START oldStatus then SJL else PJLorMJL r ?s) = l" using assms(2) by (simp add: PJLorMJL_def)
  have o: "s_lists (offJobList r l ?s) = (\<lambda>l. remove1 r (s_lists s l))" "s_numEnts (offJobList r l ?s) = (s_numEnts s)(l := s_numEnts s l - 1)"
    using off_listed [of r ?s l l] assms(1) by simp_all
  have "placed r FJL (\<lambda>l. remove1 r (s_lists s l)) ((\<lambda>l. remove1 r (s_lists s l))(FJL := r # remove1 r (s_lists s FJL)))"
    unfolding placed_def by (intro exI [of _ "[]"] exI [of _ "remove1 r (s_lists s FJL)"]) simp
  then show ?thesis unfolding moved_def to_finished_def handleFinishJob_def Let_def l
    using o alike_trans [of "jb s r" "exit_reason (jb s r)"] by simp
qed

text \<open>Changes of the record of \<open>r\<close> alone, around a move.\<close>

definition adjusted :: "pointer \<Rightarrow> sys \<Rightarrow> sys \<Rightarrow> bool" where
  "adjusted r s s' \<longleftrightarrow> s_lists s' = s_lists s \<and> s_numEnts s' = s_numEnts s \<and> s_mbd s' = s_mbd s \<and> s_jgrp s' = s_jgrp s
     \<and> (\<forall>x. x \<noteq> r \<longrightarrow> jb s' x = jb s x) \<and> alike (jb s r) (jb s' r)"

lemma adjusted_upd: "alike (jb s r) (f (jb s r)) \<Longrightarrow> adjusted r s (upd_job r f s)"
  by (simp add: adjusted_def)

lemma adjusted_trans: "adjusted r a b \<Longrightarrow> adjusted r b c \<Longrightarrow> adjusted r a c"
  unfolding adjusted_def using alike_trans by simp blast

lemma moved_adjusted:
  assumes "adjusted r s s1" "moved r l k s1 s2" "adjusted r s2 s3"
  shows "moved r l k s s3"
proof -
  have "alike (jb s r) (jb s3 r)" using assms alike_trans unfolding adjusted_def moved_def by blast
  then show ?thesis using assms unfolding adjusted_def moved_def by simp
qed

lemma off_pend_moved:
  assumes "r \<in> set (s_lists s l)" "adjusted r (offJobList r l s) s1" "k \<noteq> FJL"
  shows "moved r l k s (inPendJobList r k t s1)"
proof -
  have a: "s_lists s1 = (\<lambda>l. remove1 r (s_lists s l))" "s_numEnts s1 = (s_numEnts s)(l := s_numEnts s l - 1)" "s_mbd s1 = s_mbd s"
    "s_jgrp s1 = s_jgrp s" "\<And>x. x \<noteq> r \<Longrightarrow> jb s1 x = jb s x" "alike (jb s r) (jb s1 r)"
    using assms(2) off_listed [OF assms(1), of l] by (simp_all add: adjusted_def)
  then show ?thesis
    using inPendJobList_placed [where r = r and l = k and s = s1 and t = t] assms(3)
      alike_trans [OF a(6) inPendJobList_placed(6) [where r = r and l = k and s = s1 and t = t]]
    by (simp add: moved_def Let_def)
qed

lemma back_to_pend_moved:
  assumes "r \<in> set (s_lists s SJL)"
  shows "\<exists>k\<in>{PJL, MJL}. moved r SJL k s (back_to_pend r t s)"
proof -
  define s1 where "s1 = upd_job r (jobRequeueTimeUpdate (if t = LOG_IT then s_time s else t)) s"
  define s3 where "s3 = upd_job r (\<lambda>j. if jd_newReason j \<in> {PEND_JOB_PRE_EXEC, PEND_QUE_PRE_FAIL, PEND_SBD_JOB_REQUEUE}
                              then j\<lparr>jd_startTime := 0\<rparr> else j) (offJobList r SJL s1)"
  define s4 where "s4 = upd_job r (\<lambda>j. if jd_options j AND SUB_CHKPNTABLE \<noteq> 0
                                         then j\<lparr>jd_options := jd_options j OR SUB_RESTART OR SUB_RESTART_FORCE\<rparr> else j) s3"
  define s5 where "s5 = (if has (j_status (jb s3 r)) JOB_STAT_MIG then
                  if s_glMigToPendFlag s4
                  then upd_job r (\<lambda>j. j\<lparr>j_status := j_status j AND NOT JOB_STAT_MIG\<rparr>) (inPendJobList r PJL (s_time s4) s4)
                  else inPendJobList r MJL 0 s4
               else if jd_newReason (jb s3 r) = PEND_SBD_JOB_REQUEUE then inPendJobList r PJL (s_time s3) s3
               else inPendJobList r PJL 0 s3)"
  let ?fin = "\<lambda>j. setJobPendReason (jd_newReason j) (j\<lparr>j_status := j_status j AND NOT JOB_STAT_PRE_EXEC\<rparr>)"
  have b: "back_to_pend r t s = upd_job r ?fin s5"
    unfolding back_to_pend_def Let_def s5_def s4_def s3_def s1_def by simp
  have a1: "adjusted r s s1" unfolding s1_def by (rule adjusted_upd) (simp add: alike_def jobRequeueTimeUpdate_def)
  have r: "r \<in> set (s_lists s1 SJL)" using a1 assms by (simp add: adjusted_def)
  have a3: "adjusted r (offJobList r SJL s1) s3" unfolding s3_def by (rule adjusted_upd) (simp add: alike_def)
  have "adjusted r s3 s4" unfolding s4_def by (rule adjusted_upd) (simp add: alike_def)
  then have a4: "adjusted r (offJobList r SJL s1) s4" using a3 adjusted_trans by blast
  have m: "moved r SJL k s1 (inPendJobList r k u s3)" "moved r SJL k s1 (inPendJobList r k u s4)" if "k \<in> {PJL, MJL}" for k u
    using off_pend_moved [OF r a3] off_pend_moved [OF r a4] that by auto
  have cl: "adjusted r x (upd_job r (\<lambda>j. j\<lparr>j_status := j_status j AND NOT JOB_STAT_MIG\<rparr>) x)" for x
    by (rule adjusted_upd) (simp add: alike_def clear_flags)
  have i: "adjusted r x x" for x by (simp add: adjusted_def)
  have "\<exists>k\<in>{PJL, MJL}. moved r SJL k s1 s5"
    unfolding s5_def using m moved_adjusted [OF i m(2) cl] by auto
  moreover have "adjusted r s5 (upd_job r ?fin s5)" by (rule adjusted_upd) (simp add: alike_def clear_flags setJobPendReason_def)
  ultimately show ?thesis unfolding b using moved_adjusted [OF a1] by blast
qed

section \<open>The invariant\<close>

text \<open>
  The lists a job may be on in a state; the counts of the lists (the finished list is not counted
  consistently); the counters; and the counters of the job groups, each the number of jobs below
  the group in that state.
\<close>

definition fits :: "jstatus \<Rightarrow> jlistno \<Rightarrow> bool" where
  "fits st l \<longleftrightarrow>
     (case l of
        SJL \<Rightarrow> base st \<in> {JOB_STAT_RUN, JOB_STAT_SSUSP, JOB_STAT_USUSP}
      | MJL \<Rightarrow> base st \<in> {JOB_STAT_PEND, JOB_STAT_PSUSP}
      | PJL \<Rightarrow> base st \<in> {JOB_STAT_PEND, JOB_STAT_PSUSP}
      | FJL \<Rightarrow> base st \<in> {JOB_STAT_EXIT, JOB_STAT_DONE})"

definition on_lists :: "sys \<Rightarrow> bool" where
  "on_lists s \<longleftrightarrow> distinct (all_refs s) \<and> (\<forall>l. \<forall>r\<in>set (s_lists s l). fits (j_status (jb s r)) l)
     \<and> (\<forall>l. l \<noteq> FJL \<longrightarrow> s_numEnts s l = int (length (s_lists s l)))"

definition cores :: "sys \<Rightarrow> job list" where
  "cores s = map (\<lambda>r. core (jb s r)) (all_refs s)"

definition below :: "nat \<Rightarrow> string \<Rightarrow> jData \<Rightarrow> int" where
  "below i g j = (if i = JGRP_COUNT_NJOBS \<or> i = getIndexOfJStatus (j_status j) then int (count_list (jd_jgrp j) g) else 0)"

definition groups_ok :: "sys \<Rightarrow> bool" where
  "groups_ok s \<longleftrightarrow> (\<forall>g i. s_jgrp s g i = (\<Sum>r\<leftarrow>all_refs s. below i g (jb s r)))"

definition sys_inv :: "sys \<Rightarrow> bool" where
  "sys_inv s \<longleftrightarrow> on_lists s \<and> cinv (s_mbd s) (cores s) \<and> groups_ok s \<and> (\<forall>r\<in>set (all_refs s). 0 \<le> jd_jobId (jb s r))"

lemma in_all_refs: "r \<in> set (all_refs s) \<longleftrightarrow> (\<exists>l. r \<in> set (s_lists s l))"
proof
  assume "\<exists>l. r \<in> set (s_lists s l)"
  then obtain l where "r \<in> set (s_lists s l)" by blast
  then show "r \<in> set (all_refs s)" by (cases l) (simp_all add: all_refs_def)
qed (auto simp: all_refs_def)

lemma refs_mset: "mset (all_refs s) = mset (s_lists s SJL) + mset (s_lists s MJL) + mset (s_lists s PJL) + mset (s_lists s FJL)"
  by (simp add: all_refs_def)

lemma on_one_list:
  assumes "distinct (all_refs s)" "r \<in> set (s_lists s l)" "r \<in> set (s_lists s k)"
  shows "l = k"
  using assms by (cases l; cases k; auto simp: all_refs_def)

text \<open>A move permutes the jobs, and keeps each on one list.\<close>

lemma placed_lists:
  assumes "placed r k (\<lambda>l. remove1 r (ls l)) ls'"
  shows "mset (ls' x) = (mset (ls x) - {#r#}) + (if x = k then {#r#} else {#})"
proof -
  obtain pre post where p: "remove1 r (ls k) = pre @ post" "ls' = (\<lambda>l. remove1 r (ls l))(k := pre @ r # post)"
    using assms unfolding placed_def by blast
  have "mset (ls k) - {#r#} = mset pre + mset post" using p(1) by (metis mset_append mset_remove1)
  then show ?thesis using p(2) by simp
qed

lemma moved_refs:
  assumes "moved r l k s s'" "r \<in> set (s_lists s l)" "distinct (all_refs s)"
  shows "mset (all_refs s') = mset (all_refs s)"
proof -
  have p: "mset (s_lists s' x) = (mset (s_lists s x) - {#r#}) + (if x = k then {#r#} else {#})" for x
    using placed_lists assms(1) unfolding moved_def by blast
  have one: "mset (s_lists s x) - {#r#} = mset (s_lists s x)" if "x \<noteq> l" for x
    using on_one_list [OF assms(3,2)] that by (intro diff_single_trivial) auto
  have here: "mset (s_lists s l) - {#r#} + {#r#} = mset (s_lists s l)" using assms(2) by simp
  show ?thesis unfolding refs_mset p using one here by (cases l; cases k; simp add: ac_simps)
qed

text \<open>The lists are in order, except that the status of \<open>r\<close> may not fit the list it is on.\<close>

definition on_lists_but :: "pointer \<Rightarrow> sys \<Rightarrow> bool" where
  "on_lists_but r s \<longleftrightarrow> distinct (all_refs s) \<and> (\<forall>l. \<forall>x\<in>set (s_lists s l). x \<noteq> r \<longrightarrow> fits (j_status (jb s x)) l)
     \<and> (\<forall>l. l \<noteq> FJL \<longrightarrow> s_numEnts s l = int (length (s_lists s l)))"

lemma moved_on_lists:
  assumes "moved r l k s s'" "r \<in> set (s_lists s l)" "on_lists_but r s" "fits (j_status (jb s' r)) k"
  shows "on_lists s'"
proof -
  have d: "distinct (all_refs s)" using assms(3) by (simp add: on_lists_but_def)
  have p: "mset (s_lists s' x) = (mset (s_lists s x) - {#r#}) + (if x = k then {#r#} else {#})" for x
    using placed_lists assms(1) unfolding moved_def by blast
  have st: "set (s_lists s' x) \<subseteq> set (s_lists s x) \<union> (if x = k then {r} else {})" for x
    using arg_cong [OF p [of x], of set_mset] by (auto dest: in_diffD split: if_splits)
  have rk: "x = k" if "r \<in> set (s_lists s' x)" for x
  proof -
    have "r \<in># mset (s_lists s x) - {#r#} + (if x = k then {#r#} else {#})" using that p by (metis set_mset_mset)
    moreover have "distinct (s_lists s x)" using d by (cases x) (auto simp: all_refs_def)
    then have "r \<notin># mset (s_lists s x) - {#r#}" by (simp add: distinct_count_atmost_1 in_diff_count)
    ultimately show ?thesis by (auto split: if_splits)
  qed
  have "distinct (all_refs s')" using moved_refs [OF assms(1,2) d] d by (metis mset_eq_imp_distinct_iff)
  moreover have "fits (j_status (jb s' x)) y" if "x \<in> set (s_lists s' y)" for x y
  proof (cases "x = r")
    case False
    then have "x \<in> set (s_lists s y)" "jb s' x = jb s x" using that st [of y] assms(1) by (auto simp: moved_def split: if_splits)
    then show ?thesis using assms(3) False by (simp add: on_lists_but_def)
  qed (use that rk assms(4) in blast)
  moreover have "s_numEnts s' y = int (length (s_lists s' y))" if "y \<noteq> FJL" for y
  proof -
    have n: "s_numEnts s y = int (length (s_lists s y))" using assms(3) that by (simp add: on_lists_but_def)
    have len: "length (s_lists s' y) = length (s_lists s y) - (if y = l then 1 else 0) + (if y = k then 1 else 0)"
    proof -
      have "r \<notin> set (s_lists s y)" if "y \<noteq> l" using on_one_list [OF d assms(2)] that by blast
      then show ?thesis using arg_cong [OF p [of y], of size] assms(2) by (auto simp: size_Diff_singleton)
    qed
    have "int (length (s_lists s l) - Suc 0) = int (length (s_lists s l)) - 1" using assms(2) by (cases "s_lists s l") auto
    then show ?thesis using assms(1) n len that by (auto simp: moved_def Let_def)
  qed
  ultimately show ?thesis unfolding on_lists_def by blast
qed

text \<open>The counters do not depend on the order of the jobs.\<close>

lemma consistent_perm: "mset js = mset ks \<Longrightarrow> consistent m js = consistent m ks"
proof -
  assume p: "mset js = mset ks"
  have "(\<Sum>j\<leftarrow>js. f j) = (\<Sum>j\<leftarrow>ks. (f j :: int))" for f using p by (metis mset_map sum_mset_sum_list)
  then show ?thesis by (simp add: consistent_def)
qed

lemma cinv_perm: "mset js = mset ks \<Longrightarrow> cinv m js = cinv m ks"
  using consistent_perm [of js ks m] by (simp add: cinv_def list_all_iff) (metis set_mset_mset)

lemma sum_refs_perm: "mset xs = mset ys \<Longrightarrow> (\<Sum>r\<leftarrow>xs. f r) = (\<Sum>r\<leftarrow>ys. (f r :: int))"
  by (metis mset_map sum_mset_sum_list)

lemma map_upd: "distinct xs \<Longrightarrow> i < length xs \<Longrightarrow> map (\<lambda>r. if r = xs ! i then y else f r) xs = (map f xs)[i := y]"
  by (rule nth_equalityI) (auto simp: nth_list_update nth_eq_iff_index_eq)

lemma core_simps [simp]:
  "j_queue (core j) = j_queue j" "j_user (core j) = j_user j" "j_hosts (core j) = j_hosts j" "j_numReq (core j) = j_numReq j"
  "j_status (core j) = j_status j" "j_exclusive (core j) = j_exclusive j"
  by (simp_all add: job.truncate_def)

lemma core_upd: "core (j\<lparr>j_status := st\<rparr>) = (core j)\<lparr>j_status := st\<rparr>" "core (j\<lparr>j_hosts := hs\<rparr>) = (core j)\<lparr>j_hosts := hs\<rparr>"
  by (simp_all add: job.truncate_def)

lemma alike_core: "alike j j' \<Longrightarrow> core j' = (core j)\<lparr>j_status := j_status j'\<rparr>"
  by (simp add: alike_def job.truncate_def)

text \<open>One job changes, with or without a move.\<close>

definition changed :: "pointer \<Rightarrow> sys \<Rightarrow> sys \<Rightarrow> bool" where
  "changed r s s' \<longleftrightarrow> mset (all_refs s') = mset (all_refs s) \<and> distinct (all_refs s) \<and> r \<in> set (all_refs s) \<and> (\<forall>x. x \<noteq> r \<longrightarrow> jb s' x = jb s x)"

lemma changed_map:
  assumes "changed r s s'"
  obtains i where "i < length (all_refs s)" "all_refs s ! i = r"
    "\<And>f. mset (map (\<lambda>x. f (jb s' x)) (all_refs s')) = mset ((map (\<lambda>x. f (jb s x)) (all_refs s))[i := f (jb s' r)])"
proof -
  have c: "mset (all_refs s') = mset (all_refs s)" "distinct (all_refs s)" "\<And>x. x \<noteq> r \<Longrightarrow> jb s' x = jb s x"
    using assms by (simp_all add: changed_def)
  obtain i where i: "i < length (all_refs s)" "all_refs s ! i = r" using assms by (auto simp: changed_def in_set_conv_nth)
  show ?thesis
  proof (rule that [OF i])
    fix f
    have "map (\<lambda>x. f (jb s' x)) (all_refs s) = map (\<lambda>x. if x = r then f (jb s' r) else f (jb s x)) (all_refs s)"
      using c(3) by (intro map_cong) auto
    also have "\<dots> = (map (\<lambda>x. f (jb s x)) (all_refs s))[i := f (jb s' r)]"
      using map_upd [OF c(2) i(1), of "f (jb s' r)" "\<lambda>x. f (jb s x)"] i(2) by simp
    finally show "mset (map (\<lambda>x. f (jb s' x)) (all_refs s')) = mset ((map (\<lambda>x. f (jb s x)) (all_refs s))[i := f (jb s' r)])"
      using c(1) by (metis mset_map)
  qed
qed

lemma changed_cinv:
  assumes "changed r s s'" "\<And>js i. cinv m js \<Longrightarrow> i < length js \<Longrightarrow> js ! i = core (jb s r) \<Longrightarrow> cinv m' (js[i := core (jb s' r)])"
    and "cinv m (cores s)"
  shows "cinv m' (cores s')"
proof -
  obtain i where i: "i < length (all_refs s)" "all_refs s ! i = r"
    "\<And>f :: jData \<Rightarrow> job. mset (map (\<lambda>x. f (jb s' x)) (all_refs s')) = mset ((map (\<lambda>x. f (jb s x)) (all_refs s))[i := f (jb s' r)])"
    using changed_map [OF assms(1)] by blast
  have "cinv m' ((cores s)[i := core (jb s' r)])" by (rule assms(2) [OF assms(3)]) (use i in \<open>simp_all add: cores_def\<close>)
  then show ?thesis using i(3) [of core] cinv_perm unfolding cores_def by blast
qed

lemma changed_calls:
  assumes "changed r s s'" "cinv m (cores s)" "calls (core (jb s r)) (core (jb s' r)) m m'" "job_ok (core (jb s' r))"
    and "same_place (core (jb s r)) (core (jb s' r))"
  shows "cinv m' (cores s')"
  by (rule changed_cinv [OF assms(1) _ assms(2)]) (use calls_cinv assms(3-5) in metis)

lemma changed_groups:
  assumes "changed r s s'" "groups_ok s" "\<And>g i. s_jgrp s' g i = s_jgrp s g i - below i g (jb s r) + below i g (jb s' r)"
  shows "groups_ok s'"
proof -
  obtain i where i: "i < length (all_refs s)" "all_refs s ! i = r"
    "\<And>f :: jData \<Rightarrow> int. mset (map (\<lambda>x. f (jb s' x)) (all_refs s')) = mset ((map (\<lambda>x. f (jb s x)) (all_refs s))[i := f (jb s' r)])"
    using changed_map [OF assms(1)] by blast
  have "(\<Sum>x\<leftarrow>all_refs s'. below k g (jb s' x)) = (\<Sum>x\<leftarrow>all_refs s. below k g (jb s x)) - below k g (jb s r) + below k g (jb s' r)" for k g
  proof -
    have "(\<Sum>x\<leftarrow>all_refs s'. below k g (jb s' x)) = sum_list ((map (\<lambda>x. below k g (jb s x)) (all_refs s))[i := below k g (jb s' r)])"
      using i(3) [of "below k g"] by (metis sum_mset_sum_list)
    then show ?thesis using sum_list_upd [of i "map (\<lambda>x. below k g (jb s x)) (all_refs s)" "\<lambda>x. x" "below k g (jb s' r)"] i(1,2) by simp
  qed
  then show ?thesis using assms(2,3) by (simp add: groups_ok_def)
qed

end
