(* ===== verification/JobChange.thy ===== *)
theory JobChange
  imports JobLists
begin

text \<open>
  What a change of a job's state keeps.  The invariant \<open>sys_inv\<close> of theory JobLists relates
  the lists, the counters of queues, users and hosts, and the counters of the job groups to
  the records of the jobs; here every operation on a job's state is shown to keep it, and with it
  every run of the daemon.
\<close>

section \<open>Before the change\<close>

text \<open>\<open>settled\<close>: only the record of \<open>r\<close> and the counters changed, and \<open>r\<close> holds no reservation any more.\<close>

definition settled :: "pointer \<Rightarrow> sys \<Rightarrow> sys \<Rightarrow> bool" where
  "settled r s s' \<longleftrightarrow> s_lists s' = s_lists s \<and> s_numEnts s' = s_numEnts s \<and> s_jgrp s' = s_jgrp s \<and> (\<forall>x. x \<noteq> r \<longrightarrow> jb s' x = jb s x)
     \<and> jd_jgrp (jb s' r) = jd_jgrp (jb s r) \<and> jd_jobId (jb s' r) = jd_jobId (jb s r)
     \<and> base (j_status (jb s' r)) = base (j_status (jb s r)) \<and> \<not> has (j_status (jb s' r)) JOB_STAT_RESERVE
     \<and> cinv (s_mbd s') (cores s')"

lemma same_lists_changed:
  assumes "distinct (all_refs s)" "r \<in> set (all_refs s)" "s_lists s' = s_lists s" "\<And>x. x \<noteq> r \<Longrightarrow> jb s' x = jb s x"
  shows "changed r s s'"
  using assms by (auto simp: changed_def all_refs_def)

lemma hosts_cinv:
  assumes "unplaced (j_status (js ! i))" "cinv m js" "i < length js"
  shows "cinv m (js[i := (js ! i)\<lparr>j_hosts := hs\<rparr>])"
  by (rule mbd_step_cinv [OF mbd_step.place assms(2)]) (use assms in simp_all)

lemma listed_job_ok:
  assumes "cinv m (cores s)" "r \<in> set (all_refs s)"
  shows "job_ok (core (jb s r))"
proof -
  obtain i where "i < length (cores s)" "cores s ! i = core (jb s r)" using assms(2) by (auto simp: cores_def in_set_conv_nth)
  then show ?thesis using cinv_ok [OF assms(1)] by metis
qed

lemma clear_reserve_settled:
  assumes "distinct (all_refs s)" "r \<in> set (all_refs s)" "cinv (s_mbd s) (cores s)"
    and "reservable (j_status (jb s r))" "has (j_status (jb s r)) JOB_STAT_RESERVE"
  shows "settled r s (clear_reserve r s)" "j_status (jb (clear_reserve r s) r) = j_status (jb s r) AND NOT JOB_STAT_RESERVE"
proof -
  let ?s = "clear_reserve r s" and ?st = "j_status (jb s r) AND NOT JOB_STAT_RESERVE"
  have j: "core (jb ?s r) = (core (jb s r))\<lparr>j_status := ?st\<rparr>" by (simp add: clear_reserve_def core_upd)
  have ch: "changed r s ?s" by (rule same_lists_changed [OF assms(1,2)]) (simp_all add: clear_reserve_def)
  have ok: "job_ok (core (jb s r))" by (rule listed_job_ok [OF assms(3,2)])
  have "cinv (s_mbd ?s) (cores ?s)"
  proof (rule changed_calls [OF ch assms(3)])
    show "calls (core (jb s r)) (core (jb ?s r)) (s_mbd s) (s_mbd ?s)"
      using updResCounters_off [of "core (jb s r)" "core (jb s r)" "s_mbd s"] assms(4,5) unfolding j
      by (simp add: clear_reserve_def same_place_def)
    show "job_ok (core (jb ?s r))" using ok unfolding j by (simp add: job_ok_def reserve_flag)
  qed (unfold j, simp add: same_place_def)
  then show "settled r s ?s" by (simp add: settled_def) (simp add: clear_reserve_def reserve_flag)
qed (simp add: clear_reserve_def)

lemma free_reserve_settled:
  assumes "distinct (all_refs s)" "r \<in> set (all_refs s)" "cinv (s_mbd s) (cores s)"
    and "base (j_status (jb s r)) \<in> {JOB_STAT_PEND, JOB_STAT_PSUSP}" "has (j_status (jb s r)) JOB_STAT_RESERVE"
  shows "settled r s (freeReserveSlots r s)"
proof -
  let ?a = "clear_reserve r s" and ?b = "deallocHosts r (clear_reserve r s)"
  have a: "settled r s ?a" by (rule clear_reserve_settled [OF assms(1-3) _ assms(5)]) (use assms(4) in \<open>auto simp: reservable_def\<close>)
  have l: "distinct (all_refs ?a)" "r \<in> set (all_refs ?a)" using a assms(1,2) by (simp_all add: settled_def all_refs_def)
  have u: "unplaced (j_status (jb ?a r))" using a assms(4) by (auto simp: settled_def unplaced_def)
  have ch: "changed r ?a ?b" by (rule same_lists_changed [OF l]) (simp_all add: deallocHosts_def)
  have "cinv (s_mbd ?a) (cores ?b)"
  proof (rule changed_cinv [OF ch])
    show "cinv (s_mbd ?a) (js[i := core (jb ?b r)])" if "cinv (s_mbd ?a) js" "i < length js" "js ! i = core (jb ?a r)" for js i
      using hosts_cinv [of js i "s_mbd ?a" "[]"] that u by (simp add: deallocHosts_def core_upd)
  qed (use a in \<open>simp add: settled_def\<close>)
  then have "settled r s ?b" using a by (simp add: settled_def deallocHosts_def)
  then show ?thesis using assms(5) by (simp add: freeReserveSlots_def)
qed

text \<open>The reservations \<open>resetReserve\<close> clears.\<close>

definition reset_ok :: "jstatus \<Rightarrow> jstatus \<Rightarrow> bool" where
  "reset_ok a b \<longleftrightarrow> a = JOB_STAT_PEND \<and> b \<in> {JOB_STAT_PSUSP, JOB_STAT_EXIT, JOB_STAT_DONE}
     \<or> a \<in> {JOB_STAT_SSUSP, JOB_STAT_USUSP} \<and> b \<in> {JOB_STAT_RUN, JOB_STAT_EXIT, JOB_STAT_DONE, JOB_STAT_USUSP, JOB_STAT_PEND}"

lemma reserve_idem: "(s AND NOT JOB_STAT_RESERVE) AND NOT JOB_STAT_RESERVE = s AND NOT JOB_STAT_RESERVE"
  by (simp only: and.assoc and.idem)

lemma resetReserve_settled:
  assumes "distinct (all_refs s)" "r \<in> set (all_refs s)" "cinv (s_mbd s) (cores s)"
    and "has (j_status (jb s r)) JOB_STAT_RESERVE" "reset_ok (base (j_status (jb s r))) (base new)"
  shows "settled r s (resetReserve r new s)"
proof -
  have st: "base (j_status (jb s r)) \<in> states" "base new \<in> states" using assms(5) by (auto simp: reset_ok_def states_def)
  note fl = has_states [OF st(1)] has_states [OF st(2)]
  show ?thesis
  proof (cases "base (j_status (jb s r)) = JOB_STAT_PEND")
    case True
    let ?f = "\<lambda>j. j\<lparr>j_status := j_status j AND NOT JOB_STAT_RESERVE, jd_reserveTime := 0\<rparr>"
    let ?s = "freeReserveSlots r s"
    have s: "settled r s ?s" by (rule free_reserve_settled [OF assms(1-3) _ assms(4)]) (use True in simp)
    have b: "base new \<in> {JOB_STAT_PSUSP, JOB_STAT_EXIT, JOB_STAT_DONE}" using assms(5) True by (auto simp: reset_ok_def job_stat_defs)
    have n: "\<not> IS_START (j_status (jb (upd_job r ?f ?s) r))"
      using s True has_states [of "j_status (jb (upd_job r ?f ?s) r)"]
      by (simp add: settled_def reserve_flag IS_START_def states_def) (simp add: job_stat_defs)
    have e: "resetReserve r new s = upd_job r ?f ?s"
      using assms(4) n b True by (auto simp: resetReserve_def Let_def IS_FINISH_def fl)
    have "core (jb (upd_job r ?f ?s) r) = core (jb ?s r)"
      using assms(4) by (simp add: job.truncate_def freeReserveSlots_def deallocHosts_def clear_reserve_def reserve_idem)
    then have "cores (upd_job r ?f ?s) = cores ?s" by (auto simp: cores_def all_refs_def)
    then show ?thesis using s unfolding e by (simp add: settled_def reserve_flag)
  next
    case False
    have a: "base (j_status (jb s r)) \<in> {JOB_STAT_SSUSP, JOB_STAT_USUSP}"
      "base new \<in> {JOB_STAT_RUN, JOB_STAT_EXIT, JOB_STAT_DONE, JOB_STAT_USUSP, JOB_STAT_PEND}"
      using assms(5) False by (auto simp: reset_ok_def)
    have "resetReserve r new s = clear_reserve r s"
      using assms(4) a False by (auto simp: resetReserve_def Let_def IS_FINISH_def IS_START_def fl)
    then show ?thesis using clear_reserve_settled(1) [OF assms(1-3) _ assms(4)] a(1) by (auto simp: reservable_def)
  qed
qed

lemma alike_calls:
  assumes "alike j j'"
  shows "calls (core j) (core j') m m" "same_place (core j) (core j')" "job_ok (core j) \<Longrightarrow> job_ok (core j')"
proof -
  show p: "same_place (core j) (core j')" using assms by (simp add: alike_def same_place_def)
  have "contrib (core j') = contrib (core j)" "hcontrib (core j') = hcontrib (core j)"
    using assms by (simp_all add: alike_def contrib_def hcontrib_def Let_def)
  then show "calls (core j) (core j') m m" by (rule calls_I(4) [OF p])
  show "job_ok (core j')" if "job_ok (core j)" using that assms by (simp add: alike_def job_ok_def)
qed

lemma adjusted_cinv:
  assumes "adjusted r s s'" "distinct (all_refs s)" "r \<in> set (all_refs s)" "cinv (s_mbd s) (cores s)"
  shows "cinv (s_mbd s') (cores s')"
proof -
  have a: "alike (jb s r) (jb s' r)" "s_mbd s' = s_mbd s" using assms(1) by (simp_all add: adjusted_def)
  have ch: "changed r s s'" by (rule same_lists_changed [OF assms(2,3)]) (use assms(1) in \<open>simp_all add: adjusted_def\<close>)
  have "job_ok (core (jb s r))" by (rule listed_job_ok [OF assms(4,3)])
  then show ?thesis using changed_calls [OF ch assms(4) alike_calls(1) [OF a(1)]] alike_calls(2,3) [OF a(1)] a(2) by simp
qed

lemma settled_adjusted:
  assumes "settled r s s0" "adjusted r s0 s1" "distinct (all_refs s)" "r \<in> set (all_refs s)"
  shows "settled r s s1"
proof -
  have l: "all_refs s0 = all_refs s" using assms(1) by (simp add: settled_def all_refs_def)
  have "cinv (s_mbd s1) (cores s1)" using adjusted_cinv [OF assms(2)] assms(1,3,4) l by (simp add: settled_def)
  then show ?thesis using assms(1,2) by (simp add: settled_def adjusted_def alike_def)
qed

lemma before_change_settled:
  assumes "distinct (all_refs s)" "r \<in> set (all_refs s)" "cinv (s_mbd s) (cores s)" "0 \<le> jd_jobId (jb s r)"
    and "has (j_status (jb s r)) JOB_STAT_RESERVE \<Longrightarrow> t = LOG_IT \<and> reset_ok (base (j_status (jb s r))) (base new)"
  obtains s0 where "settled r s s0" "adjusted r (updJgrpCountByJStatus r (j_status (jb s0 r)) new s0) (before_change r new t s)"
proof -
  define s1 where "s1 = (if t = LOG_IT \<and> has (j_status (jb s r)) JOB_STAT_RESERVE then resetReserve r new s else s)"
  define s2 where "s2 = (if t = LOG_IT \<and> has (j_status (jb s1 r)) JOB_STAT_RSRC_PREEMPT_WAIT
                  \<and> (\<not> IS_PEND new \<and> \<not> has new JOB_STAT_SSUSP \<or> has new JOB_STAT_PSUSP \<or> IS_FINISH new)
               then freeReservePreemptResources r s1 else s1)"
  define s3 where "s3 = (if t = LOG_IT \<and> has (j_status (jb s2 r)) JOB_STAT_RUN
                  \<and> (\<not> has new JOB_STAT_RUN \<or> IS_FINISH new \<or> IS_SUSP new)
               then updateStopJobPreemptResources r s2 else s2)"
  have i: "adjusted r x x" for x by (simp add: adjusted_def)
  have "settled r s s1"
    unfolding s1_def using resetReserve_settled [OF assms(1-3)] assms(3,5) by (cases "has (j_status (jb s r)) JOB_STAT_RESERVE") (simp_all add: settled_def)
  moreover have a2: "adjusted r s1 s2"
    unfolding s2_def freeReservePreemptResources_def using i adjusted_upd [of s1 r] by (auto simp: alike_def clear_flags)
  moreover have a3: "adjusted r s2 s3"
    unfolding s3_def updateStopJobPreemptResources_def using i adjusted_upd [of s2 r] by (auto simp: alike_def)
  ultimately have s3: "settled r s s3" using settled_adjusted [OF _ _ assms(1,2)] by blast
  have id: "0 \<le> jd_jobId (jb s3 r)" using s3 assms(4) by (simp add: settled_def)
  let ?s4 = "updJgrpCountByJStatus r (j_status (jb s3 r)) new s3"
  let ?s5 = "accumRunTime r new t ?s4"
  have "alike j (accum_job a b new j)" for a b j by (simp add: alike_def accum_job_def Let_def)
  then have a5: "adjusted r ?s4 ?s5" unfolding accumRunTime_def by (intro adjusted_upd) blast
  have "before_change r new t s = (if \<not> m_replay (s_mbd ?s5) \<and> (IS_PEND (j_status (jb ?s5 r)) \<and> IS_START new \<or> IS_START (j_status (jb ?s5 r)) \<and> IS_FINISH new)
      then ?s5\<lparr>s_statusChanged := True\<rparr> else ?s5)"
    using id unfolding before_change_def Let_def s1_def [symmetric] s2_def [symmetric] s3_def [symmetric] by auto
  then have "adjusted r ?s5 (before_change r new t s)" by (auto simp: adjusted_def jb_def)
  then show ?thesis using that [OF s3] adjusted_trans [OF a5] by blast
qed

section \<open>The change\<close>

text \<open>The counters of groups.\<close>

lemma index_base:
  assumes "base s = base s'"
  shows "getIndexOfJStatus s = getIndexOfJStatus s'"
proof -
  have "MASK_STATUS (s AND NOT JOB_STAT_UNKWN AND NOT JOB_STAT_PDONE AND NOT JOB_STAT_PERR) = base s AND NOT JOB_STAT_PDONE AND NOT JOB_STAT_PERR" for s
    by (simp only: base_def MASK_STATUS_def and.assoc and.left_commute and.commute)
  then show ?thesis using assms by (simp only: getIndexOfJStatus_def)
qed

lemma index_pos: "getIndexOfJStatus s \<noteq> JGRP_COUNT_NJOBS"
  by (simp add: getIndexOfJStatus_def JGRP_COUNT_NJOBS_def Let_def)

lemma fold_group: "fold (\<lambda>g cs. cs(g := F (cs g))) gs cs g = (F ^^ count_list gs g) (cs g)"
  by (induction gs arbitrary: cs) (auto simp: funpow_swap1)

definition share :: "jstatus \<Rightarrow> nat \<Rightarrow> int" where
  "share st i = (if st \<noteq> JOB_STAT_NULL \<and> (i = JGRP_COUNT_NJOBS \<or> i = getIndexOfJStatus st) then 1 else 0)"

lemma jgrp_change_pow: "(jgrp_change a b ^^ n) c i = c i + int n * (share b i - share a i)"
  using index_pos [of a] index_pos [of b]
  by (induction n) (auto simp: jgrp_change_def share_def bump_def Let_def algebra_simps)

lemma updJgrp_share: "s_jgrp (updJgrpCountByJStatus r a b s) g i = s_jgrp s g i + int (count_list (jd_jgrp (jb s r)) g) * (share b i - share a i)"
  by (simp add: updJgrpCountByJStatus_def fold_group jgrp_change_pow)

lemma share_below: "j_status j \<noteq> JOB_STAT_NULL \<Longrightarrow> below i g j = int (count_list (jd_jgrp j) g) * share (j_status j) i"
  by (simp add: below_def share_def)

lemma updJgrp_below:
  assumes "a \<noteq> JOB_STAT_NULL" "b \<noteq> JOB_STAT_NULL" "base a = base (j_status (jb s r))" "base b = base (j_status j')" "jd_jgrp j' = jd_jgrp (jb s r)"
  shows "s_jgrp (updJgrpCountByJStatus r a b s) g i = s_jgrp s g i - below i g (jb s r) + below i g j'"
  using assms(1,2,5) by (simp add: updJgrp_share below_def share_def index_base [OF assms(3)] index_base [OF assms(4)])

text \<open>The new status.\<close>

lemma mask_base: "base (MASK_STATUS s) = base s" "MASK_STATUS s AND 0xFFFFF = MASK_STATUS s"
  by (simp_all add: base_mask MASK_STATUS_def MASK_INT_JOB_STAT_def and.assoc)

lemma SET_STATE_base:
  assumes "n AND 0xFFFFF = n"
  shows "base (SET_STATE s n) = base n" "has (SET_STATE s n) JOB_STAT_RESERVE = has s JOB_STAT_RESERVE"
proof -
  have "(s AND NOT 0xFFFFF) AND 0xEFFFF = s AND (NOT 0xFFFFF AND 0xEFFFF)" by (simp only: and.assoc)
  then show "base (SET_STATE s n) = base n" by (simp add: base_mask SET_STATE_def MASK_INT_JOB_STAT_def word_ao_dist)
  have "n AND 0x20000000 = n AND (0xFFFFF AND 0x20000000)" by (metis and.assoc assms)
  moreover have "(s AND NOT 0xFFFFF) AND 0x20000000 = s AND (NOT 0xFFFFF AND 0x20000000)" by (simp only: and.assoc)
  ultimately show "has (SET_STATE s n) JOB_STAT_RESERVE = has s JOB_STAT_RESERVE"
    by (simp add: has_def SET_STATE_def job_stat_defs word_ao_dist)
qed

lemma set_state_fields:
  assumes "n AND 0xFFFFF = n"
  shows "core (set_state n j) = (core j)\<lparr>j_status := SET_STATE (j_status j) n\<rparr>" "jd_jgrp (set_state n j) = jd_jgrp j"
    "jd_jobId (set_state n j) = jd_jobId j" "base (j_status (set_state n j)) = base n"
    "has (j_status (set_state n j)) JOB_STAT_RESERVE = has (j_status j) JOB_STAT_RESERVE"
  using SET_STATE_base [OF assms] by (simp_all add: set_state_def Let_def job.truncate_def)

lemma updCounters_old:
  assumes "base a = base b"
  shows "updCounters j a m = updCounters j b m"
proof -
  have "has a JOB_STAT_PEND = has b JOB_STAT_PEND" "has a JOB_STAT_PSUSP = has b JOB_STAT_PSUSP" "has a JOB_STAT_RUN = has b JOB_STAT_RUN"
    "has a JOB_STAT_SSUSP = has b JOB_STAT_SSUSP" "has a JOB_STAT_USUSP = has b JOB_STAT_USUSP" "has a JOB_STAT_EXIT = has b JOB_STAT_EXIT"
    "has a JOB_STAT_DONE = has b JOB_STAT_DONE" "has a JOB_STAT_WAIT = has b JOB_STAT_WAIT"
    unfolding has_state assms by (rule refl)+
  note eqs = this
  have "cnt_run j a m = cnt_run j b m" "cnt_ssusp j a m = cnt_ssusp j b m" "cnt_ususp j a m = cnt_ususp j b m"
    "cnt_finish j a m = cnt_finish j b m" "cnt_pend j a m = cnt_pend j b m" "IS_PEND a = IS_PEND b" "IS_FINISH a = IS_FINISH b"
    unfolding cnt_run_def cnt_ssusp_def cnt_ususp_def cnt_finish_def cnt_pend_def is_status_defs eqs by (rule refl)+
  note cnts = this
  show ?thesis unfolding updCounters_def cnts assms by (rule refl)
qed


text \<open>The move to the list of the new state.\<close>

definition relisted :: "pointer \<Rightarrow> sys \<Rightarrow> sys \<Rightarrow> bool" where
  "relisted r s s' \<longleftrightarrow> mset (all_refs s') = mset (all_refs s) \<and> s_mbd s' = s_mbd s \<and> s_jgrp s' = s_jgrp s
     \<and> (\<forall>x. x \<noteq> r \<longrightarrow> jb s' x = jb s x) \<and> alike (jb s r) (jb s' r) \<and> on_lists s'"

lemma fits_base: "base a = base b \<Longrightarrow> fits a l = fits b l"
  by (cases l) (simp_all add: fits_def)

lemma moved_relisted:
  assumes "moved r l k s s'" "r \<in> set (s_lists s l)" "on_lists_but r s" "fits (j_status (jb s r)) k"
  shows "relisted r s s'"
proof -
  have "fits (j_status (jb s' r)) k"
    using assms(1,4) fits_base [of "j_status (jb s' r)" "j_status (jb s r)" k] by (simp add: moved_def alike_def)
  then have "on_lists s'" by (rule moved_on_lists [OF assms(1-3)])
  moreover have "mset (all_refs s') = mset (all_refs s)" using moved_refs [OF assms(1,2)] assms(3) by (simp add: on_lists_but_def)
  ultimately show ?thesis using assms(1) by (simp add: relisted_def moved_def)
qed

lemma adjusted_relisted:
  assumes "adjusted r s s'" "r \<in> set (s_lists s l)" "on_lists_but r s" "fits (j_status (jb s r)) l"
  shows "relisted r s s'"
proof -
  have a: "fits (j_status (jb s' r)) l" "all_refs s' = all_refs s" "s_lists s' = s_lists s" "\<And>x. x \<noteq> r \<Longrightarrow> jb s' x = jb s x"
    using assms(1,4) fits_base [of "j_status (jb s' r)" "j_status (jb s r)" l] by (simp_all add: adjusted_def alike_def all_refs_def)
  have d: "distinct (all_refs s)" using assms(3) by (simp add: on_lists_but_def)
  have "fits (j_status (jb s' x)) k" if "x \<in> set (s_lists s k)" for x k
  proof (cases "x = r")
    case True
    then show ?thesis using a(1) on_one_list [OF d assms(2), of k] that by simp
  qed (use assms(3) a(4) that in \<open>simp add: on_lists_but_def\<close>)
  then show ?thesis using assms(1,3) a(2) by (simp add: relisted_def adjusted_def on_lists_def on_lists_but_def)
qed

definition to_list :: "pointer \<Rightarrow> jstatus \<Rightarrow> jstatus \<Rightarrow> int \<Rightarrow> sys \<Rightarrow> sys" where
  "to_list r old new t s =
     (if IS_START new \<and> IS_PEND old then to_started r s
      else if IS_FINISH new then to_finished r old s
      else if has new JOB_STAT_PEND \<and> IS_START old then back_to_pend r t s
      else same_list r new s)"

lemma is_fits:
  assumes "base s \<in> states"
  shows "IS_START s = fits s SJL" "IS_PEND s = fits s PJL" "IS_FINISH s = fits s FJL"
  using has_states [OF assms] by (simp_all add: is_status_defs fits_def) blast+

lemma fits_one:
  assumes "fits s l"
  shows "fits s SJL \<longleftrightarrow> l = SJL" "fits s PJL \<longleftrightarrow> l = PJL \<or> l = MJL" "fits s FJL \<longleftrightarrow> l = FJL" "base s \<in> states"
  using assms by (cases l; auto simp: fits_def states_def job_stat_defs)+

lemma states_fits: "base s \<in> states \<Longrightarrow> fits s SJL \<or> fits s PJL \<or> fits s FJL" "fits s MJL = fits s PJL"
  by (auto simp: fits_def states_def)

lemma to_list_relisted:
  assumes "legal (base old) (base new)" "r \<in> set (s_lists s l)" "fits old l" "on_lists_but r s" "base (j_status (jb s r)) = base new"
  shows "relisted r s (to_list r old new t s)"
proof -
  note st = legal_states [OF assms(1)]
  note is_old = is_fits [OF conjunct1 [OF st]] and is_new = is_fits [OF conjunct2 [OF st]]
  have d: "distinct (all_refs s)" using assms(4) by (simp add: on_lists_but_def)
  have "\<not> fits old FJL" using assms(1) by (auto simp: legal_def fits_def job_stat_defs)
  then have L: "l \<noteq> FJL" using assms(3) by blast
  have fit: "fits (j_status (jb s r)) k = fits new k" for k by (rule fits_base [OF assms(5)])
  have old: "IS_START old \<longleftrightarrow> l = SJL" "IS_PEND old \<longleftrightarrow> l \<noteq> SJL"
    using is_old fits_one [OF assms(3)] L by (cases l; simp)+
  have pm: "l = PJLorMJL r s" if "l \<noteq> SJL"
    using on_one_list [OF d assms(2), of MJL] assms(2) that L by (cases l) (auto simp: PJLorMJL_def)
  have pend: "has new JOB_STAT_PEND \<longleftrightarrow> base new = JOB_STAT_PEND" by (rule has_states(1) [OF conjunct2 [OF st]])
  have same: "relisted r s (same_list r new s)" if "fits new l"
    by (rule adjusted_relisted [OF _ assms(2,4)]) (use that fit in \<open>simp_all add: same_list_def adjusted_def alike_def\<close>)
  consider (start) "fits new SJL" | (pend) "fits new PJL" | (finish) "fits new FJL" using states_fits(1) st by blast
  then show ?thesis
  proof cases
    case start
    note n = fits_one [OF start]
    show ?thesis
    proof (cases "l = SJL")
      case True
      have "base new \<noteq> JOB_STAT_PEND" using start by (auto simp: fits_def job_stat_defs)
      then show ?thesis using same start True by (simp add: to_list_def old is_new n pend)
    next
      case False
      then show ?thesis using moved_relisted [OF to_started_moved [OF assms(2) pm] assms(2,4)] fit start by (simp add: to_list_def old is_new)
    qed
  next
    case pend
    note n = fits_one [OF pend]
    show ?thesis
    proof (cases "l = SJL")
      case True
      have b: "base new = JOB_STAT_PEND" using assms(1,3) True pend by (auto simp: legal_def fits_def job_stat_defs)
      obtain k where k: "k \<in> {PJL, MJL}" "moved r SJL k s (back_to_pend r t s)" using back_to_pend_moved assms(2) True by blast
      then have "fits new k" using pend states_fits(2) by blast
      then show ?thesis using moved_relisted [OF k(2) _ assms(4)] assms(2) True fit b \<open>has new JOB_STAT_PEND \<longleftrightarrow> base new = JOB_STAT_PEND\<close>
        by (simp add: to_list_def old is_new n)
    next
      case False
      then have "fits new l" using pend states_fits(2) L by (cases l) simp_all
      then show ?thesis using same False by (simp add: to_list_def old is_new n)
    qed
  next
    case finish
    note n = fits_one [OF finish]
    have e: "l = (if IS_START old then SJL else PJLorMJL r s)" using pm old by simp
    show ?thesis using moved_relisted [OF to_finished_moved [OF assms(2) e] assms(2,4)] fit finish by (simp add: to_list_def is_new n)
  qed
qed

text \<open>The change as a whole.\<close>

definition after_list :: "pointer \<Rightarrow> jstatus \<Rightarrow> sys \<Rightarrow> sys" where
  "after_list r old s = counters (updCounters (core (jb s r)) old) s"

lemma jStatusChange_steps:
  assumes "base new \<noteq> base (j_status (jb s r))" "n = MASK_STATUS new" "old = j_status (jb s r)"
    and "s3 = to_list r old n t (upd_job r (set_state n) (before_change r n t s))" "\<not> m_replay (s_mbd s3)"
  shows "jStatusChange r new t s =
    (if has n JOB_STAT_PEND \<and> IS_START old \<and> \<not> IS_FINISH n \<and> \<not> (IS_START n \<and> IS_PEND old)
     then freeExecParams r (after_list r old s3) else after_list r old s3)"
proof -
  have "s3 = (let s = upd_job r (set_state n) (before_change r n t s) in
                  if IS_START n \<and> IS_PEND old then to_started r s
                  else if IS_FINISH n then to_finished r old s
                  else if \<not> (IS_START n \<and> IS_PEND old) \<and> \<not> IS_FINISH n \<and> has n JOB_STAT_PEND \<and> IS_START old then back_to_pend r t s
                  else same_list r n s)"
    unfolding assms(4) to_list_def Let_def by simp
  note e = this [unfolded Let_def, symmetric]
  show ?thesis
    using assms(1,5) unfolding jStatusChange_def Let_def assms(2,3) [symmetric] e after_list_def by auto
qed

lemma hosts_inv:
  assumes "sys_inv s" "r \<in> set (all_refs s)" "unplaced (j_status (jb s r))"
    and "core (f (jb s r)) = (core (jb s r))\<lparr>j_hosts := hs\<rparr>" "jd_jgrp (f (jb s r)) = jd_jgrp (jb s r)" "jd_jobId (f (jb s r)) = jd_jobId (jb s r)"
  shows "sys_inv (upd_job r f s)"
proof -
  let ?s = "upd_job r f s"
  have l: "s_lists ?s = s_lists s" "all_refs ?s = all_refs s" "s_mbd ?s = s_mbd s" "s_numEnts ?s = s_numEnts s" "s_jgrp ?s = s_jgrp s"
    by (simp_all add: all_refs_def)
  have j: "j_status (f (jb s r)) = j_status (jb s r)" using arg_cong [OF assms(4), of j_status] by simp
  have ch: "changed r s ?s" by (rule same_lists_changed) (use assms(1,2) l in \<open>simp_all add: sys_inv_def on_lists_def\<close>)
  have "j_status (jb ?s x) = j_status (jb s x)" "jd_jobId (jb ?s x) = jd_jobId (jb s x)" "below i g (jb ?s x) = below i g (jb s x)" for x i g
    using j assms(5,6) by (cases "x = r"; simp add: below_def)+
  note same = this
  have "cinv (s_mbd s) (cores ?s)"
  proof (rule changed_cinv [OF ch])
    show "cinv (s_mbd s) (js[i := core (jb ?s r)])" if "cinv (s_mbd s) js" "i < length js" "js ! i = core (jb s r)" for js i
      using hosts_cinv [of js i "s_mbd s" hs] that assms(3,4) by simp
  qed (use assms(1) in \<open>simp add: sys_inv_def\<close>)
  then show ?thesis using assms(1) l same by (simp add: sys_inv_def on_lists_def groups_ok_def)
qed

lemma freeExecParams_inv:
  assumes "sys_inv s" "r \<in> set (all_refs s)" "unplaced (j_status (jb s r))"
  shows "sys_inv (freeExecParams r s)"
  unfolding freeExecParams_def
  by (rule hosts_inv [OF assms, where hs = "[]"]) (simp_all add: free_exec_def cleanCandHosts_def job.truncate_def)

lemma set_state_but:
  assumes "settled r s s0" "adjusted r (updJgrpCountByJStatus r a b s0) s1" "on_lists s" "n AND 0xFFFFF = n"
  shows "on_lists_but r (upd_job r (set_state n) s1)" "s_lists (upd_job r (set_state n) s1) = s_lists s"
    "\<And>x. x \<noteq> r \<Longrightarrow> jb (upd_job r (set_state n) s1) x = jb s x" "s_mbd (upd_job r (set_state n) s1) = s_mbd s0"
    "s_jgrp (upd_job r (set_state n) s1) = s_jgrp (updJgrpCountByJStatus r a b s0)"
    "core (jb (upd_job r (set_state n) s1) r) = (core (jb s0 r))\<lparr>j_status := j_status (set_state n (jb s1 r))\<rparr>"
    "jd_jgrp (jb (upd_job r (set_state n) s1) r) = jd_jgrp (jb s r)" "jd_jobId (jb (upd_job r (set_state n) s1) r) = jd_jobId (jb s r)"
    "base (j_status (jb (upd_job r (set_state n) s1) r)) = base n" "\<not> has (j_status (jb (upd_job r (set_state n) s1) r)) JOB_STAT_RESERVE"
proof -
  have al: "alike (jb s0 r) (jb s1 r)" using assms(2) by (simp add: adjusted_def)
  show "core (jb (upd_job r (set_state n) s1) r) = (core (jb s0 r))\<lparr>j_status := j_status (set_state n (jb s1 r))\<rparr>"
    using set_state_fields(1) [OF assms(4), of "jb s1 r"] alike_core [OF al] by (simp add: set_state_def Let_def)
qed (use assms set_state_fields [OF assms(4)] in \<open>auto simp: on_lists_but_def on_lists_def settled_def adjusted_def alike_def all_refs_def\<close>)

lemma settled_groups:
  assumes "settled r s s0" "groups_ok s"
  shows "groups_ok s0"
proof -
  have "below i g (jb s0 x) = below i g (jb s x)" for i g x
    using assms(1) index_base [of "j_status (jb s0 r)" "j_status (jb s r)"] by (cases "x = r") (simp_all add: settled_def below_def)
  then show ?thesis using assms by (simp add: groups_ok_def settled_def all_refs_def)
qed

lemma states_nonnull: "base s \<in> states \<Longrightarrow> s \<noteq> JOB_STAT_NULL"
  by (auto simp: base_mask states_def job_stat_defs)

lemma jStatusChange_counted:
  assumes "sys_inv s" "r \<in> set (all_refs s)" "legal (base (j_status (jb s r))) (base new)" "n = MASK_STATUS new"
    and "has (j_status (jb s r)) JOB_STAT_RESERVE \<longrightarrow> t = LOG_IT \<and> reset_ok (base (j_status (jb s r))) (base new)"
    and "s3 = to_list r (j_status (jb s r)) n t (upd_job r (set_state n) (before_change r n t s))"
  shows "sys_inv (after_list r (j_status (jb s r)) s3)" "\<not> m_replay (s_mbd s3)" "base (j_status (jb s3 r)) = base new"
    "\<not> has (j_status (jb s3 r)) JOB_STAT_RESERVE" "mset (all_refs s3) = mset (all_refs s)"
proof -
  let ?old = "j_status (jb s r)" and ?s4 = "after_list r (j_status (jb s r)) s3"
  have i: "on_lists s" "distinct (all_refs s)" "cinv (s_mbd s) (cores s)" "groups_ok s" "0 \<le> jd_jobId (jb s r)"
    using assms(1,2) by (simp_all add: sys_inv_def on_lists_def)
  have n: "base n = base new" "n AND 0xFFFFF = n" unfolding assms(4) by (rule mask_base)+
  obtain s0 where s0: "settled r s s0" "adjusted r (updJgrpCountByJStatus r (j_status (jb s0 r)) n s0) (before_change r n t s)"
    using before_change_settled [OF i(2) assms(2) i(3,5), of t n] assms(5) n(1) by auto
  define s2 where "s2 = upd_job r (set_state n) (before_change r n t s)"
  note b = set_state_but [OF s0 i(1) n(2), folded s2_def]
  obtain l where l: "r \<in> set (s_lists s l)" using assms(2) in_all_refs by blast
  then have f: "fits ?old l" using i(1) by (simp add: on_lists_def)
  have rl: "relisted r s2 s3" unfolding assms(6) s2_def [symmetric]
    by (rule to_list_relisted [where l = l]) (use assms(3) n(1) l f b in simp_all)
  then have al: "alike (jb s2 r) (jb s3 r)" by (simp add: relisted_def)
  show st: "base (j_status (jb s3 r)) = base new" "\<not> has (j_status (jb s3 r)) JOB_STAT_RESERVE" using al b(9,10) n(1) by (simp_all add: alike_def)
  have r2: "all_refs s2 = all_refs s" "all_refs s0 = all_refs s" using b(2) s0(1) by (simp_all add: all_refs_def settled_def)
  show ms: "mset (all_refs s3) = mset (all_refs s)" using rl r2 by (simp add: relisted_def)
  have m: "s_mbd s3 = s_mbd s0" using rl b(4) by (simp add: relisted_def)
  have c0: "cinv (s_mbd s0) (cores s0)" "base (j_status (jb s0 r)) = base ?old" "\<not> has (j_status (jb s0 r)) JOB_STAT_RESERVE"
    using s0(1) by (simp_all add: settled_def)
  show "\<not> m_replay (s_mbd s3)" using c0(1) m by (simp add: cinv_def)
  have j4: "jb ?s4 x = jb s3 x" "all_refs ?s4 = all_refs s3" "s_jgrp ?s4 = s_jgrp s3" for x by (simp_all add: after_list_def all_refs_def)
  have ch: "changed r s0 ?s4"
    using rl b(3) s0(1) ms i(2) assms(2) r2(2) j4 by (simp add: changed_def relisted_def settled_def)
  have co: "core (jb s3 r) = (core (jb s0 r))\<lparr>j_status := j_status (jb s3 r)\<rparr>" using alike_core [OF al] b(6) by simp
  have "calls (core (jb s0 r)) (core (jb s3 r)) (s_mbd s0) (updCounters (core (jb s3 r)) (j_status (core (jb s0 r))) (s_mbd s0))"
    using updCounters_calls [of "core (jb s0 r)" "j_status (jb s3 r)" "s_mbd s0"] assms(3) c0(2,3) st unfolding co [symmetric] by simp
  then have "calls (core (jb s0 r)) (core (jb s3 r)) (s_mbd s0) (s_mbd ?s4)"
    using updCounters_old [OF c0(2)] m by (simp add: after_list_def)
  moreover have "job_ok (core (jb s3 r))" using listed_job_ok [OF c0(1)] assms(2) r2(2) st(2) by (subst co) (simp add: job_ok_def)
  moreover have "same_place (core (jb s0 r)) (core (jb s3 r))" by (subst co) (simp add: same_place_def)
  ultimately have ci: "cinv (s_mbd ?s4) (cores ?s4)" using changed_calls [OF ch c0(1)] j4(1) by simp
  have "groups_ok ?s4"
  proof (rule changed_groups [OF ch settled_groups [OF s0(1) i(4)]])
    note nn = states_nonnull [OF conjunct1 [OF legal_states [OF assms(3), folded c0(2)]]] states_nonnull [OF conjunct2 [OF legal_states [OF assms(3), folded n(1)]]]
    have "s_jgrp ?s4 = s_jgrp (updJgrpCountByJStatus r (j_status (jb s0 r)) n s0)" using j4(3) rl b(5) by (simp add: relisted_def)
    then show "s_jgrp ?s4 g k = s_jgrp s0 g k - below k g (jb s0 r) + below k g (jb ?s4 r)" for g k
      using updJgrp_below [OF nn refl, of "jb s3 r" g k] st(1) n(1) al b(7) s0(1) j4(1) by (simp add: alike_def settled_def)
  qed
  moreover have "0 \<le> jd_jobId (jb ?s4 x)" if "x \<in> set (all_refs ?s4)" for x
    using that assms(1) mset_eq_setD [OF ms] rl b(3,8) al j4 by (cases "x = r") (simp_all add: sys_inv_def relisted_def alike_def)
  moreover have "on_lists ?s4" using rl j4 by (simp add: relisted_def on_lists_def) (simp add: after_list_def)
  ultimately show "sys_inv ?s4" using ci by (simp add: sys_inv_def)
qed

text \<open>
  A change between states keeps the invariant.  A reservation must be one that
  \<open>resetReserve\<close> clears, in a change that is logged.
\<close>

lemma jStatusChange_inv:
  assumes "sys_inv s" "r \<in> set (all_refs s)" "legal (base (j_status (jb s r))) (base new)"
    and "has (j_status (jb s r)) JOB_STAT_RESERVE \<longrightarrow> t = LOG_IT \<and> reset_ok (base (j_status (jb s r))) (base new)"
  shows "sys_inv (jStatusChange r new t s)" "base (j_status (jb (jStatusChange r new t s) r)) = base new"
    "mset (all_refs (jStatusChange r new t s)) = mset (all_refs s)"
proof -
  have "sys_inv (jStatusChange r new t s) \<and> base (j_status (jb (jStatusChange r new t s) r)) = base new
    \<and> mset (all_refs (jStatusChange r new t s)) = mset (all_refs s)"
  proof (cases "base new = base (j_status (jb s r))")
    case True
    then show ?thesis using assms(1) by (simp add: jStatusChange_def)
  next
    case False
    let ?old = "j_status (jb s r)" and ?n = "MASK_STATUS new"
    define s3 where "s3 = to_list r ?old ?n t (upd_job r (set_state ?n) (before_change r ?n t s))"
    define s4 where "s4 = after_list r ?old s3"
    note c = jStatusChange_counted [OF assms(1-3) refl assms(4) s3_def, folded s4_def]
    note e = jStatusChange_steps [OF False refl refl s3_def c(2), folded s4_def]
    have a: "all_refs s4 = all_refs s3" "jb s4 x = jb s3 x" for x by (simp_all add: s4_def after_list_def all_refs_def)
    have r: "r \<in> set (all_refs s4)" using assms(2) mset_eq_setD [OF c(5)] a by simp
    have "has ?n JOB_STAT_PEND \<longleftrightarrow> base new = JOB_STAT_PEND"
      using has_states(1) [of ?n] legal_states [OF assms(3)] mask_base(1) [of new] by simp
    then have "unplaced (j_status (jb s4 r))" if "has ?n JOB_STAT_PEND" using that c(3,4) a by (simp add: unplaced_def)
    then have "sys_inv (freeExecParams r s4)" if "has ?n JOB_STAT_PEND" using freeExecParams_inv [OF c(1) r] that by blast
    moreover have "all_refs (freeExecParams r s4) = all_refs s4" "j_status (jb (freeExecParams r s4) r) = j_status (jb s4 r)"
      by (simp_all add: freeExecParams_def free_exec_def cleanCandHosts_def all_refs_def)
    ultimately show ?thesis unfolding e using c(1,3,5) a by simp
  qed
  then show "sys_inv (jStatusChange r new t s)" "base (j_status (jb (jStatusChange r new t s) r)) = base new"
    "mset (all_refs (jStatusChange r new t s)) = mset (all_refs s)" by blast+
qed

end
