(* ===== verification/JobRuns.thy ===== *)
theory JobRuns
  imports JobChange
begin

text \<open>
  The runs of the daemon: submission, requeue, removal and switching of jobs keep the
  invariant \<open>sys_inv\<close> as the changes of state do, so that it holds in every state the daemon reaches.
\<close>

section \<open>Requeue\<close>

lemma on_lists_same:
  assumes "on_lists s" "s_lists s' = s_lists s" "s_numEnts s' = s_numEnts s"
    and "\<And>x l. fits (j_status (jb s x)) l \<Longrightarrow> fits (j_status (jb s' x)) l"
  shows "on_lists s'"
  using assms by (simp add: on_lists_def all_refs_def)

lemma pend_fits: "fits JOB_STAT_PEND l \<longleftrightarrow> l = PJL \<or> l = MJL" "fits JOB_STAT_PSUSP l \<longleftrightarrow> l = PJL \<or> l = MJL"
  "base JOB_STAT_PEND = JOB_STAT_PEND" "base JOB_STAT_PSUSP = JOB_STAT_PSUSP"
  "\<not> has JOB_STAT_PEND JOB_STAT_RESERVE" "\<not> has JOB_STAT_PSUSP JOB_STAT_RESERVE"
  by (cases l; simp add: fits_def base_mask has_def job_stat_defs)+

text \<open>The state of the requeue before the counters, with the job back on the pending list.\<close>

definition requeued :: "pointer \<Rightarrow> int \<Rightarrow> sys \<Rightarrow> sys" where
  "requeued r t s =
     (let s = updJgrpCountByJStatus r (j_status (jb s r)) JOB_STAT_PEND s;
          s = upd_job r (requeue_job s) s in
      upd_job r (jobRequeueTimeUpdate t) (inPendJobList r PJL t (offJobList r FJL s)))"

lemma requeue_fields:
  "core (requeue_job s j) = (core j)\<lparr>j_status := JOB_STAT_PEND\<rparr>" "jd_jgrp (requeue_job s j) = jd_jgrp j" "jd_jobId (requeue_job s j) = jd_jobId j"
  "j_status (requeue_job s j) = JOB_STAT_PEND"
  by (simp_all add: requeue_job_def Let_def job.truncate_def)

lemma inPend_status [simp]: "j_status (jb (inPendJobList r l t s) x) = j_status (jb s x)"
  by (simp add: inPendJobList_def Let_def put_list_def upd_job_def jb_def)

lemma requeued_listed:
  assumes "sys_inv s" "r \<in> set (all_refs s)" "base (j_status (jb s r)) \<in> {JOB_STAT_EXIT, JOB_STAT_DONE}"
  shows "on_lists (requeued r t s)" "mset (all_refs (requeued r t s)) = mset (all_refs s)" "s_mbd (requeued r t s) = s_mbd s"
    "\<And>x. x \<noteq> r \<Longrightarrow> jb (requeued r t s) x = jb s x" "core (jb (requeued r t s) r) = (core (jb s r))\<lparr>j_status := JOB_STAT_PEND\<rparr>"
    "jd_jgrp (jb (requeued r t s) r) = jd_jgrp (jb s r)" "jd_jobId (jb (requeued r t s) r) = jd_jobId (jb s r)"
    "\<And>g k. s_jgrp (requeued r t s) g k = s_jgrp s g k - below k g (jb s r) + below k g (jb (requeued r t s) r)"
proof -
  define s1 where "s1 = updJgrpCountByJStatus r (j_status (jb s r)) JOB_STAT_PEND s"
  define s2 where "s2 = upd_job r (requeue_job s1) s1"
  have e: "requeued r t s = upd_job r (jobRequeueTimeUpdate t) (inPendJobList r PJL t (offJobList r FJL s2))"
    by (simp add: requeued_def Let_def s1_def s2_def)
  obtain l where l: "r \<in> set (s_lists s l)" using assms(2) in_all_refs by blast
  then have "fits (j_status (jb s r)) l" using assms(1) by (simp add: sys_inv_def on_lists_def)
  then have "l = FJL" using fits_one(3) assms(3) by (metis fits_def jlistno.simps(16))
  then have r: "r \<in> set (s_lists s2 FJL)" using l by (simp add: s2_def s1_def)
  have "adjusted r x x" for x by (simp add: adjusted_def)
  then have m: "moved r FJL PJL s2 (inPendJobList r PJL t (offJobList r FJL s2))" by (rule off_pend_moved [OF r]) simp
  have "moved r FJL PJL s2 (requeued r t s)" unfolding e
    by (rule moved_adjusted [OF _ m]) (simp_all add: adjusted_def alike_def jobRequeueTimeUpdate_def)
  moreover have "on_lists_but r s2" using assms(1) by (auto simp: on_lists_but_def s2_def s1_def sys_inv_def on_lists_def all_refs_def)
  ultimately have rl: "relisted r s2 (requeued r t s)"
    by (rule moved_relisted [OF _ r]) (simp add: s2_def requeue_fields pend_fits)
  have j2: "core (jb s2 r) = (core (jb s r))\<lparr>j_status := JOB_STAT_PEND\<rparr>" "jd_jgrp (jb s2 r) = jd_jgrp (jb s r)" "jd_jobId (jb s2 r) = jd_jobId (jb s r)"
    "j_status (jb s2 r) = JOB_STAT_PEND" by (simp_all add: s2_def s1_def requeue_fields)
  have al: "alike (jb s2 r) (jb (requeued r t s) r)" using rl by (simp add: relisted_def)
  show "on_lists (requeued r t s)" "mset (all_refs (requeued r t s)) = mset (all_refs s)" "s_mbd (requeued r t s) = s_mbd s"
    "\<And>x. x \<noteq> r \<Longrightarrow> jb (requeued r t s) x = jb s x"
    using rl by (simp_all add: relisted_def s2_def s1_def all_refs_def)
  show jg: "jd_jgrp (jb (requeued r t s) r) = jd_jgrp (jb s r)" "jd_jobId (jb (requeued r t s) r) = jd_jobId (jb s r)"
    using al j2 by (simp_all add: alike_def)
  have st: "j_status (jb (requeued r t s) r) = JOB_STAT_PEND" unfolding e using j2(4) by (simp add: jobRequeueTimeUpdate_def)
  then show "core (jb (requeued r t s) r) = (core (jb s r))\<lparr>j_status := JOB_STAT_PEND\<rparr>" using alike_core [OF al] j2(1) by simp
  have nn: "j_status (jb s r) \<noteq> JOB_STAT_NULL" "JOB_STAT_PEND \<noteq> JOB_STAT_NULL"
    using assms(3) by (auto simp: base_mask job_stat_defs)
  show "s_jgrp (requeued r t s) g k = s_jgrp s g k - below k g (jb s r) + below k g (jb (requeued r t s) r)" for g k
    using updJgrp_below [OF nn refl, of "jb (requeued r t s) r" g k] st jg(1) rl by (simp add: relisted_def s2_def s1_def)
qed

text \<open>A job whose user asked to stop it goes to PSUSP at once.\<close>

definition requeue_stop :: "pointer \<Rightarrow> sys \<Rightarrow> sys" where
  "requeue_stop r s =
     (if jd_sig1Flags (jb s r) = JOB_STAT_PSUSP
      then upd_job r (\<lambda>j. j\<lparr>jd_sig1Flags := 0\<rparr>)
             (updJgrpCountByJStatus r JOB_STAT_PEND JOB_STAT_PSUSP
               (upd_job r (\<lambda>j. setJobPendReason PEND_USER_STOP (j\<lparr>j_status := JOB_STAT_PSUSP\<rparr>)) s))
      else upd_job r (setJobPendReason PEND_JOB_REQUEUED) s)"

lemma requeue_stop_fields:
  assumes "j_status (jb s r) = JOB_STAT_PEND"
  shows "s_lists (requeue_stop r s) = s_lists s" "s_numEnts (requeue_stop r s) = s_numEnts s" "s_mbd (requeue_stop r s) = s_mbd s"
    "\<And>x. x \<noteq> r \<Longrightarrow> jb (requeue_stop r s) x = jb s x" "jd_jgrp (jb (requeue_stop r s) r) = jd_jgrp (jb s r)"
    "jd_jobId (jb (requeue_stop r s) r) = jd_jobId (jb s r)" "j_status (jb (requeue_stop r s) r) \<in> {JOB_STAT_PEND, JOB_STAT_PSUSP}"
    "core (jb (requeue_stop r s) r) = (core (jb s r))\<lparr>j_status := j_status (jb (requeue_stop r s) r)\<rparr>"
    "s_jgrp (requeue_stop r s) g k = s_jgrp s g k - below k g (jb s r) + below k g (jb (requeue_stop r s) r)"
proof -
  let ?p = "jb s r" and ?q = "(jb s r)\<lparr>j_status := JOB_STAT_PSUSP\<rparr>"
  have nn: "JOB_STAT_PEND \<noteq> JOB_STAT_NULL" "JOB_STAT_PSUSP \<noteq> JOB_STAT_NULL" by (simp_all add: job_stat_defs)
  have u: "s_jgrp (updJgrpCountByJStatus r JOB_STAT_PEND JOB_STAT_PSUSP x) g k = s_jgrp s g k - below k g ?p + below k g ?q"
    if "s_jgrp x = s_jgrp s" "jd_jgrp (jb x r) = jd_jgrp (jb s r)" for x
    using updJgrp_below [OF nn, of s r ?q g k] that assms by (simp add: updJgrpCountByJStatus_def)
  have "below k g (j\<lparr>jd_sig1Flags := a\<rparr>) = below k g j" "below k g (setJobPendReason b j) = below k g j" for a b j
    by (simp_all add: below_def setJobPendReason_def)
  then show "s_jgrp (requeue_stop r s) g k = s_jgrp s g k - below k g (jb s r) + below k g (jb (requeue_stop r s) r)"
    by (simp add: requeue_stop_def u setJobPendReason_def)
qed (use assms in \<open>auto simp: requeue_stop_def setJobPendReason_def job.truncate_def\<close>)

lemma handleRequeueJob_steps:
  "\<exists>f g. handleRequeueJob r t s = (let s = freeExecParams r (requeue_stop r (requeued r t s)) in
      upd_job r (\<lambda>j. j\<lparr>jd_jFlags := f\<rparr>) ((counters (count_new (core (jb s r))) s)\<lparr>s_numRemoveJobs := g\<rparr>))"
proof -
  define x where "x = counters (count_new (core (jb (freeExecParams r (requeue_stop r (requeued r t s))) r))) (freeExecParams r (requeue_stop r (requeued r t s)))"
  have "handleRequeueJob r t s = (if jd_jFlags (jb x r) AND JFLAG_HAS_BEEN_REQUEUED \<noteq> 0
      then x\<lparr>s_numRemoveJobs := s_numRemoveJobs x + 1\<rparr>
      else upd_job r (\<lambda>j. j\<lparr>jd_jFlags := jd_jFlags j OR JFLAG_HAS_BEEN_REQUEUED\<rparr>) x)"
    unfolding handleRequeueJob_def Let_def requeued_def requeue_stop_def x_def by (rule refl)
  moreover have "x\<lparr>s_numRemoveJobs := n\<rparr> = upd_job r (\<lambda>j. j\<lparr>jd_jFlags := jd_jFlags (jb x r)\<rparr>) (x\<lparr>s_numRemoveJobs := n\<rparr>)" for n
    by (simp add: upd_job_def jb_def)
  moreover have "upd_job r (\<lambda>j. j\<lparr>jd_jFlags := jd_jFlags j OR v\<rparr>) x = upd_job r (\<lambda>j. j\<lparr>jd_jFlags := jd_jFlags (jb x r) OR v\<rparr>) (x\<lparr>s_numRemoveJobs := s_numRemoveJobs x\<rparr>)" for v
    by (simp add: upd_job_def jb_def)
  ultimately show ?thesis unfolding Let_def x_def [symmetric] by metis
qed

lemma inv_changed:
  assumes "sys_inv s" "changed r s s'" "on_lists s'" "cinv (s_mbd s') (cores s')" "jd_jobId (jb s' r) = jd_jobId (jb s r)"
    and "\<And>g k. s_jgrp s' g k = s_jgrp s g k - below k g (jb s r) + below k g (jb s' r)"
  shows "sys_inv s'"
proof -
  have "0 \<le> jd_jobId (jb s' x)" if "x \<in> set (all_refs s')" for x
  proof -
    have "x \<in> set (all_refs s)" using that assms(2) mset_eq_setD unfolding changed_def by blast
    then show ?thesis using assms(1,2,5) by (cases "x = r") (simp_all add: sys_inv_def changed_def)
  qed
  then show ?thesis using assms(1,3,4) changed_groups [OF assms(2) _ assms(6)] by (simp add: sys_inv_def)
qed

lemma handleRequeueJob_inv:
  assumes "sys_inv s" "r \<in> set (all_refs s)" "base (j_status (jb s r)) \<in> {JOB_STAT_EXIT, JOB_STAT_DONE}"
  shows "sys_inv (handleRequeueJob r t s)" "j_status (jb (handleRequeueJob r t s) r) \<in> {JOB_STAT_PEND, JOB_STAT_PSUSP}"
proof -
  define s4 where "s4 = requeued r t s"
  note a = requeued_listed [OF assms, where t = t, folded s4_def]
  have st4: "j_status (jb s4 r) = JOB_STAT_PEND" using arg_cong [OF a(5), of j_status] by simp
  define s6 where "s6 = freeExecParams r (requeue_stop r s4)"
  note b = requeue_stop_fields [OF st4]
  obtain f n where e: "handleRequeueJob r t s = upd_job r (\<lambda>j. j\<lparr>jd_jFlags := f\<rparr>) ((counters (count_new (core (jb s6 r))) s6)\<lparr>s_numRemoveJobs := n\<rparr>)"
    using handleRequeueJob_steps [of r t s, folded s4_def] unfolding Let_def s6_def [symmetric] by blast
  let ?s = "handleRequeueJob r t s" and ?st = "j_status (jb (requeue_stop r s4) r)"
  have l: "s_lists ?s = s_lists s4" "s_numEnts ?s = s_numEnts s4" "s_jgrp ?s = s_jgrp (requeue_stop r s4)"
    "\<And>x. x \<noteq> r \<Longrightarrow> jb ?s x = jb s x" "jd_jgrp (jb ?s r) = jd_jgrp (jb s r)" "jd_jobId (jb ?s r) = jd_jobId (jb s r)" "j_status (jb ?s r) = ?st"
    unfolding e s6_def using a(4,6,7) b by (simp_all add: freeExecParams_def free_exec_def cleanCandHosts_def)
  show st: "j_status (jb ?s r) \<in> {JOB_STAT_PEND, JOB_STAT_PSUSP}" using l(7) b(7) by simp
  have "core (jb s6 r) = (core (jb s r))\<lparr>j_status := ?st, j_hosts := []\<rparr>"
    using b(8) a(5) by (simp add: s6_def freeExecParams_def free_exec_def cleanCandHosts_def job.truncate_def)
  moreover have "core (jb ?s r) = core (jb s6 r)" unfolding e by (simp add: job.truncate_def)
  moreover have "s_mbd ?s = count_new (core (jb s6 r)) (s_mbd s)" unfolding e s6_def by (simp add: a(3) b(3) freeExecParams_def)
  ultimately have c: "core (jb ?s r) = (core (jb s r))\<lparr>j_status := ?st, j_hosts := []\<rparr>" "s_mbd ?s = count_new (core (jb ?s r)) (s_mbd s)" by simp_all
  have ch: "changed r s ?s" using assms(1,2) a(2) l by (simp add: changed_def sys_inv_def on_lists_def all_refs_def)
  show "sys_inv ?s"
  proof (rule inv_changed [OF assms(1) ch])
    show "on_lists ?s"
    proof (rule on_lists_same [OF a(1) l(1,2)])
      show "fits (j_status (jb ?s x)) k" if "fits (j_status (jb s4 x)) k" for x k
        using that st st4 l(4) a(4) pend_fits(1,2) by (cases "x = r") auto
    qed
    show "cinv (s_mbd ?s) (cores ?s)"
    proof (rule changed_cinv [OF ch])
      show "cinv (s_mbd ?s) (js[i := core (jb ?s r)])" if "cinv (s_mbd s) js" "i < length js" "js ! i = core (jb s r)" for js i
        unfolding c(2) by (rule mbd_step_cinv [OF mbd_step.requeue that(1)]) (use that assms(3) b(7) c(1) in simp_all)
    qed (use assms(1) in \<open>simp add: sys_inv_def\<close>)
    have "below k g (jb ?s r) = below k g (jb (requeue_stop r s4) r)" for k g using l(5,7) b(5) a(6) by (simp add: below_def)
    then show "s_jgrp ?s g k = s_jgrp s g k - below k g (jb s r) + below k g (jb ?s r)" for g k
      using l(3) b(9) a(8) by simp
  qed (rule l(6))
qed

section \<open>Removal\<close>

lemma removeJob_inv:
  assumes "sys_inv s" "r \<in> set (all_refs s)" "base (j_status (jb s r)) \<in> {JOB_STAT_EXIT, JOB_STAT_DONE}"
  shows "sys_inv (removeJob r s)" "all_refs (removeJob r s) = remove1 r (all_refs s)"
proof -
  have i: "on_lists s" "distinct (all_refs s)" "cinv (s_mbd s) (cores s)" "groups_ok s" using assms(1) by (simp_all add: sys_inv_def on_lists_def)
  obtain l where l: "r \<in> set (s_lists s l)" using assms(2) in_all_refs by blast
  then have "fits (j_status (jb s r)) l" using i(1) by (simp add: on_lists_def)
  then have "l = FJL" using fits_one(3) assms(3) by (metis fits_def jlistno.simps(16))
  then have r: "r \<in> set (s_lists s FJL)" using l by simp
  let ?s = "removeJob r s"
  have f: "s_lists ?s = (\<lambda>l. remove1 r (s_lists s l))" "s_numEnts ?s = (s_numEnts s)(FJL := s_numEnts s FJL - 1)" "s_mbd ?s = s_mbd s" "jb ?s x = jb s x" for x
    using off_listed [OF r, of FJL] by (simp_all add: removeJob_def Let_def jb_def updJgrpCountByJStatus_def offJobList_def)
  have out: "r \<notin> set (s_lists s l)" if "l \<noteq> FJL" for l using on_one_list [OF i(2) r] that by blast
  show refs: "all_refs ?s = remove1 r (all_refs s)" using out by (simp add: all_refs_def f remove1_append remove1_idem)
  obtain xs ys where sp: "all_refs s = xs @ r # ys" "r \<notin> set xs" "remove1 r (all_refs s) = xs @ ys"
    using split_list_first [OF assms(2)] by (auto simp: remove1_append)
  have left: "all_refs ?s = xs @ ys" using refs sp(3) by simp
  have "on_lists ?s"
    using i(1,2) out unfolding on_lists_def refs by (auto simp: f remove1_idem dest: notin_set_remove1 set_remove1_subset [THEN subsetD])
  moreover have "mbd_step (s_mbd s, cores s) (s_mbd ?s, cores ?s)"
    using mbd_step.remove [of "core (jb s r)" "s_mbd s" "map (\<lambda>x. core (jb s x)) xs" "map (\<lambda>x. core (jb s x)) ys"] assms(3)
    by (simp add: cores_def left sp(1) f(3,4))
  then have "cinv (s_mbd ?s) (cores ?s)" using mbd_step_cinv i(3) by blast
  moreover have "groups_ok ?s"
  proof -
    have nn: "j_status (jb s r) \<noteq> JOB_STAT_NULL" using assms(3) by (auto simp: base_mask job_stat_defs)
    have "s_jgrp ?s g k = s_jgrp s g k - below k g (jb s r)" for g k
      using updJgrp_share [of r "j_status (jb s r)" JOB_STAT_NULL "(offJobList r FJL s)\<lparr>s_numRemoveJobs := n\<rparr>" g k for n]
      by (simp add: removeJob_def Let_def share_below [OF nn] share_def updJgrp_share)
    then show ?thesis using i(4) by (simp add: groups_ok_def left sp(1) f(4))
  qed
  ultimately show "sys_inv ?s" using assms(1) refs f(4) set_remove1_subset [of r "all_refs s"] by (auto simp: sys_inv_def)
qed

section \<open>Submission\<close>

lemma adjusted_inv:
  assumes "adjusted r s s'" "sys_inv s" "r \<in> set (all_refs s)"
  shows "sys_inv s'"
proof -
  have a: "alike (jb s r) (jb s' r)" "s_lists s' = s_lists s" "s_numEnts s' = s_numEnts s" "s_jgrp s' = s_jgrp s"
    "\<And>x. x \<noteq> r \<Longrightarrow> jb s' x = jb s x" using assms(1) by (simp_all add: adjusted_def)
  have d: "distinct (all_refs s)" "on_lists s" "cinv (s_mbd s) (cores s)" using assms(2) by (simp_all add: sys_inv_def on_lists_def)
  have b: "base (j_status (jb s' r)) = base (j_status (jb s r))" using a(1) by (simp add: alike_def)
  show ?thesis
  proof (rule inv_changed [OF assms(2)])
    show "changed r s s'" by (rule same_lists_changed [OF d(1) assms(3) a(2,5)])
    show "on_lists s'" by (rule on_lists_same [OF d(2) a(2,3)]) (metis a(5) b fits_base)
    show "cinv (s_mbd s') (cores s')" by (rule adjusted_cinv [OF assms(1) d(1) assms(3) d(3)])
    have "below k g (jb s' r) = below k g (jb s r)" for k g using a(1) index_base [OF b] by (simp add: alike_def below_def)
    then show "s_jgrp s' g k = s_jgrp s g k - below k g (jb s r) + below k g (jb s' r)" for g k using a(4) by simp
  qed (use a(1) in \<open>simp add: alike_def\<close>)
qed

lemma submitted_inv:
  assumes "sys_inv s" "r \<notin> set (all_refs s)" "placed r PJL (s_lists s) (s_lists s')" "s_numEnts s' = (s_numEnts s)(PJL := s_numEnts s PJL + 1)"
    and "\<And>x. x \<noteq> r \<Longrightarrow> jb s' x = jb s x" "s_mbd s' = count_new (core (jb s' r)) (s_mbd s)"
    and "\<And>g k. s_jgrp s' g k = s_jgrp s g k + below k g (jb s' r)"
    and "base (j_status (jb s' r)) \<in> {JOB_STAT_PEND, JOB_STAT_PSUSP}" "\<not> has (j_status (jb s' r)) JOB_STAT_RESERVE"
    and "0 \<le> j_numReq (jb s' r)" "0 \<le> jd_jobId (jb s' r)"
  shows "sys_inv s'" "mset (all_refs s') = add_mset r (mset (all_refs s))"
proof -
  have i: "on_lists s" "distinct (all_refs s)" "cinv (s_mbd s) (cores s)" "groups_ok s" using assms(1) by (simp_all add: sys_inv_def on_lists_def)
  obtain pre post where p: "s_lists s PJL = pre @ post" "s_lists s' = (s_lists s)(PJL := pre @ r # post)" using assms(3) unfolding placed_def by blast
  show ms: "mset (all_refs s') = add_mset r (mset (all_refs s))" using p by (simp add: all_refs_def)
  have perm: "mset (all_refs s') = mset (r # all_refs s)" using ms by simp
  have old: "jb s' x = jb s x" if "x \<in> set (all_refs s)" for x by (rule assms(5)) (use that assms(2) in blast)
  have sum: "(\<Sum>x\<leftarrow>all_refs s'. f (jb s' x)) = f (jb s' r) + (\<Sum>x\<leftarrow>all_refs s. (f (jb s x) :: int))" for f
  proof -
    have "(\<Sum>x\<leftarrow>all_refs s'. f (jb s' x)) = f (jb s' r) + (\<Sum>x\<leftarrow>all_refs s. f (jb s' x))" using sum_refs_perm [OF perm] by simp
    then show ?thesis using old by (simp cong: map_cong)
  qed
  have "cores s = map (\<lambda>x. core (jb s' x)) (all_refs s)" unfolding cores_def by (rule map_cong) (simp_all add: old)
  then have cs: "mset (cores s') = mset (cores s @ [core (jb s' r)])" by (simp add: cores_def [of s'] ms)
  have "on_lists s'"
  proof -
    have "distinct (all_refs s')" using mset_eq_imp_distinct_iff [OF perm] i(2) assms(2) by simp
    moreover have "fits (j_status (jb s' x)) l" if "x \<in> set (s_lists s' l)" for x l
    proof (cases "x = r")
      case True
      then have "l = PJL" using that p(2) assms(2) in_all_refs [of r s] by (auto split: if_splits)
      then show ?thesis using True assms(8) by (simp add: fits_def)
    next
      case False
      then have "x \<in> set (s_lists s l)" using that p by (cases "l = PJL") auto
      then show ?thesis using i(1) assms(5) [OF False] by (simp add: on_lists_def)
    qed
    ultimately show ?thesis using i(1) p assms(4) by (auto simp: on_lists_def)
  qed
  moreover have "cinv (s_mbd s') (cores s @ [core (jb s' r)])"
    unfolding assms(6) by (rule mbd_step_cinv [OF mbd_step.submit i(3)]) (use assms(8-10) in simp_all)
  then have "cinv (s_mbd s') (cores s')" using cinv_perm [OF cs] by simp
  moreover have "groups_ok s'" using i(4) assms(7) by (simp add: groups_ok_def sum)
  moreover have "0 \<le> jd_jobId (jb s' x)" if "x \<in> set (all_refs s')" for x
  proof (cases "x = r")
    case False
    then have "x \<in> set (all_refs s)" using that mset_eq_setD [OF perm] by simp
    then show ?thesis using assms(1) old by (simp add: sys_inv_def)
  qed (use assms(11) in simp)
  ultimately show "sys_inv s'" by (simp add: sys_inv_def)
qed

lemma handleNewJob_inv:
  assumes "sys_inv s" "r \<notin> set (all_refs s)" "base (j_status j) \<in> {JOB_STAT_PEND, JOB_STAT_PSUSP}"
    and "\<not> has (j_status j) JOB_STAT_RESERVE" "0 \<le> j_numReq j" "0 \<le> jd_jobId j"
  shows "sys_inv (handleNewJob r j gs False s)" "mset (all_refs (handleNewJob r j gs False s)) = add_mset r (mset (all_refs s))"
proof -
  define s1 where "s1 = inPendJobList r PJL 0 (upd_job r (\<lambda>_. j) s)"
  define s3 where "s3 = upd_job r (\<lambda>j. j\<lparr>jd_jFlags := jd_jFlags j OR JFLAG_READY2\<rparr>) (putOntoTree r gs s1)"
  define s4 where "s4 = counters (count_new (core (jb s3 r))) s3"
  have al: "alike j (jb s1 r)" using inPendJobList_placed(6) [where r = r and l = PJL and t = 0 and s = "upd_job r (\<lambda>_. j) s"] by (simp add: s1_def)
  have st1: "j_status (jb s1 r) = j_status j" by (simp add: s1_def)
  have j4: "jd_jgrp (jb s4 r) = gs" "j_status (jb s4 r) = j_status j" "j_numReq (jb s4 r) = j_numReq j" "jd_jobId (jb s4 r) = jd_jobId j"
    "core (jb s4 r) = core (jb s3 r)" "\<And>x. x \<noteq> r \<Longrightarrow> jb s4 x = jb s x"
    using al st1 inPendJobList_placed(5) [where r = r and l = PJL and t = 0 and s = "upd_job r (\<lambda>_. j) s"]
    by (simp_all add: s4_def s3_def putOntoTree_def Let_def alike_def s1_def [symmetric])
  have nn: "j_status j \<noteq> JOB_STAT_NULL" using assms(3) by (auto simp: base_mask job_stat_defs)
  have f4: "s_lists s4 = s_lists s1" "s_numEnts s4 = s_numEnts s1" "s_mbd s4 = count_new (core (jb s4 r)) (s_mbd s)"
    "s_jgrp s4 g k = s_jgrp s g k + below k g (jb s4 r)" for g k
    using j4(1,2,5) inPendJobList_placed(3,4) [where r = r and l = PJL and t = 0 and s = "upd_job r (\<lambda>_. j) s"] nn
    by (simp_all add: s4_def s3_def putOntoTree_def Let_def updJgrp_share share_below s1_def [symmetric]) (simp_all add: share_def st1)
  have pl: "placed r PJL (s_lists s) (s_lists s4)" "s_numEnts s4 = (s_numEnts s)(PJL := s_numEnts s PJL + 1)"
    using inPendJobList_placed(1,2) [where r = r and l = PJL and t = 0 and s = "upd_job r (\<lambda>_. j) s"] f4(1,2) by (simp_all add: s1_def)
  note inv = submitted_inv [OF assms(1,2) pl j4(6) f4(3,4) assms(3) [folded j4(2)] assms(4) [folded j4(2)] assms(5) [folded j4(3)] assms(6) [folded j4(4)]]
  let ?s = "upd_job r (\<lambda>j. j\<lparr>jd_newReason := PEND_USER_STOP\<rparr>) s4"
  have e: "handleNewJob r j gs False s = (if jd_options2 (jb s4 r) AND SUB2_HOLD \<noteq> 0 then jStatusChange r JOB_STAT_PSUSP (-1) ?s else s4)"
    by (simp add: handleNewJob_def Let_def s4_def s3_def s1_def)
  have r: "r \<in> set (all_refs s4)" using mset_eq_setD [of "all_refs s4" "r # all_refs s"] inv(2) by simp
  have a: "adjusted r s4 ?s" by (rule adjusted_upd) (simp add: alike_def)
  have "sys_inv ?s" "r \<in> set (all_refs ?s)" "all_refs ?s = all_refs s4" using adjusted_inv [OF a inv(1) r] r by (simp_all add: all_refs_def)
  then have "sys_inv (jStatusChange r JOB_STAT_PSUSP (-1) ?s)" "mset (all_refs (jStatusChange r JOB_STAT_PSUSP (-1) ?s)) = mset (all_refs s4)"
    using jStatusChange_inv [of ?s r JOB_STAT_PSUSP "-1"] assms(3,4) j4(2) pend_fits(4) by (auto simp: legal_def)
  then show "sys_inv (handleNewJob r j gs False s)" "mset (all_refs (handleNewJob r j gs False s)) = add_mset r (mset (all_refs s))"
    using inv unfolding e by simp_all
qed

section \<open>Switching\<close>

lemma mask_clear:
  "MASK_STATUS (s AND NOT JOB_STAT_RESERVE) = MASK_STATUS s" "MASK_STATUS (s AND NOT JOB_STAT_MIG) = MASK_STATUS s"
  "MASK_STATUS (s AND NOT JOB_STAT_RSRC_PREEMPT_WAIT) = MASK_STATUS s"
  by (simp_all add: MASK_STATUS_def MASK_INT_JOB_STAT_def and.assoc job_stat_defs JOB_STAT_RSRC_PREEMPT_WAIT_def)

lemma settled_inv:
  assumes "settled r s s0" "sys_inv s"
  shows "sys_inv s0"
proof -
  have o: "jb s0 x = jb s x" if "x \<noteq> r" for x using assms(1) that by (simp add: settled_def)
  have b: "base (j_status (jb s0 r)) = base (j_status (jb s r))" using assms(1) by (simp add: settled_def)
  have "on_lists s0" by (rule on_lists_same [of s]) (use assms in \<open>simp_all add: sys_inv_def settled_def\<close>, metis o b fits_base)
  moreover have "0 \<le> jd_jobId (jb s0 x)" if "x \<in> set (all_refs s0)" for x
    using that assms by (cases "x = r") (simp_all add: sys_inv_def settled_def all_refs_def)
  ultimately show ?thesis using assms settled_groups [OF assms(1)] by (simp add: sys_inv_def settled_def)
qed

lemma unreserved_inv:
  assumes "sys_inv s" "r \<in> set (all_refs s)"
  shows "sys_inv (unreserved r s)" "s_lists (unreserved r s) = s_lists s" "MASK_STATUS (j_status (jb (unreserved r s) r)) = MASK_STATUS (j_status (jb s r))"
    "j_queue (jb (unreserved r s) r) = j_queue (jb s r)" "j_numReq (jb (unreserved r s) r) = j_numReq (jb s r)"
    "s_jgrp (unreserved r s) = s_jgrp s" "\<And>x. x \<noteq> r \<Longrightarrow> jb (unreserved r s) x = jb s x"
    "has (j_status (jb (unreserved r s) r)) JOB_STAT_RESERVE \<Longrightarrow> has (j_status (jb s r)) JOB_STAT_RESERVE"
    "jd_jobId (jb (unreserved r s) r) = jd_jobId (jb s r)"
proof -
  have i: "on_lists s" "distinct (all_refs s)" "cinv (s_mbd s) (cores s)" using assms(1) by (simp_all add: sys_inv_def on_lists_def)
  define s1 where "s1 = (if IS_PEND (j_status (jb s r)) \<and> has (j_status (jb s r)) JOB_STAT_RESERVE
               then upd_job r (\<lambda>j. j\<lparr>jd_reserveTime := 0\<rparr>) (freeReserveSlots r s) else s)"
  obtain l where "r \<in> set (s_lists s l)" using assms(2) in_all_refs by blast
  then have "fits (j_status (jb s r)) l" using i(1) by (simp add: on_lists_def)
  then have b: "IS_PEND (j_status (jb s r)) \<Longrightarrow> base (j_status (jb s r)) \<in> {JOB_STAT_PEND, JOB_STAT_PSUSP}"
    using is_fits(2) fits_one(4) by (force simp: fits_def)
  have r1: "all_refs (freeReserveSlots r s) = all_refs s" "s_lists s1 = s_lists s" "all_refs s1 = all_refs s"
    by (simp_all add: all_refs_def s1_def freeReserveSlots_def deallocHosts_def clear_reserve_def)
  have i1: "sys_inv s1"
  proof (cases "IS_PEND (j_status (jb s r)) \<and> has (j_status (jb s r)) JOB_STAT_RESERVE")
    case True
    have "sys_inv (freeReserveSlots r s)"
      using settled_inv [OF free_reserve_settled [OF i(2) assms(2) i(3) b] assms(1)] True by blast
    then show ?thesis using True adjusted_inv [OF adjusted_upd, of "freeReserveSlots r s" r] assms(2) r1(1) by (simp add: s1_def alike_def)
  qed (use assms(1) in \<open>auto simp: s1_def\<close>)
  have "adjusted r s1 (freeReservePreemptResources r s1)"
    unfolding freeReservePreemptResources_def by (rule adjusted_upd) (simp add: alike_def clear_flags)
  then have i2: "sys_inv (freeReservePreemptResources r s1)" using adjusted_inv [OF _ i1] assms(2) r1(3) by simp
  have e: "unreserved r s = (if has (j_status (jb s1 r)) JOB_STAT_RSRC_PREEMPT_WAIT then freeReservePreemptResources r s1 else s1)"
    by (simp add: unreserved_def Let_def s1_def)
  show "sys_inv (unreserved r s)" using i1 i2 by (simp add: e)
qed (auto simp: unreserved_def Let_def freeReserveSlots_def deallocHosts_def clear_reserve_def freeReservePreemptResources_def mask_clear clear_flags split: if_splits)

lemma off_queue: "offJobList r l (upd_job r f s) = upd_job r f (offJobList r l s)"
  by (simp add: offJobList_def upd_job_def)

lemma jobInQueueEnd_relisted:
  assumes "on_lists s" "r \<in> set (s_lists s l)" "base (j_status (jb s r)) \<in> {JOB_STAT_PEND, JOB_STAT_PSUSP, JOB_STAT_RUN, JOB_STAT_SSUSP, JOB_STAT_USUSP}"
  shows "relisted r (upd_job r (\<lambda>j. j\<lparr>j_queue := qp\<rparr>) s) (jobInQueueEnd r qp s)"
    "MASK_STATUS (j_status (jb (jobInQueueEnd r qp s) r)) = MASK_STATUS (j_status (jb s r))"
proof -
  let ?st = "j_status (jb s r)"
  define s1 where "s1 = upd_job r (\<lambda>j. j\<lparr>j_queue := qp\<rparr>) s"
  have f: "fits ?st l" using assms(1,2) by (simp add: on_lists_def)
  have d: "distinct (all_refs s)" using assms(1) by (simp add: on_lists_def)
  have but: "on_lists_but r s1" using assms(1) by (simp add: on_lists_but_def s1_def on_lists_def all_refs_def)
  note ist = is_fits [OF fits_one(4) [OF f]]
  have L: "l \<noteq> FJL" using f assms(3) by (auto simp: fits_def job_stat_defs)
  have fin: "\<not> IS_FINISH ?st" using ist(3) fits_one(3) [OF f] L by simp
  have pend: "IS_PEND ?st \<longleftrightarrow> l \<noteq> SJL" using ist(2) fits_one(2) [OF f] L by (cases l) simp_all
  have l: "(if IS_PEND ?st then PJLorMJL r s else SJL) = l"
    using on_one_list [OF d assms(2), of MJL] assms(2) L pend by (cases l) (auto simp: PJLorMJL_def)
  have r: "r \<in> set (s_lists s1 l)" "j_status (jb s1 r) = ?st" using assms(2) by (simp_all add: s1_def)
  let ?o = "offJobList r l s1"
  let ?c = "upd_job r (\<lambda>j. j\<lparr>j_status := j_status j AND NOT JOB_STAT_MIG\<rparr>) (inPendJobList r PJL 0 ?o)"
  have e: "jobInQueueEnd r qp s =
     (if l \<noteq> SJL then if has ?st JOB_STAT_MIG then if s_glMigToPendFlag s then ?c else inPendJobList r MJL 0 ?o
                       else inPendJobList r PJL 0 ?o else inStartJobList r ?o)"
    using fin pend unfolding jobInQueueEnd_def Let_def l by (simp add: s1_def off_queue)
  have i: "adjusted r x x" for x by (simp add: adjusted_def)
  have m: "moved r l k s1 (inPendJobList r k 0 ?o)" if "k \<noteq> FJL" for k by (rule off_pend_moved [OF r(1) i that])
  have mc: "moved r l PJL s1 ?c" by (rule moved_adjusted [OF i m]) (simp_all add: adjusted_def alike_def clear_flags)
  have ms: "moved r l SJL s1 (inStartJobList r ?o)"
    using inStartJobList_placed [of r ?o] off_listed [OF r(1), of l] by (simp add: moved_def)
  have "\<exists>k. fits ?st k \<and> moved r l k s1 (jobInQueueEnd r qp s)"
    unfolding e using m mc ms fits_one [OF f] states_fits(2) [of ?st] L by (cases l) auto
  then show "relisted r (upd_job r (\<lambda>j. j\<lparr>j_queue := qp\<rparr>) s) (jobInQueueEnd r qp s)"
    using moved_relisted [OF _ r(1) but] r(2) unfolding s1_def [symmetric] by auto
  show "MASK_STATUS (j_status (jb (jobInQueueEnd r qp s) r)) = MASK_STATUS ?st" unfolding e using r(2) by (simp add: mask_clear)
qed

lemma updSwitchJob_queue: "switchable (j_status j) \<Longrightarrow> updSwitchJob (j\<lparr>j_queue := q\<rparr>) qfp qtp n m = updSwitchJob j qfp qtp n m"
  by (simp add: updSwitchJob_def Let_def)

lemma updSwitchJob_fields:
  assumes "updSwitchJob j qfp qtp n m = (j', m')"
  shows "j' = j\<lparr>j_queue := j_queue j', j_status := j_status j'\<rparr>" "base (j_status j') = base (j_status j)"
  using assms by (auto simp: updSwitchJob_def Let_def reserve_flag split: if_splits)

lemma switch_cinv:
  assumes "cinv m js" "i < length js" "js ! i = core j0" "alike j0 j1" "switchable (j_status j1)"
    and "has (j_status j1) JOB_STAT_RESERVE \<Longrightarrow> reservable (j_status j1)"
    and "updSwitchJob ((core j1)\<lparr>j_queue := q\<rparr>) (j_queue j0) qtp (j_numReq j0) m = (j', m')"
  shows "j_queue j' = qtp \<and> cinv m' (js[i := j'])"
proof -
  let ?ks = "js[i := core j1]"
  have "job_ok (core j0)" using cinv_ok [OF assms(1,2)] assms(3) by simp
  then have c: "cinv m ?ks" using calls_cinv [OF assms(1,2)] alike_calls [OF assms(4)] assms(3) by simp
  have a: "j_queue j1 = j_queue j0" "j_numReq j1 = j_numReq j0" using assms(4) by (simp_all add: alike_def)
  have "updSwitchJob ((?ks ! i)\<lparr>j_numReq := j_numReq j1\<rparr>) (j_queue (?ks ! i)) qtp (j_numReq (?ks ! i)) m = (j', m')"
    using assms(2,5,7) a updSwitchJob_queue [of "core j1" q] by (simp add: job.truncate_def)
  from updSwitchJob_cinv [OF c _ _ _ _ this] show ?thesis
    using assms(2,5,6) cinv_ok [OF c, of i] by (simp add: job.truncate_def)
qed

lemma switchable_states:
  assumes "switchable st"
  shows "base st \<in> {JOB_STAT_PEND, JOB_STAT_PSUSP, JOB_STAT_RUN, JOB_STAT_SSUSP, JOB_STAT_USUSP}"
  using assms mask_base(1) [of st] by (auto simp: switchable_def Let_def base_mask job_stat_defs)

lemma base_of_mask: "MASK_STATUS a = MASK_STATUS b \<Longrightarrow> base a = base b"
  by (metis mask_base(1))

lemma switch_commit_inv:
  assumes "sys_inv s" "r \<in> set (all_refs s)" "switchable (j_status (jb s r))"
    and "has (j_status (jb s r)) JOB_STAT_RESERVE \<longrightarrow> reservable (j_status (jb s r))"
  shows "sys_inv (switch_commit r qtp s)" "j_queue (jb (switch_commit r qtp s) r) = qtp"
    "mset (all_refs (switch_commit r qtp s)) = mset (all_refs s)"
proof -
  define s2 where "s2 = unreserved r s"
  define s3 where "s3 = jobInQueueEnd r qtp s2"
  note u = unreserved_inv [OF assms(1,2), folded s2_def]
  obtain j m where jm: "updSwitchJob (core (jb s3 r)) (j_queue (jb s r)) qtp (j_numReq (jb s3 r)) (s_mbd s3) = (j, m)" by (cases rule: prod.exhaust)
  define s4 where "s4 = upd_job r (\<lambda>jd. jd\<lparr>j_queue := j_queue j, j_status := j_status j\<rparr>) (s3\<lparr>s_mbd := m\<rparr>)"
  have sw: "switchable (j_status (jb s2 r))" using assms(3) u(3) by (simp add: switchable_def)
  have i2: "on_lists s2" "distinct (all_refs s2)" "cinv (s_mbd s2) (cores s2)" using u(1) by (simp_all add: sys_inv_def on_lists_def)
  have r2: "all_refs s2 = all_refs s" "r \<in> set (all_refs s2)" using u(2) assms(2) by (simp_all add: all_refs_def)
  obtain l where l: "r \<in> set (s_lists s2 l)" using r2(2) in_all_refs by blast
  note q = jobInQueueEnd_relisted [OF i2(1) l switchable_states [OF sw], of qtp, folded s3_def]
  define j1 where "j1 = (jb s2 r)\<lparr>j_status := j_status (jb s3 r)\<rparr>"
  have al: "alike ((jb s2 r)\<lparr>j_queue := qtp\<rparr>) (jb s3 r)" "s_mbd s3 = s_mbd s2" "s_jgrp s3 = s_jgrp s2" "on_lists s3"
    "mset (all_refs s3) = mset (all_refs s2)" "\<And>x. x \<noteq> r \<Longrightarrow> jb s3 x = jb s2 x" using q(1) by (simp_all add: relisted_def all_refs_def)
  have al1: "alike (jb s2 r) j1" using al(1) by (simp add: alike_def j1_def)
  have c3: "core (jb s3 r) = (core j1)\<lparr>j_queue := qtp\<rparr>" using alike_core [OF al(1)] by (simp add: j1_def job.truncate_def)
  have jm': "updSwitchJob ((core j1)\<lparr>j_queue := qtp\<rparr>) (j_queue (jb s2 r)) qtp (j_numReq (jb s2 r)) (s_mbd s2) = (j, m)"
    using jm al(1,2) u(4) unfolding c3 by (simp add: alike_def)
  have sw1: "switchable (j_status j1)" using sw q(2) by (simp add: j1_def switchable_def)
  have rs1: "reservable (j_status j1)" if "has (j_status j1) JOB_STAT_RESERVE"
  proof -
    have "has (j_status (jb s r)) JOB_STAT_RESERVE" using that u(8) al1 by (simp add: alike_def)
    moreover have "base (j_status j1) = base (j_status (jb s r))" using al1 base_of_mask [OF u(3)] by (simp add: alike_def)
    ultimately show ?thesis using assms(4) by (simp add: reservable_def)
  qed
  note f = updSwitchJob_fields [OF jm]
  have c4: "core (jb s4 r) = j" using f(1) by (simp add: s4_def job.truncate_def)
  have ch: "changed r s2 s4" using al(5,6) i2(2) r2(2) by (simp add: changed_def s4_def all_refs_def)
  have b4: "base (j_status (jb s4 r)) = base (j_status (jb s3 r))" "base (j_status (jb s3 r)) = base (j_status (jb s2 r))"
    using f(2) al(1) by (simp_all add: s4_def alike_def)
  have o4: "jb s4 x = jb s3 x" if "x \<noteq> r" for x using that by (simp add: s4_def)
  have S: "j_queue j = qtp \<and> cinv m (js[i := j])" if "cinv (s_mbd s2) js" "i < length js" "js ! i = core (jb s2 r)" for js i
    by (rule switch_cinv [OF that al1 sw1 rs1 jm'])
  have inv4: "sys_inv s4"
  proof (rule inv_changed [OF u(1) ch])
    have "fits (j_status (jb s4 x)) k" if "fits (j_status (jb s3 x)) k" for x k
      using that fits_base [OF b4(1), of k] o4 by (cases "x = r") simp_all
    then show "on_lists s4" using on_lists_same [OF al(4), of s4] by (simp add: s4_def)
    show "cinv (s_mbd s4) (cores s4)"
      by (rule changed_cinv [OF ch _ i2(3)]) (use S c4 in \<open>simp add: s4_def\<close>)
    have "below k g (jb s4 r) = below k g (jb s2 r)" for k g
      using index_base [OF trans [OF b4]] al(1) by (simp add: below_def) (simp add: s4_def alike_def)
    then show "s_jgrp s4 g k = s_jgrp s2 g k - below k g (jb s2 r) + below k g (jb s4 r)" for g k using al(3) by (simp add: s4_def)
  qed (use al(1) in \<open>simp add: s4_def alike_def\<close>)
  have e: "switch_commit r qtp s = (if \<not> IS_PEND (j_status (jb s4 r)) then upd_job r (\<lambda>j. j\<lparr>jd_notSwitched := True\<rparr>) (s4\<lparr>s_eventPending := True\<rparr>)
      else if \<not> has (j_status (jb s4 r)) JOB_STAT_PSUSP
      then upd_job r (\<lambda>j. setJobPendReason PEND_JOB_SWITCH (if j_queue (jb s r) \<noteq> qtp then cleanCandHosts j else j)) s4 else s4)"
    unfolding switch_commit_def Let_def s2_def [symmetric] s3_def [symmetric] jm prod.case s4_def [symmetric] by (rule refl)
  have fin: "adjusted r s4 (switch_commit r qtp s)"
    unfolding e by (simp add: adjusted_def alike_def setJobPendReason_def cleanCandHosts_def)
  have r4: "r \<in> set (all_refs s4)" using ch mset_eq_setD unfolding changed_def by blast
  show "sys_inv (switch_commit r qtp s)" by (rule adjusted_inv [OF fin inv4 r4])
  obtain i where "i < length (cores s2)" "cores s2 ! i = core (jb s2 r)" using r2(2) by (auto simp: cores_def in_set_conv_nth)
  then have "j_queue j = qtp" using S [OF i2(3)] by blast
  then show "j_queue (jb (switch_commit r qtp s) r) = qtp" using fin by (simp add: adjusted_def alike_def) (simp add: s4_def)
  have "all_refs (switch_commit r qtp s) = all_refs s3" using fin by (simp add: adjusted_def all_refs_def) (simp add: s4_def)
  then show "mset (all_refs (switch_commit r qtp s)) = mset (all_refs s)" using al(5) r2(1) by simp
qed

section \<open>Runs\<close>

text \<open>
  The steps of the daemon on jobs outside the replay of the log: a job is submitted, the scheduler gives it
  hosts or reserves slots for it, its state changes, it is switched to a queue, requeued or removed.
\<close>

definition reserve_slots :: "pointer \<Rightarrow> sys \<Rightarrow> sys" where
  "reserve_slots r s =
     upd_job r (\<lambda>j. j\<lparr>j_status := j_status j OR JOB_STAT_RESERVE\<rparr>)
       (counters (updResCounters (core (jb s r)) (j_status (jb s r) OR JOB_STAT_RESERVE)) s)"

inductive daemon_step :: "sys \<Rightarrow> sys \<Rightarrow> bool" where
  submit: "r \<notin> set (all_refs s) \<Longrightarrow> base (j_status j) \<in> {JOB_STAT_PEND, JOB_STAT_PSUSP} \<Longrightarrow>
    \<not> has (j_status j) JOB_STAT_RESERVE \<Longrightarrow> 0 \<le> j_numReq j \<Longrightarrow> 0 \<le> jd_jobId j \<Longrightarrow> daemon_step s (handleNewJob r j gs False s)"
| place: "r \<in> set (all_refs s) \<Longrightarrow> unplaced (j_status (jb s r)) \<Longrightarrow> daemon_step s (upd_job r (\<lambda>j. j\<lparr>j_hosts := hs\<rparr>) s)"
| reserve: "r \<in> set (all_refs s) \<Longrightarrow> reservable (j_status (jb s r)) \<Longrightarrow> \<not> has (j_status (jb s r)) JOB_STAT_RESERVE \<Longrightarrow>
    int (length (j_hosts (jb s r))) \<le> j_numReq (jb s r) \<Longrightarrow> daemon_step s (reserve_slots r s)"
| change: "r \<in> set (all_refs s) \<Longrightarrow> legal (base (j_status (jb s r))) (base new) \<Longrightarrow>
    has (j_status (jb s r)) JOB_STAT_RESERVE \<longrightarrow> t = LOG_IT \<and> reset_ok (base (j_status (jb s r))) (base new) \<Longrightarrow>
    daemon_step s (jStatusChange r new t s)"
| switch: "r \<in> set (all_refs s) \<Longrightarrow> switchable (j_status (jb s r)) \<Longrightarrow>
    has (j_status (jb s r)) JOB_STAT_RESERVE \<longrightarrow> reservable (j_status (jb s r)) \<Longrightarrow> daemon_step s (switch_commit r q s)"
| requeue: "r \<in> set (all_refs s) \<Longrightarrow> base (j_status (jb s r)) \<in> {JOB_STAT_EXIT, JOB_STAT_DONE} \<Longrightarrow> daemon_step s (handleRequeueJob r t s)"
| remove: "r \<in> set (all_refs s) \<Longrightarrow> base (j_status (jb s r)) \<in> {JOB_STAT_EXIT, JOB_STAT_DONE} \<Longrightarrow> daemon_step s (removeJob r s)"

definition fresh_sys :: "sys \<Rightarrow> bool" where
  "fresh_sys s \<longleftrightarrow> fresh_mbd (s_mbd s) \<and> s_lists s = (\<lambda>l. []) \<and> s_numEnts s = (\<lambda>l. 0) \<and> s_jgrp s = (\<lambda>g i. 0)"

definition running :: "sys \<Rightarrow> bool" where
  "running s \<longleftrightarrow> (\<exists>s0. fresh_sys s0 \<and> daemon_step\<^sup>*\<^sup>* s0 s)"

lemma fresh_inv: "fresh_sys s \<Longrightarrow> sys_inv s"
  using zeroed_consistent [of "s_mbd s"]
  by (simp add: fresh_sys_def fresh_mbd_def sys_inv_def on_lists_def all_refs_def groups_ok_def cores_def cinv_def)

lemma reserve_slots_inv:
  assumes "sys_inv s" "r \<in> set (all_refs s)" "reservable (j_status (jb s r))" "\<not> has (j_status (jb s r)) JOB_STAT_RESERVE"
    and "int (length (j_hosts (jb s r))) \<le> j_numReq (jb s r)"
  shows "sys_inv (reserve_slots r s)"
proof -
  let ?s = "reserve_slots r s" and ?new = "j_status (jb s r) OR JOB_STAT_RESERVE"
  have c: "core (jb ?s r) = (core (jb s r))\<lparr>j_status := ?new\<rparr>" "s_mbd ?s = updResCounters (core (jb s r)) ?new (s_mbd s)"
    by (simp_all add: reserve_slots_def core_upd)
  have b: "base (j_status (jb ?s r)) = base (j_status (jb s r))" by (simp add: reserve_slots_def reserve_flag)
  have o: "jb ?s x = jb s x" if "x \<noteq> r" for x using that by (simp add: reserve_slots_def)
  have l: "s_lists ?s = s_lists s" "s_numEnts ?s = s_numEnts s" by (simp_all add: reserve_slots_def)
  have ch: "changed r s ?s" by (rule same_lists_changed [OF _ assms(2) l(1) o]) (use assms(1) in \<open>simp_all add: sys_inv_def on_lists_def\<close>)
  show ?thesis
  proof (rule inv_changed [OF assms(1) ch])
    show "on_lists ?s" by (rule on_lists_same [OF _ l]) (use assms(1) in \<open>simp add: sys_inv_def\<close>, metis o b fits_base)
    show "cinv (s_mbd ?s) (cores ?s)"
    proof (rule changed_cinv [OF ch])
      show "cinv (s_mbd ?s) (js[i := core (jb ?s r)])" if "cinv (s_mbd s) js" "i < length js" "js ! i = core (jb s r)" for js i
        unfolding c by (rule mbd_step_cinv [OF mbd_step.reserve that(1)]) (use that assms(3-5) in \<open>simp_all add: core_upd\<close>)
    qed (use assms(1) in \<open>simp add: sys_inv_def\<close>)
    have "below k g (jb ?s r) = below k g (jb s r)" for k g using index_base [OF b] by (simp add: below_def) (simp add: reserve_slots_def)
    then show "s_jgrp ?s g k = s_jgrp s g k - below k g (jb s r) + below k g (jb ?s r)" for g k by (simp add: reserve_slots_def)
  qed (simp add: reserve_slots_def)
qed

lemma daemon_step_inv:
  assumes "daemon_step s s'" "sys_inv s"
  shows "sys_inv s'"
  using assms
proof (cases rule: daemon_step.cases)
  case (place r hs)
  then show ?thesis using hosts_inv [OF assms(2) place(2,3), where hs = hs] by (simp add: job.truncate_def)
qed (use assms(2) in \<open>simp_all add: handleNewJob_inv(1) reserve_slots_inv jStatusChange_inv(1) switch_commit_inv(1) handleRequeueJob_inv(1) removeJob_inv(1)\<close>)

lemma running_inv: "running s \<Longrightarrow> sys_inv s"
proof -
  assume "running s"
  then obtain s0 where f: "fresh_sys s0" and d: "daemon_step\<^sup>*\<^sup>* s0 s" unfolding running_def by blast
  from d show ?thesis by (induction rule: rtranclp_induct) (auto intro: fresh_inv [OF f] daemon_step_inv)
qed

section \<open>An example\<close>

text \<open>A daemon without jobs; a job of two slots on one host is submitted below two groups, and started.\<close>

definition eg_jData :: jData where
  "eg_jData = \<lparr>j_queue = ''normal'', j_user = ''ann'', j_hosts = [''h1'', ''h1''], j_numReq = 2, j_status = JOB_STAT_PEND,
     j_exclusive = False, jd_jobId = 101, jd_jobPriority = 5, jd_submitTime = 1000, jd_startTime = 0, jd_endTime = 0,
     jd_updStateTime = 1000, jd_resumeTime = 0, jd_runTime = 0, jd_requeueTime = 0, jd_reserveTime = 0, jd_newReason = 0,
     jd_subreasons = 0, jd_runCount = 1, jd_nextSeq = 1, jd_jFlags = 0, jd_options = 0, jd_options2 = 0, jd_userPriority = -1,
     jd_sig1Flags = 0, jd_sigDel = 0, jd_sig1 = SIG_NULL, jd_sig = SIG_NULL, jd_dptRoot = False, jd_jobPid = 0, jd_restartPid = 0,
     jd_cpuTime = 0, jd_notSwitched = False, jd_notModified = False, jd_jgrp = []\<rparr>"

definition eg_sys :: sys where
  "eg_sys = \<lparr>s_mbd = eg_mbd, s_jobs = (\<lambda>r. eg_jData), s_lists = (\<lambda>l. []), s_numEnts = (\<lambda>l. 0), s_jgrp = (\<lambda>g i. 0), s_numDispJobs = (\<lambda>h. 0),
     s_qprio = (\<lambda>q. if q = ''night'' then 20 else 30), s_qahead = (\<lambda>q. False), s_requeueToBottom = False, s_arraySchedOrder = False,
     s_glMigToPendFlag = False, s_maxUserPriority = 0, s_jobPriorityValue = -1, s_jobPriorityTime = -1, s_statusChanged = False,
     s_eventPending = False, s_numRemoveJobs = 0, s_now = 1000, s_time = 1000\<rparr>"

definition eg_submitted :: sys where
  "eg_submitted = handleNewJob 7 eg_jData [''astro'', ''/''] False eg_sys"

definition eg_running :: sys where
  "eg_running = jStatusChange 7 JOB_STAT_RUN LOG_IT eg_submitted"

lemma eg_fresh: "fresh_sys eg_sys"
  using eg_zeroed by (simp add: fresh_sys_def fresh_mbd_def eg_sys_def)

lemma eg_submit: "daemon_step eg_sys eg_submitted"
  unfolding eg_submitted_def by (rule daemon_step.submit) (simp_all add: eg_sys_def all_refs_def eg_jData_def eg_states)

lemma eg_submitted_job: "jb eg_submitted 7 = eg_jData\<lparr>jd_jFlags := JFLAG_READY2, jd_newReason := PEND_JOB_NEW, jd_jgrp := [''astro'', ''/'']\<rparr>"
  by (simp add: eg_submitted_def handleNewJob_def Let_def inPendJobList_def putOntoTree_def)
    (simp add: eg_jData_def PEND_JOB_NEW_def)

lemma eg_refs: "all_refs eg_submitted = [7]"
proof -
  have "mset (all_refs eg_submitted) = add_mset 7 (mset (all_refs eg_sys))"
    unfolding eg_submitted_def by (rule handleNewJob_inv(2)) (use fresh_inv [OF eg_fresh] in \<open>simp_all add: eg_sys_def all_refs_def eg_jData_def eg_states\<close>)
  moreover have "all_refs eg_sys = []" by (simp add: eg_sys_def all_refs_def)
  ultimately show ?thesis by simp
qed

lemma eg_start: "daemon_step eg_submitted eg_running" "base (j_status (jb eg_running 7)) = JOB_STAT_RUN" "mset (all_refs eg_running) = mset (all_refs eg_submitted)"
proof -
  have l: "legal (base (j_status (jb eg_submitted 7))) (base JOB_STAT_RUN)" "\<not> has (j_status (jb eg_submitted 7)) JOB_STAT_RESERVE"
    by (simp_all add: eg_submitted_job eg_jData_def eg_states legal_def)
  show "daemon_step eg_submitted eg_running" unfolding eg_running_def by (rule daemon_step.change) (use l eg_refs in simp_all)
  have i: "sys_inv eg_submitted" by (rule daemon_step_inv [OF eg_submit fresh_inv [OF eg_fresh]])
  show "base (j_status (jb eg_running 7)) = JOB_STAT_RUN" "mset (all_refs eg_running) = mset (all_refs eg_submitted)"
    using jStatusChange_inv(2,3) [OF i _ l(1)] l(2) eg_refs by (simp_all add: eg_running_def eg_states)
qed

lemma eg_running: "running eg_running" "set (all_refs eg_running) = {7}"
proof -
  have "daemon_step\<^sup>*\<^sup>* eg_sys eg_running" using eg_submit eg_start(1) by (meson r_into_rtranclp rtranclp_trans)
  then show "running eg_running" using eg_fresh unfolding running_def by blast
  show "set (all_refs eg_running) = {7}" using mset_eq_setD [OF eg_start(3)] eg_refs by simp
qed

section \<open>Properties\<close>

lemma once: "distinct xs \<Longrightarrow> x \<in> set xs \<Longrightarrow> count_list xs x = 1"
  by (induction xs) (auto simp: count_notin)





end
