(* ===== verification/JobOrder.thy ===== *)
theory JobOrder
  imports JobRuns
begin

text \<open>
  The order of the job lists (\<open>inPendJobList\<close> and \<open>inStartJobList\<close> of lsbatch/daemons/mbd.job.c).
  The scheduler walks the lists from the back, so that an entry is served before those in
  front of it: jobs of queues with a higher priority, then with a higher job priority, then the older
  ones.  Insertion keeps the lists in that order, and no operation of the daemon brings the
  priorities of the queues out of order.
\<close>

section \<open>Insertion\<close>

lemma sorted_insert_before:
  assumes "transp B" "irreflp B" "sorted_wrt (\<lambda>a b. \<not> B b a) xs"
  shows "sorted_wrt (\<lambda>a b. \<not> B b a) (takeWhile (\<lambda>x. \<not> B j x) xs @ j # dropWhile (\<lambda>x. \<not> B j x) xs)"
proof -
  let ?p = "takeWhile (\<lambda>x. \<not> B j x) xs" and ?q = "dropWhile (\<lambda>x. \<not> B j x) xs"
  have s: "sorted_wrt (\<lambda>a b. \<not> B b a) (?p @ ?q)" using assms(3) by simp
  have p: "\<forall>x\<in>set ?p. \<not> B j x" by (auto dest: set_takeWhileD)
  have "\<not> B y j" if "y \<in> set ?q" for y
  proof (cases ?q)
    case (Cons h t)
    then have h: "B j h" using hd_dropWhile [of "\<lambda>x. \<not> B j x" xs] by simp
    have "\<not> B y h" using s that assms(2) unfolding Cons by (auto simp: sorted_wrt_append irreflp_def)
    then show ?thesis using transpD [OF assms(1) _ h] by blast
  next
    case Nil
    then show ?thesis using that by (simp only: list.set empty_iff)
  qed
  then have q: "\<forall>y\<in>set ?q. \<not> B y j" by blast
  have a: "sorted_wrt (\<lambda>a b. \<not> B b a) ?p" "sorted_wrt (\<lambda>a b. \<not> B b a) ?q" "\<forall>x\<in>set ?p. \<forall>y\<in>set ?q. \<not> B y x"
    using s unfolding sorted_wrt_append by blast+
  show ?thesis unfolding sorted_wrt_append sorted_wrt.simps list.set using a p q by blast
qed

text \<open>
  \<open>job\<close> goes in front of \<open>jp\<close>: it is of a queue with a lower priority, or equal and of a lower
  job priority, or equal and submitted later, or at the same time with a higher id.
\<close>

definition behind :: "sys \<Rightarrow> pointer \<Rightarrow> pointer \<Rightarrow> bool" where
  "behind s job jp \<longleftrightarrow>
     prio s job < prio s jp
     \<or> prio s job = prio s jp
       \<and> (jd_jobPriority (jb s job) < jd_jobPriority (jb s jp)
          \<or> jd_jobPriority (jb s job) = jd_jobPriority (jb s jp)
            \<and> (jd_submitTime (jb s job) > jd_submitTime (jb s jp)
               \<or> jd_submitTime (jb s job) = jd_submitTime (jb s jp) \<and> jd_jobId (jb s job) > jd_jobId (jb s jp)))"

lemma behind_order: "transp (behind s)" "irreflp (behind s)"
  by (rule transpI, auto simp: behind_def) (simp add: irreflp_def behind_def)

text \<open>Where plain jobs are concerned the loop of \<open>inPendJobList\<close> stops at the first such entry.\<close>

definition plain :: "sys \<Rightarrow> pointer \<Rightarrow> bool" where
  "plain s job \<longleftrightarrow> \<not> s_arraySchedOrder s \<and> \<not> s_qahead s (j_queue (jb s job)) \<and> jd_jobId (jb s job) \<noteq> -1"

lemma pend_scan_stop:
  assumes "plain s job" "\<forall>x\<in>set xs. jd_jobId (jb s x) \<noteq> -1" "sorted_wrt (\<lambda>a b. \<not> behind s b a) xs"
  shows "fst (pend_scan s job (jd_submitTime (jb s job)) xs lastJob) = dropWhile (\<lambda>x. \<not> behind s job x) xs"
  using assms(2,3)
proof (induction xs arbitrary: lastJob)
  case (Cons jp rest)
  let ?t = "jd_submitTime (jb s job)"
  have IH: "fst (pend_scan s job ?t rest l) = dropWhile (\<lambda>x. \<not> behind s job x) rest" for l using Cons by simp
  consider (lt) "prio s job < prio s jp" | (gt) "prio s job > prio s jp" | (eq) "prio s job = prio s jp" by linarith
  then show ?case
  proof cases
    case eq
    have nxt: "dropWhile (\<lambda>x. \<not> behind s job x) rest = rest" if "rest \<noteq> []" "\<not> jobsOnSameSegment s job (hd rest)"
    proof -
      have "\<not> behind s (hd rest) jp" using Cons.prems(2) that(1) by (cases rest) auto
      then have "behind s job (hd rest)" using that(2) eq by (auto simp: behind_def segment_priority)
      then show ?thesis using that(1) by (cases rest) auto
    qed
    have st: "behind s job jp \<longleftrightarrow> jd_jobPriority (jb s job) < jd_jobPriority (jb s jp)
        \<or> jd_jobPriority (jb s job) = jd_jobPriority (jb s jp) \<and> older s job ?t jp"
      using assms(1) Cons.prems(1) eq by (auto simp: behind_def older_def plain_def)
    have "jobsOnSameSegment s job jp" "\<not> s_qahead s (j_queue (jb s job))" using eq assms(1) by (simp_all add: segment_priority plain_def)
    then have "pend_scan s job ?t (jp # rest) lastJob =
        (if behind s job jp then (jp # rest, lastJob)
         else if rest \<noteq> [] \<and> \<not> jobsOnSameSegment s job (hd rest) then (rest, lastJob)
         else pend_scan s job ?t rest lastJob)"
      unfolding st using eq by simp
    then show ?thesis using IH [of lastJob] nxt by (cases "behind s job jp"; cases "rest \<noteq> [] \<and> \<not> jobsOnSameSegment s job (hd rest)") simp_all
  next
    case lt
    then have "behind s job jp" by (simp add: behind_def)
    then show ?thesis using lt by simp
  next
    case gt
    then have "\<not> behind s job jp" by (simp add: behind_def)
    then show ?thesis using gt IH [of lastJob] by simp
  qed
qed simp

lemma pend_place_behind:
  assumes "plain s job" "\<forall>x\<in>set xs. jd_jobId (jb s x) \<noteq> -1" "sorted_wrt (\<lambda>a b. \<not> behind s b a) xs"
  shows "pend_place s job (jd_submitTime (jb s job)) xs = takeWhile (\<lambda>x. \<not> behind s job x) xs @ job # dropWhile (\<lambda>x. \<not> behind s job x) xs"
proof -
  let ?P = "\<lambda>x. \<not> behind s job x"
  have "length xs - length (dropWhile ?P xs) = length (takeWhile ?P xs)"
    using length_append [of "takeWhile ?P xs" "dropWhile ?P xs"] by simp
  then have "take (length xs - length (dropWhile ?P xs)) xs = takeWhile ?P xs" by (simp only: takeWhile_eq_take [symmetric])
  then show ?thesis
    using pend_scan_stop [OF assms, of None] pend_scan_last [of s job "jd_submitTime (jb s job)" xs None]
    by (simp add: pend_place_def case_prod_unfold Let_def)
qed

text \<open>The order of the started jobs; a job that starts has its start time set.\<close>

definition sbehind :: "sys \<Rightarrow> pointer \<Rightarrow> pointer \<Rightarrow> bool" where
  "sbehind s job jp \<longleftrightarrow>
     prio s job < prio s jp
     \<or> prio s job = prio s jp
       \<and> (jd_startTime (jb s job) > jd_startTime (jb s jp)
          \<or> jd_startTime (jb s job) = jd_startTime (jb s jp) \<and> jd_jobId (jb s job) > jd_jobId (jb s jp))"

lemma sbehind_order: "transp (sbehind s)" "irreflp (sbehind s)"
  by (rule transpI, auto simp: sbehind_def) (simp add: irreflp_def sbehind_def)

lemma start_place_sbehind:
  "jd_startTime (jb s job) \<noteq> 0 \<Longrightarrow>
     start_place s job xs = takeWhile (\<lambda>x. \<not> sbehind s job x) xs @ job # dropWhile (\<lambda>x. \<not> sbehind s job x) xs"
proof -
  assume "jd_startTime (jb s job) \<noteq> 0"
  then have "start_stop s job = sbehind s job" by (auto simp: fun_eq_iff start_stop_def sbehind_def)
  then show ?thesis by (simp add: start_place_def)
qed

lemma start_list_in_order:
  assumes "sorted_wrt (\<lambda>a b. \<not> sbehind s b a) (s_lists s SJL)" "jd_startTime (jb s job) \<noteq> 0"
  shows "sorted_wrt (\<lambda>a b. \<not> sbehind (inStartJobList job s) b a) (s_lists (inStartJobList job s) SJL)"
proof -
  have "sbehind (put_list l xs s) = sbehind s" for l xs by (auto simp: fun_eq_iff sbehind_def prio_def put_list_def jb_def)
  then show ?thesis
    using sorted_insert_before [OF sbehind_order assms(1), of job] start_place_sbehind [OF assms(2)] by (simp add: inStartJobList_def)
qed

section \<open>The lists by priority\<close>

definition ranked :: "sys \<Rightarrow> bool" where
  "ranked s \<longleftrightarrow> (\<forall>l. l \<noteq> FJL \<longrightarrow> sorted (map (prio s) (s_lists s l)))"

lemma pend_scan_prio:
  assumes "sorted (map (prio s) xs)"
  shows "\<exists>pre. xs = pre @ fst (pend_scan s job t xs lastJob) \<and> (\<forall>x\<in>set pre. prio s x \<le> prio s job)
    \<and> (\<forall>x\<in>set (fst (pend_scan s job t xs lastJob)). prio s job \<le> prio s x)"
  using assms
proof (induction xs arbitrary: lastJob)
  case (Cons jp rest)
  define good where "good ys zs \<longleftrightarrow> (\<exists>pre. ys = pre @ zs \<and> (\<forall>x\<in>set pre. prio s x \<le> prio s job) \<and> (\<forall>x\<in>set zs. prio s job \<le> prio s x))" for ys zs
  have IH: "good rest (fst (pend_scan s job t rest l))" for l using Cons by (simp add: good_def)
  have cont: "good (jp # rest) zs" if g: "good rest zs" and le: "prio s jp \<le> prio s job" for zs
  proof -
    obtain pre where "rest = pre @ zs" "\<forall>x\<in>set pre. prio s x \<le> prio s job" "\<forall>x\<in>set zs. prio s job \<le> prio s x"
      using g unfolding good_def by blast
    then show ?thesis unfolding good_def using le by (intro exI [of _ "jp # pre"]) simp
  qed
  have stop: "good xs xs" if "sorted (map (prio s) xs)" "xs = [] \<or> prio s job \<le> prio s (hd xs)" for xs
    unfolding good_def by (rule exI [of _ "[]"]) (use that in \<open>cases xs; fastforce\<close>)
  have rest: "sorted (map (prio s) rest)" using Cons.prems by simp
  have nxt: "good rest rest" if "rest \<noteq> []" "prio s job = prio s jp"
    by (rule stop [OF rest]) (use Cons.prems that in \<open>cases rest; auto\<close>)
  have "good (jp # rest) (fst (pend_scan s job t (jp # rest) lastJob))"
  proof (cases "prio s job < prio s jp")
    case True
    then show ?thesis using stop [OF Cons.prems] by simp
  next
    case False
    then have le: "prio s jp \<le> prio s job" by simp
    note c = cont [OF IH le]
    show ?thesis
    proof (cases "prio s job = prio s jp")
      case eq: True
      have "jobsOnSameSegment s job jp" using eq by (simp add: segment_priority)
      moreover have "good (jp # rest) (jp # rest)" by (rule stop [OF Cons.prems]) (simp add: eq)
      moreover have "good (jp # rest) rest" if "rest \<noteq> []" by (rule cont [OF nxt [OF that eq] le])
      ultimately show ?thesis using c eq by simp
    qed (use False c in simp)
  qed
  then show ?case unfolding good_def .
qed simp

lemma sorted_insert_between:
  assumes "sorted (map f (p @ q))" "\<forall>x\<in>set p. f x \<le> f j" "\<forall>x\<in>set q. f j \<le> f x"
  shows "sorted (map f (p @ j # q))"
  using assms by (auto simp: sorted_append)

lemma pend_place_ranked:
  assumes "sorted (map (prio s) xs)"
  shows "sorted (map (prio s) (pend_place s job t xs))"
proof -
  define rr where "rr = fst (pend_scan s job t xs None)"
  obtain pre where p: "xs = pre @ rr" "\<forall>x\<in>set pre. prio s x \<le> prio s job" "\<forall>x\<in>set rr. prio s job \<le> prio s x"
    using pend_scan_prio [OF assms, of job t None] unfolding rr_def by blast
  have "snd (pend_scan s job t xs None) = None" by (rule pend_scan_last)
  then have "pend_place s job t xs = take (length xs - length rr) xs @ job # rr"
    by (simp add: pend_place_def case_prod_unfold rr_def Let_def)
  then have "pend_place s job t xs = pre @ job # rr" unfolding p(1) by simp
  moreover have "sorted (map (prio s) (pre @ rr))" using assms unfolding p(1) .
  ultimately show ?thesis using sorted_insert_between p(2,3) by metis
qed

text \<open>The building blocks of the operations keep the lists ranked.\<close>

named_theorems ranked_rules

lemma ranked_same: "s_lists s' = s_lists s \<Longrightarrow> prio s' = prio s \<Longrightarrow> ranked s' = ranked s"
  by (simp add: ranked_def)

lemma ranked_upd [ranked_rules]: "(\<And>j. j_queue (f j) = j_queue j) \<Longrightarrow> ranked (upd_job r f s) = ranked s"
  by (rule ranked_same) (auto simp: fun_eq_iff prio_def upd_job_def jb_def)

lemma ranked_upd_at: "j_queue (f (jb s r)) = j_queue (jb s r) \<Longrightarrow> ranked (upd_job r f s) = ranked s"
  by (rule ranked_same) (auto simp: fun_eq_iff prio_def upd_job_def jb_def)

lemma ranked_frame [ranked_rules]:
  "ranked (counters f s) = ranked s" "ranked (updJgrpCountByJStatus r a b s) = ranked s" "ranked (in_finished r s) = ranked s"
  "ranked (s\<lparr>s_statusChanged := c\<rparr>) = ranked s" "ranked (s\<lparr>s_numRemoveJobs := n\<rparr>) = ranked s"
  "ranked (s\<lparr>s_eventPending := c\<rparr>) = ranked s" "ranked (s\<lparr>s_mbd := m\<rparr>) = ranked s"
  "ranked (s\<lparr>s_numDispJobs := d\<rparr>) = ranked s"
  by (auto simp: ranked_def prio_def [abs_def] jb_def counters_def updJgrpCountByJStatus_def in_finished_def)

lemma ranked_off [ranked_rules]: "ranked s \<Longrightarrow> ranked (offJobList r l s)"
  by (simp add: ranked_def offJobList_def prio_def [abs_def] jb_def sorted_map_remove1)

lemma ranked_pend [ranked_rules]:
  assumes "ranked s" "l \<noteq> FJL"
  shows "ranked (inPendJobList r l t s)"
proof -
  let ?s = "upd_job r (\<lambda>j. j\<lparr>jd_sigDel := jd_sigDel j AND NOT DEL_ACTION_REQUEUE\<rparr>) s"
  have s: "ranked ?s" using assms(1) by (simp add: ranked_rules)
  then have "ranked (put_list l (pend_place ?s r u (s_lists ?s l)) ?s)" for u
    using assms(2) pend_place_ranked [of ?s "s_lists ?s l" r u] by (auto simp: ranked_def put_list_def prio_def [abs_def] jb_def)
  then show ?thesis unfolding inPendJobList_def Let_def .
qed

lemma ranked_start [ranked_rules]:
  assumes "ranked s"
  shows "ranked (inStartJobList r s)"
proof -
  let ?xs = "s_lists s SJL" and ?P = "\<lambda>jp. \<not> start_stop s r jp"
  have s: "sorted (map (prio s) (takeWhile ?P ?xs @ dropWhile ?P ?xs))" using assms by (simp add: ranked_def)
  have a: "\<forall>x\<in>set (takeWhile ?P ?xs). prio s x \<le> prio s r"
    by (auto simp: start_stop_def dest: set_takeWhileD)
  have "prio s r \<le> prio s x" if "x \<in> set (dropWhile ?P ?xs)" for x
  proof (cases "dropWhile ?P ?xs")
    case (Cons h t)
    then have "prio s r \<le> prio s h" using hd_dropWhile [of ?P ?xs] by (auto simp: start_stop_def)
    moreover have "prio s h \<le> prio s x" using s that unfolding Cons by (auto simp: sorted_append)
    ultimately show ?thesis by simp
  next
    case Nil
    then show ?thesis using that by (simp only: list.set empty_iff)
  qed
  then have "sorted (map (prio s) (start_place s r ?xs))" unfolding start_place_def by (intro sorted_insert_between [OF s a] ballI)
  then show ?thesis using assms by (auto simp: ranked_def inStartJobList_def put_list_def prio_def [abs_def] jb_def)
qed

lemma ranked_unlisted:
  assumes "ranked s" "\<And>l. r \<notin> set (s_lists s l)"
  shows "ranked (upd_job r f s)"
proof -
  have "map (prio (upd_job r f s)) (s_lists s l) = map (prio s) (s_lists s l)" for l
    using assms(2) by (intro map_cong) (auto simp: prio_def upd_job_def jb_def)
  note e = this
  show ?thesis using assms(1) unfolding ranked_def upd_job_fields e .
qed

lemma off_unlisted:
  assumes "distinct (all_refs s)"
  shows "r \<notin> set (s_lists (offJobList r l s) k)"
proof -
  have "distinct (s_lists s k)" using assms by (cases k) (simp_all add: all_refs_def)
  then show ?thesis by (cases k) (auto simp: offJobList_def)
qed

text \<open>The operations.\<close>

lemma ranked_reserve [ranked_rules]:
  "ranked s \<Longrightarrow> ranked (freeReserveSlots r s)" "ranked s \<Longrightarrow> ranked (resetReserve r n s)" "ranked s \<Longrightarrow> ranked (freeReservePreemptResources r s)"
  "ranked s \<Longrightarrow> ranked (updateStopJobPreemptResources r s)" "ranked s \<Longrightarrow> ranked (accumRunTime r n t s)" "ranked s \<Longrightarrow> ranked (freeExecParams r s)"
  by (simp_all add: freeReserveSlots_def deallocHosts_def clear_reserve_def resetReserve_def Let_def freeReservePreemptResources_def
      updateStopJobPreemptResources_def accumRunTime_def accum_job_def freeExecParams_def free_exec_def cleanCandHosts_def ranked_rules)

lemma ranked_before [ranked_rules]: "ranked s \<Longrightarrow> ranked (before_change r n t s)"
  unfolding before_change_def Let_def by (auto simp: ranked_rules)

lemma ranked_branches [ranked_rules]:
  "ranked s \<Longrightarrow> ranked (to_started r s)" "ranked s \<Longrightarrow> ranked (to_finished r n s)" "ranked s \<Longrightarrow> ranked (same_list r n s)"
  "ranked s \<Longrightarrow> ranked (replay_wait r n s)" "ranked s \<Longrightarrow> ranked (back_to_pend r t s)"
  by (simp_all add: to_started_def to_finished_def handleFinishJob_def same_list_def replay_wait_def back_to_pend_def Let_def
      finish_flags_def exit_reason_def jobRequeueTimeUpdate_def setJobPendReason_def ranked_rules)

lemma ranked_change [ranked_rules]: "ranked s \<Longrightarrow> ranked (jStatusChange r n t s)"
  by (simp add: jStatusChange_def Let_def set_state_def ranked_rules)

lemma ranked_requeue [ranked_rules]: "ranked s \<Longrightarrow> ranked (handleRequeueJob r t s)"
  by (simp add: handleRequeueJob_def Let_def requeue_job_def jobRequeueTimeUpdate_def setJobPendReason_def ranked_rules)

lemma ranked_remove [ranked_rules]: "ranked s \<Longrightarrow> ranked (removeJob r s)" "ranked s \<Longrightarrow> ranked (reserve_slots r s)"
  by (simp_all add: removeJob_def reserve_slots_def Let_def ranked_rules)

lemma ranked_new:
  assumes "ranked s" "r \<notin> set (all_refs s)"
  shows "ranked (handleNewJob r j gs b s)"
proof -
  have "ranked (upd_job r (\<lambda>_. j) s)" by (rule ranked_unlisted [OF assms(1)]) (use assms(2) in_all_refs in blast)
  then show ?thesis by (simp add: handleNewJob_def putOntoTree_def replay_priority_def modifyJobPriority_def Let_def ranked_rules)
qed

lemma ranked_queue_end:
  assumes "ranked s" "distinct (all_refs s)"
  shows "ranked (jobInQueueEnd r q s)"
proof -
  have "ranked (upd_job r (\<lambda>j. j\<lparr>j_queue := q\<rparr>) (offJobList r l s))" for l
    by (rule ranked_unlisted) (use assms off_unlisted in \<open>auto simp: ranked_rules\<close>)
  then show ?thesis using assms(1) by (simp add: jobInQueueEnd_def Let_def ranked_rules)
qed

lemma queue_end_queue: "\<not> IS_FINISH (j_status (jb s r)) \<Longrightarrow> j_queue (jb (jobInQueueEnd r q s) r) = q"
  by (simp add: jobInQueueEnd_def Let_def inPendJobList_def)

lemma switchable_unfinished: "switchable st \<Longrightarrow> \<not> IS_FINISH st"
proof -
  assume "switchable st"
  note b = switchable_states [OF this]
  then have "base st \<in> states" by (auto simp: states_def)
  then show ?thesis using b unfolding is_fits(3) [OF \<open>base st \<in> states\<close>] by (auto simp: fits_def job_stat_defs)
qed

lemma ranked_switch:
  assumes "ranked s" "sys_inv s" "r \<in> set (all_refs s)" "switchable (j_status (jb s r))"
  shows "ranked (switch_commit r q s)"
proof -
  have u: "ranked (unreserved r s)" using assms(1) by (simp add: unreserved_def Let_def ranked_rules)
  note i = unreserved_inv [OF assms(2,3)]
  define s3 where "s3 = jobInQueueEnd r q (unreserved r s)"
  have r3: "ranked s3" unfolding s3_def by (rule ranked_queue_end [OF u]) (use i(1) in \<open>simp add: sys_inv_def on_lists_def\<close>)
  have "switchable (j_status (jb (unreserved r s) r))" using assms(4) i(3) by (simp add: switchable_def)
  then have q3: "j_queue (jb s3 r) = q" unfolding s3_def by (intro queue_end_queue switchable_unfinished)
  obtain j m where jm: "updSwitchJob (core (jb s3 r)) (j_queue (jb s r)) q (j_numReq (jb s3 r)) (s_mbd s3) = (j, m)" by (cases rule: prod.exhaust)
  then have "j_queue j = q" using q3 by (auto simp: updSwitchJob_def Let_def split: if_splits)
  then have r4: "ranked (upd_job r (\<lambda>jd. jd\<lparr>j_queue := j_queue j, j_status := j_status j\<rparr>) (s3\<lparr>s_mbd := m\<rparr>))"
    using r3 q3 by (simp add: ranked_upd_at ranked_rules)
  show ?thesis
    unfolding switch_commit_def Let_def s3_def [symmetric] jm prod.case
    using r4 by (simp add: setJobPendReason_def cleanCandHosts_def ranked_rules)
qed

lemma daemon_step_ranked:
  assumes "daemon_step s s'" "sys_inv s" "ranked s"
  shows "ranked s'"
  using assms by (cases rule: daemon_step.cases) (simp_all add: ranked_new ranked_switch ranked_rules)

lemma running_ranked: "running s \<Longrightarrow> ranked s"
proof -
  assume "running s"
  then obtain s0 where f: "fresh_sys s0" and d: "daemon_step\<^sup>*\<^sup>* s0 s" unfolding running_def by blast
  from d have "sys_inv s \<and> ranked s"
  proof (induction rule: rtranclp_induct)
    case base
    then show ?case using fresh_inv [OF f] f by (simp add: ranked_def fresh_sys_def)
  qed (use daemon_step_inv daemon_step_ranked in blast)
  then show ?thesis by blast
qed

section \<open>Properties\<close>

text \<open>
  C5: In every state a run of the daemon reaches, the started, migrating and pending lists are
  ordered by the priority of the jobs' queues, lowest first, whatever submissions,
  requeues, migrations and switches of queues led there.
\<close>

theorem lists_by_priority:
  assumes "running s" "l \<noteq> FJL"
  shows "sorted (map (\<lambda>r. s_qprio s (j_queue (jb s r))) (s_lists s l))"
  using running_ranked [OF assms(1)] assms(2) by (simp add: ranked_def prio_def [abs_def])

theorem lists_by_priority_witness:
  "running eg_running \<and> sorted (map (\<lambda>r. s_qprio eg_running (j_queue (jb eg_running r))) (s_lists eg_running SJL))"
  using lists_by_priority [OF eg_running(1), of SJL] eg_running(1) by simp

text \<open>
  C15: A job put into the pending list takes the place that keeps the list in the order of
  service, from the back: by queue priority, then by job priority, then by submission time, the
  oldest first, then by id.  This is the order where no queue puts interactive jobs ahead,
  arrays are scheduled like other jobs and every job has an id.
\<close>

theorem pend_list_in_order:
  assumes "sorted_wrt (\<lambda>a b. \<not> behind s b a) (s_lists s PJL)" "plain s r" "\<forall>x\<in>set (s_lists s PJL). jd_jobId (jb s x) \<noteq> -1"
  shows "sorted_wrt (\<lambda>a b. \<not> behind (inPendJobList r PJL 0 s) b a) (s_lists (inPendJobList r PJL 0 s) PJL)"
proof -
  define s1 where "s1 = upd_job r (\<lambda>j. j\<lparr>jd_sigDel := jd_sigDel j AND NOT DEL_ACTION_REQUEUE\<rparr>) s"
  have b: "behind s1 = behind s" "behind (put_list l xs s1) = behind s" for l xs
    by (auto simp: fun_eq_iff behind_def prio_def upd_job_def put_list_def jb_def s1_def)
  have j: "jd_submitTime (jb s1 r) = jd_submitTime (jb s r)" "plain s1 r = plain s r" "jd_jobId (jb s1 x) = jd_jobId (jb s x)" "s_lists s1 = s_lists s" for x
    by (simp_all add: s1_def plain_def upd_job_def jb_def)
  have "inPendJobList r PJL 0 s = put_list PJL (pend_place s1 r (jd_submitTime (jb s1 r)) (s_lists s1 PJL)) s1"
    by (simp add: inPendJobList_def Let_def j(1)) (simp add: s1_def)
  moreover have "pend_place s1 r (jd_submitTime (jb s1 r)) (s_lists s1 PJL) =
      takeWhile (\<lambda>x. \<not> behind s1 r x) (s_lists s1 PJL) @ r # dropWhile (\<lambda>x. \<not> behind s1 r x) (s_lists s1 PJL)"
    by (rule pend_place_behind) (use assms in \<open>simp_all add: b j\<close>)
  ultimately show ?thesis using sorted_insert_before [OF behind_order assms(1), of r] by (simp add: b j(4))
qed

definition eg_two :: sys where
  "eg_two = eg_sys\<lparr>s_lists := (\<lambda>l. if l = PJL then [7] else []),
     s_jobs := (\<lambda>r. if r = 9 then eg_jData\<lparr>jd_submitTime := 2000, jd_jobId := 102\<rparr> else eg_jData)\<rparr>"

theorem pend_list_in_order_witness:
  "sorted_wrt (\<lambda>a b. \<not> behind (inPendJobList 9 PJL 0 eg_two) b a) (s_lists (inPendJobList 9 PJL 0 eg_two) PJL)
   \<and> s_lists (inPendJobList 9 PJL 0 eg_two) PJL = [9, 7]"
proof
  show "sorted_wrt (\<lambda>a b. \<not> behind (inPendJobList 9 PJL 0 eg_two) b a) (s_lists (inPendJobList 9 PJL 0 eg_two) PJL)"
    by (rule pend_list_in_order) (simp_all add: eg_two_def eg_sys_def plain_def jb_def eg_jData_def)
  show "s_lists (inPendJobList 9 PJL 0 eg_two) PJL = [9, 7]"
    by (simp add: inPendJobList_def Let_def pend_place_def eg_two_def eg_sys_def jb_def upd_job_def eg_jData_def put_list_def prio_def older_def
        jobsOnSameSegment_def)
qed

end
