(* ===== verification/Depend.thy ===== *)
theory Depend
  imports JobLists ListSet Words
begin

text \<open>
  The dependency conditions of jobs (lsbatch/daemons/mbd.dep.c): the scanner, the parser with
  its two stacks, the search for the jobs a condition names, and the evaluation.  A condition
  is an expression such as \<open>done(12) && !(exit(13,>2) || numrun(14,<5))\<close>.  Jobs are records at
  addresses.  The time windows of lsf/intlib/window.c are a parameter, and allocation
  is taken to succeed.  The parser reads an element beyond the end of its table of precedences;
  its value is a parameter as well.  The names \<open>DPT_LEFT_\<close> and \<open>DPT_RIGHT_\<close> lose their last character.

  A parse or an evaluation can end, fail with a reply code, fault, or use up the fuel of its loops.
\<close>

section \<open>Nodes\<close>

definition JOB_STAT_PRE_EXEC :: jstatus where "JOB_STAT_PRE_EXEC = 0x04000000"
definition JOB_STAT_VOID :: jstatus where "JOB_STAT_VOID = 0x00100000"

definition JGRP_COUNT_PEND :: nat where "JGRP_COUNT_PEND = 1"
definition JGRP_COUNT_NPSUSP :: nat where "JGRP_COUNT_NPSUSP = 2"
definition JGRP_COUNT_NRUN :: nat where "JGRP_COUNT_NRUN = 3"
definition JGRP_COUNT_NEXIT :: nat where "JGRP_COUNT_NEXIT = 6"
definition JGRP_COUNT_NDONE :: nat where "JGRP_COUNT_NDONE = 7"

datatype dptType =
    DPT_AND | DPT_OR | DPT_NOT | DPT_LEFT | DPT_RIGHT | DPT_DONE | DPT_EXIT | DPT_STARTED | DPT_NAME | DPT_ENDED
  | DPT_NUMPEND | DPT_NUMHOLD | DPT_NUMRUN | DPT_NUMEXIT | DPT_NUMDONE | DPT_NUMSTART | DPT_NUMENDED | DPT_COMMA
  | DPT_GT | DPT_GE | DPT_LT | DPT_LE | DPT_EQ | DPT_NE | DPT_POST_DONE | DPT_POST_ERR | DPT_TRUE | DPT_WINDOW

datatype depErr = LSBE_DEPEND_SYNTAX | LSBE_NO_JOB | LSBE_DEP_ARRAY_SIZE | LSBE_ARRAY_NULL

datatype 'a outcome = Done 'a | Fail depErr | Fault | NoFuel

fun obind :: "'a outcome \<Rightarrow> ('a \<Rightarrow> 'b outcome) \<Rightarrow> 'b outcome" where
  "obind (Done x) f = f x"
| "obind (Fail e) f = Fail e"
| "obind Fault f = Fault"
| "obind NoFuel f = NoFuel"

definition DP_FALSE :: int where "DP_FALSE = 0"
definition DP_TRUE :: int where "DP_TRUE = 1"
definition DP_INVALID :: int where "DP_INVALID = -1"
definition DP_REJECT :: int where "DP_REJECT = -2"

record jobIdx =
  idxList :: "idx list"
  depJobList :: "long list"

record jobPart =
  opType :: dptType
  exitCode :: int
  one_to_one :: bool
  jobRec :: pointer
  dptJobIdx :: "jobIdx option"

record jgrpPart =
  jg_opType :: dptType
  jg_num :: int
  jgArrayBase :: pointer

text \<open>
  A node holds the value of its last evaluation.  \<open>OprNode\<close> has the two operands, the last
  one read first; its type is \<open>DPT_AND\<close> or \<open>DPT_OR\<close>, or \<open>DPT_LEFT\<close> for a parenthesis that was never closed.
\<close>

datatype 'w dptNode =
    OprNode dptType int "'w dptNode" "'w dptNode"
  | NotNode int "'w dptNode"
  | JobNode dptType int jobPart
  | WindowNode int 'w
  | JgrpNode dptType int jgrpPart

section \<open>The scanner\<close>

definition IS_QUOTE :: "char \<Rightarrow> bool" where
  "IS_QUOTE c \<longleftrightarrow> c = CHR 0x22 \<or> c = CHR 0x27"

definition IS_VALIDCHAR :: "char \<Rightarrow> bool" where
  "IS_VALIDCHAR c \<longleftrightarrow> isalnum c \<or> c \<in> set ''*_.:%,@/[]-''"

definition IS_DELIM :: "char \<Rightarrow> bool" where
  "IS_DELIM c \<longleftrightarrow> c = CHR '','' \<or> c = CHR '' ''"

definition tokenTable :: "(string \<times> dptType \<times> bool) list" where
  "tokenTable =
    [(''('', DPT_LEFT, False), ('')'', DPT_RIGHT, False), (''&&'', DPT_AND, False), (''||'', DPT_OR, False),
     (''exit'', DPT_EXIT, True), (''started'', DPT_STARTED, True), (''ended'', DPT_ENDED, True), (''time'', DPT_WINDOW, True),
     (''done'', DPT_DONE, True), (''post_done'', DPT_POST_DONE, True), (''post_err'', DPT_POST_ERR, True),
     (''numpend'', DPT_NUMPEND, True), (''numhold'', DPT_NUMHOLD, True), (''numrun'', DPT_NUMRUN, True),
     (''numexit'', DPT_NUMEXIT, True), (''numdone'', DPT_NUMDONE, True), (''numstart'', DPT_NUMSTART, True),
     (''numended'', DPT_NUMENDED, True), ('','', DPT_COMMA, False), (''>='', DPT_GE, False), (''<='', DPT_LE, False),
     (''=='', DPT_EQ, False), (''!='', DPT_NE, False), (''<'', DPT_LT, False), (''>'', DPT_GT, False), (''!'', DPT_NOT, False)]"

text \<open>
  A name, of which \<open>pre\<close> has been read as a keyword: up to the closing quote, or as far as there are valid characters.
  The token is kept in a buffer of fixed size.
\<close>

definition scan_name :: "string \<Rightarrow> string \<Rightarrow> string \<times> dptType \<times> string" where
  "scan_name pre s =
     (let room = 4 * MAXLINELEN - 1 - length pre in
      if s \<noteq> [] \<and> IS_QUOTE (hd s) then
        (let q = hd s; t = take (room - 1) (tl s); b = takeWhile (\<lambda>c. c \<noteq> q) t in
         if length b < length t then (pre @ q # b @ [q], DPT_NAME, drop (length b + 1) (tl s))
         else (pre @ q # b, DPT_NAME, drop (length b) (tl s)))
      else
        (let t = takeWhile (\<lambda>c. IS_VALIDCHAR c \<and> \<not> IS_DELIM c) (take room s) in
         (pre @ t, DPT_NAME, drop (length t) s)))"

definition getToken :: "string \<Rightarrow> (string \<times> dptType \<times> string) option" where
  "getToken sp =
     (let s = dropWhile isspace sp in
      if s = [] then None
      else (case find (\<lambda>(name, type, check). take (length name) s = name) tokenTable of
              Some (name, type, check) \<Rightarrow>
                (let rest = drop (length name) s in
                 if check \<and> rest \<noteq> [] \<and> (isalnum (hd rest) \<or> hd rest = CHR ''*'')
                 then Some (scan_name name rest) else Some (name, type, rest))
            | None \<Rightarrow> Some (scan_name [] s)))"

section \<open>The jobs of a condition\<close>

text \<open>
  What the search and the evaluation read of a job: its id, whether it is the head of an array
  and then the job after it, its user and name, status, flags, times and exit status.
  \<open>dj_jgrp\<close> is the data of its node if that is the node of an array, else 0.
\<close>

record depJob =
  dj_jobId :: "64 word"
  dj_array :: bool
  dj_next :: pointer
  dj_user :: string
  dj_name :: string
  dj_status :: jstatus
  dj_flags :: "32 word"
  dj_submitTime :: int
  dj_startTime :: int
  dj_endTime :: int
  dj_exitStatus :: int
  dj_jgrp :: pointer

record jgArray =
  ja_void :: bool
  ja_counts :: "nat \<Rightarrow> int"

text \<open>
  What the daemon looks up: the jobs, the table of ids (0 for an id that is not found), the data of the array nodes, the
  jobs at the children of the root of the job tree, the configuration, and \<open>arrayIdxList\<close>, the index list
  of the array that is being submitted.
\<close>

record depEnv =
  depJobs :: "pointer \<Rightarrow> depJob"
  getJobData :: "64 word \<Rightarrow> pointer"
  jgArrays :: "pointer \<Rightarrow> jgArray"
  rootJobs :: "pointer list"
  jobDepLastSub :: bool
  inReplay :: bool
  maxArraySize :: int
  arrayIdxList :: "idx list"

definition set_add :: "pointer \<Rightarrow> long list \<Rightarrow> long list" where
  "set_add p l = fst (listSetInsert p l \<lparr>FreeSet = [], avail = 1\<rparr>)"

text \<open>
  The loop over the elements an id names: all of them must exist.  \<open>Some None\<close> stands for
  \<open>notFound\<close>, \<open>None\<close> for a loop that does not end within the fuel.
\<close>

fun add_elements :: "depEnv \<Rightarrow> int \<Rightarrow> int list \<Rightarrow> long list \<Rightarrow> long list option" where
  "add_elements e jobId [] l = Some l"
| "add_elements e jobId (i # is) l =
     (let jpbw = getJobData e (LSB_JOBID jobId i) in
      if jpbw \<noteq> 0 then add_elements e jobId is (set_add jpbw l) else None)"

fun add_idxs :: "nat \<Rightarrow> depEnv \<Rightarrow> int \<Rightarrow> idx list \<Rightarrow> long list \<Rightarrow> long list option option" where
  "add_idxs n e jobId [] l = Some (Some l)"
| "add_idxs n e jobId (i # is) l =
     (case for_values n (idx_start i) (idx_end i) (idx_step i) of
        None \<Rightarrow> None
      | Some js \<Rightarrow> (case add_elements e jobId js l of None \<Rightarrow> Some None | Some l \<Rightarrow> add_idxs n e jobId is l))"

text \<open>The loop over the children of the root: the jobs of the user, or the one submitted last.\<close>

fun user_jobs :: "depEnv \<Rightarrow> string \<Rightarrow> bool \<Rightarrow> pointer list \<Rightarrow> int \<Rightarrow> pointer list \<Rightarrow> pointer list" where
  "user_jobs e user wild [] submitTime found = found"
| "user_jobs e user wild (jpbw # ps) submitTime found =
     (let j = depJobs e jpbw in
      if dj_user j = user then
        (if jobDepLastSub e \<and> \<not> wild then
           (if submitTime < dj_submitTime j then user_jobs e user wild ps (dj_submitTime j) [jpbw]
            else user_jobs e user wild ps submitTime found)
         else user_jobs e user wild ps submitTime (found @ [jpbw]))
      else user_jobs e user wild ps submitTime found)"

text \<open>
  The result of \<open>matchJobs\<close>: the jobs found (\<open>[]\<close> is NULL), the reply code, \<open>*numFoundJob\<close>
  (\<open>None\<close>: not assigned), the index list and the flag for a dependency of each element on one element.
\<close>

record found =
  f_jobs :: "pointer list"
  f_reply :: depErr
  f_num :: "nat option"
  f_idx :: "jobIdx option"
  f_flag :: bool

definition no_jobs :: "depErr \<Rightarrow> bool \<Rightarrow> found" where
  "no_jobs reply flag =
     \<lparr>f_jobs = [], f_reply = (if reply = LSBE_DEPEND_SYNTAX then LSBE_NO_JOB else reply), f_num = Some 0, f_idx = None, f_flag = flag\<rparr>"

definition some_jobs :: "pointer list \<Rightarrow> depErr \<Rightarrow> jobIdx option \<Rightarrow> bool \<Rightarrow> found" where
  "some_jobs js reply idx flag =
     (if js = [] then no_jobs reply flag
      else \<lparr>f_jobs = js, f_reply = reply, f_num = Some (length js), f_idx = idx, f_flag = flag\<rparr>)"

text \<open>The code from \<open>checkIdx\<close>: the array must have the index range of the one submitted.\<close>

definition check_one_to_one :: "nat \<Rightarrow> depEnv \<Rightarrow> pointer list \<Rightarrow> depErr \<Rightarrow> jobIdx option \<Rightarrow> bool \<Rightarrow> found option" where
  "check_one_to_one n e js reply idx one =
     (if \<not> one \<or> js = [] then Some (some_jobs js reply idx one)
      else (let j = depJobs e (hd js);
                depArrayIdx = fst (parseJobArrayIndex (maxArraySize e) (inReplay e) (dj_name j) 0) in
            case (depArrayIdx, arrayIdxList e) of
              (d # _, s # _) \<Rightarrow>
                (if idx_start d \<noteq> idx_start s \<or> idx_end d \<noteq> idx_end s \<or> idx_step d \<noteq> idx_step s
                 then Some (no_jobs LSBE_DEP_ARRAY_SIZE one)
                 else map_option
                        (\<lambda>is. some_jobs js reply
                           (Some \<lparr>idxList = [],
                              depJobList = fold (\<lambda>i l. let p = getJobData e (push_bit 32 (word_of_int i) OR dj_jobId j) in
                                                       if p \<noteq> 0 then set_add p l else l) is []\<rparr>) one)
                        (for_values n (idx_start d) (idx_end d) (idx_step d)))
            | _ \<Rightarrow> Some (no_jobs LSBE_DEP_ARRAY_SIZE one)))"

text \<open>The part of \<open>matchJobs\<close> for an id.\<close>

definition match_id :: "nat \<Rightarrow> depEnv \<Rightarrow> int \<Rightarrow> idx list \<Rightarrow> depErr \<Rightarrow> bool \<Rightarrow> found option" where
  "match_id n e jobId is reply one =
     (let p = getJobData e (word_of_int jobId); j = depJobs e p in
      if p = 0 then Some (no_jobs reply one)
      else if one then
        (if dj_array j then check_one_to_one n e [p] reply (if is = [] then None else Some \<lparr>idxList = is, depJobList = []\<rparr>) one
         else Some (no_jobs reply one))
      else (let is = (if is = [] \<and> dj_array j then fst (parseJobArrayIndex (maxArraySize e) (inReplay e) (dj_name j) 0) else is) in
            if is = [] then Some (some_jobs [p] reply None one)
            else (case add_idxs n e jobId is [] of
                    None \<Rightarrow> None
                  | Some None \<Rightarrow> Some (no_jobs reply one)
                  | Some (Some l) \<Rightarrow> Some (some_jobs [p] reply (Some \<lparr>idxList = is, depJobList = l\<rparr>) one))))"

text \<open>
  \<open>cut_at pat s\<close>: the text before the first occurrence of \<open>pat\<close>, if there is one
  (\<open>strstr\<close> and \<open>strchr\<close>, with a NUL written there).
\<close>

fun cut_at :: "string \<Rightarrow> string \<Rightarrow> string option" where
  "cut_at pat [] = None"
| "cut_at pat (c # cs) = (if take (length pat) (c # cs) = pat then Some [] else map_option ((#) c) (cut_at pat cs))"

text \<open>The name a token stands for: between its quotes, or all of it if it is not an integer.\<close>

definition dep_name :: "string \<Rightarrow> string option" where
  "dep_name jobp =
     (if jobp \<noteq> [] \<and> IS_QUOTE (hd jobp) then Some (takeWhile (\<lambda>c. c \<noteq> hd jobp) (tl jobp))
      else if isint (Some jobp) then None else Some jobp)"

text \<open>
  \<open>matchJobs\<close>.  \<open>flag\<close> is \<open>*flag\<close>, or \<open>None\<close> if the pointer is NULL.
\<close>

definition matchJobs :: "nat \<Rightarrow> depEnv \<Rightarrow> string \<Rightarrow> string \<Rightarrow> depErr \<Rightarrow> bool option \<Rightarrow> found option" where
  "matchJobs n e jobp lsfUserName reply flag =
     (let star = cut_at ''[*]'' jobp;
          jobp = (case star of None \<Rightarrow> jobp | Some s \<Rightarrow> s);
          one = (case flag of None \<Rightarrow> False | Some f \<Rightarrow> f \<or> star \<noteq> None);
          (is, error, lim) = parseJobArrayIndex (maxArraySize e) (inReplay e) jobp 0 in
      if error \<noteq> LSBE_NO_ERROR then Some \<lparr>f_jobs = [], f_reply = reply, f_num = None, f_idx = None, f_flag = one\<rparr>
      else (let jobp = takeWhile (\<lambda>c. c \<noteq> CHR ''['') jobp;
                jobId = (if dep_name jobp = None then atoi jobp else 0);
                wild = (case dep_name jobp of None \<Rightarrow> False | Some nm \<Rightarrow> nm \<noteq> [] \<and> last nm = CHR ''*'') in
            if jobId \<noteq> 0 then match_id n e jobId is reply one
            else (case dep_name jobp of
                    Some (c # cs) \<Rightarrow>
                      check_one_to_one n e (user_jobs e lsfUserName wild (rootJobs e) 0 []) reply
                        (if is = [] then None else Some \<lparr>idxList = is, depJobList = []\<rparr>) one
                  | _ \<Rightarrow> Some (no_jobs reply one))))"


section \<open>The parser\<close>

text \<open>
  Time windows are a parameter: a new one, \<open>addWindow\<close> with one specification, \<open>updateTimeWindow\<close> (also
  after \<open>windEdge\<close> has been set to the current time) and whether the status is \<open>WINDOW_OPEN\<close>.
\<close>

record 'w windows =
  newTimeWindow :: 'w
  addWindow :: "string \<Rightarrow> 'w \<Rightarrow> 'w option"
  set_windEdge :: "'w \<Rightarrow> 'w"
  updateTimeWindow :: "'w \<Rightarrow> 'w"
  window_open :: "'w \<Rightarrow> bool"

text \<open>
  The state of a parse: the types of the nodes on \<open>operatorStack\<close> and the nodes on \<open>operandStack\<close>, tops first, the
  reply code and the variables \<open>numJob\<close> and \<open>opFlag\<close>, which live through the whole parse.
\<close>

record 'w pst =
  ops :: "dptType list"
  operands :: "'w dptNode list"
  replyCode :: depErr
  numJob :: nat
  opFlag :: bool

text \<open>\<open>preceTable[type]\<close>; the table has three elements, \<open>oob\<close> is the byte after them.\<close>

definition prece :: "int \<Rightarrow> dptType \<Rightarrow> int" where
  "prece oob ty = (if ty = DPT_AND then 2 else if ty = DPT_OR then 1 else if ty = DPT_NOT then 3 else oob)"

text \<open>\<open>mergeNode\<close> at its three levels; \<open>None\<close> is the result -1, after which the parse fails.\<close>

fun merge_top :: "dptType list \<Rightarrow> 'w dptNode list \<Rightarrow> (dptType list \<times> 'w dptNode list) option" where
  "merge_top (op # os) (a # xs) =
     (if op = DPT_NOT then Some (os, NotNode DP_FALSE a # xs)
      else (case xs of [] \<Rightarrow> None | b # xs \<Rightarrow> Some (os, OprNode op DP_FALSE a b # xs)))"
| "merge_top _ _ = None"

fun merge_left :: "dptType list \<Rightarrow> 'w dptNode list \<Rightarrow> (dptType list \<times> 'w dptNode list) option" where
  "merge_left [] xs = None"
| "merge_left (op # os) xs =
     (if op = DPT_LEFT then Some (os, xs)
      else (case merge_top (op # os) xs of None \<Rightarrow> None | Some (_, xs) \<Rightarrow> merge_left os xs))"

fun merge_all :: "dptType list \<Rightarrow> 'w dptNode list \<Rightarrow> dptType list \<times> 'w dptNode list" where
  "merge_all [] xs = ([], xs)"
| "merge_all (op # os) xs =
     (case merge_top (op # os) xs of None \<Rightarrow> (op # os, xs) | Some (_, xs) \<Rightarrow> merge_all os xs)"

text \<open>The cases \<open>DPT_AND\<close>, \<open>DPT_OR\<close> and \<open>DPT_NOT\<close>.\<close>

definition push_opr :: "int \<Rightarrow> dptType \<Rightarrow> 'w pst \<Rightarrow> 'w pst outcome" where
  "push_opr oob ty st =
     (case ops st of
        prev # os \<Rightarrow>
          (if prece oob prev > prece oob ty
           then (case merge_top (ops st) (operands st) of
                   None \<Rightarrow> Fail (replyCode st)
                 | Some (os, xs) \<Rightarrow> Done (st\<lparr>ops := ty # os, operands := xs\<rparr>))
           else Done (st\<lparr>ops := ty # ops st\<rparr>))
      | [] \<Rightarrow> Done (st\<lparr>ops := [ty]\<rparr>))"

definition push_operand :: "'w dptNode \<Rightarrow> 'w pst \<Rightarrow> 'w pst" where
  "push_operand x st = st\<lparr>operands := x # operands st\<rparr>"

text \<open>A token of the given type must follow; the rest of the text.\<close>

definition expect :: "dptType \<Rightarrow> depErr \<Rightarrow> string \<Rightarrow> string outcome" where
  "expect ty reply s =
     (case getToken s of
        Some (tok, t, s) \<Rightarrow> (if t = ty then Done s else Fail reply)
      | None \<Rightarrow> Fail reply)"

text \<open>
  The two loops of \<open>DPT_WINDOW\<close>.  The first one only measures the text, so that the second never
  meets another token; \<open>tempType\<close> keeps its value when there is no token left, and it is not \<open>DPT_RIGHT\<close> then.
\<close>

fun window_tokens :: "nat \<Rightarrow> depErr \<Rightarrow> string \<Rightarrow> (string list \<times> string) outcome" where
  "window_tokens 0 reply s = NoFuel"
| "window_tokens (Suc n) reply s =
     (case getToken s of
        None \<Rightarrow> Fail reply
      | Some (tok, ty, s) \<Rightarrow>
          (if ty = DPT_RIGHT then Done ([], s)
           else if ty \<noteq> DPT_NAME then Fail reply
           else obind (window_tokens n reply s) (\<lambda>(ts, s). Done (tok # ts, s))))"

fun add_windows :: "'w windows \<Rightarrow> string list \<Rightarrow> 'w \<Rightarrow> 'w option" where
  "add_windows W [] w = Some w"
| "add_windows W (t # ts) w = (case addWindow W t w of None \<Rightarrow> None | Some w \<Rightarrow> add_windows W ts w)"

definition parse_window :: "nat \<Rightarrow> 'w windows \<Rightarrow> string \<Rightarrow> 'w pst \<Rightarrow> ('w pst \<times> string) outcome" where
  "parse_window n W s st =
     obind (expect DPT_LEFT (replyCode st) s) (\<lambda>s.
     obind (window_tokens n (replyCode st) s) (\<lambda>(ts, s).
     if ts = [] then Fault
     else (case add_windows W ts (newTimeWindow W) of
             None \<Rightarrow> Fail (replyCode st)
           | Some w \<Rightarrow> Done (push_operand (WindowNode DP_FALSE (updateTimeWindow W (set_windEdge W w))) st, s))))"

text \<open>
  \<open>parse_limit\<close>: what follows the name in \<open>exit(...)\<close> and \<open>num...(...)\<close>: an optional comparison
  with a number, and the closing parenthesis.  The result is \<open>None\<close> if there is no comparison.
  A star counts as \<open>INFINIT_INT\<close> where \<open>star\<close> says so (\<open>token\<close> and \<open>tempToken\<close> are one static buffer).
\<close>

definition is_cmp :: "dptType \<Rightarrow> bool" where
  "is_cmp ty \<longleftrightarrow> ty \<in> {DPT_GT, DPT_GE, DPT_LT, DPT_LE, DPT_EQ, DPT_NE}"

definition limit_number :: "bool \<Rightarrow> depErr \<Rightarrow> dptType \<Rightarrow> string \<Rightarrow> string \<Rightarrow> ((dptType \<times> int) option \<times> string) outcome" where
  "limit_number star reply ty tok s =
     (if isint (Some tok) then obind (expect DPT_RIGHT reply s) (\<lambda>s. Done (Some (ty, atoi tok), s))
      else if star \<and> tok = ''*'' then obind (expect DPT_RIGHT reply s) (\<lambda>s. Done (Some (ty, INFINIT_INT), s))
      else Fail reply)"

definition parse_limit :: "bool \<Rightarrow> depErr \<Rightarrow> string \<Rightarrow> ((dptType \<times> int) option \<times> string) outcome" where
  "parse_limit star reply s =
     (case getToken s of
        None \<Rightarrow> Fail reply
      | Some (tok, ty, s) \<Rightarrow>
          (if ty = DPT_RIGHT then Done (None, s)
           else if ty \<noteq> DPT_COMMA then Fail reply
           else (case getToken s of
                   None \<Rightarrow> Fail reply
                 | Some (tok, ty, s) \<Rightarrow>
                     (if is_cmp ty then
                        (case getToken s of
                           None \<Rightarrow> Fail reply
                         | Some (tok, ty', s) \<Rightarrow> (if ty' = DPT_NAME then limit_number star reply ty tok s else Fail reply))
                      else if ty = DPT_NAME \<or> star \<and> tok = ''*'' then limit_number star reply DPT_EQ tok s
                      else Fail reply))))"

text \<open>
  \<open>newNode\<close> for a job and \<open>createMoreNodes\<close>: all jobs found must satisfy the condition.
  \<open>newNode\<close> clears the node, \<open>DPT_AND\<close> is 0; the comparison is that of \<open>exit\<close>.
\<close>

definition job_node :: "dptType \<Rightarrow> (dptType \<times> int) option \<Rightarrow> pointer \<Rightarrow> jobIdx option \<Rightarrow> bool \<Rightarrow> 'w dptNode" where
  "job_node ty lim p idx one =
     (let (t, c) = (case lim of Some l \<Rightarrow> l | None \<Rightarrow> (if ty = DPT_EXIT then DPT_TRUE else DPT_AND, 0)) in
      JobNode ty DP_FALSE \<lparr>opType = t, exitCode = c, one_to_one = one, jobRec = p, dptJobIdx = idx\<rparr>)"

definition createMoreNodes :: "dptType \<Rightarrow> (dptType \<times> int) option \<Rightarrow> pointer list \<Rightarrow> jobIdx option \<Rightarrow> 'w dptNode" where
  "createMoreNodes ty lim ps idx =
     foldl (\<lambda>a p. OprNode DPT_AND DP_FALSE (job_node ty lim p idx False) a) (job_node ty lim (hd ps) idx False) (tl ps)"

text \<open>The node or nodes for what was found, and the new value of \<open>opFlag\<close>.\<close>

definition found_node :: "dptType \<Rightarrow> (dptType \<times> int) option \<Rightarrow> found \<Rightarrow> nat \<Rightarrow> ('w dptNode \<times> bool) outcome" where
  "found_node ty lim f num =
     (if num > 1 then
        (if f_jobs f = [] then Fault else Done (createMoreNodes ty lim (f_jobs f) (f_idx f), f_flag f))
      else if num > 0 \<and> f_jobs f \<noteq> [] then Done (job_node ty lim (hd (f_jobs f)) (f_idx f) (f_flag f), False)
      else Done (job_node ty lim 0 None False, f_flag f))"

text \<open>The cases \<open>DPT_DONE\<close> to \<open>DPT_ENDED\<close>, of which only \<open>DPT_EXIT\<close> allows a comparison.\<close>

definition parse_suffix :: "dptType \<Rightarrow> depErr \<Rightarrow> string \<Rightarrow> ((dptType \<times> int) option \<times> string) outcome" where
  "parse_suffix ty reply s =
     (if ty = DPT_EXIT then parse_limit False reply s else obind (expect DPT_RIGHT reply s) (\<lambda>s. Done (None, s)))"

definition parse_job :: "nat \<Rightarrow> depEnv \<Rightarrow> string \<Rightarrow> dptType \<Rightarrow> string \<Rightarrow> 'w pst \<Rightarrow> ('w pst \<times> string) outcome" where
  "parse_job n e user ty s st =
     obind (expect DPT_LEFT (replyCode st) s) (\<lambda>s.
     (case getToken s of
        None \<Rightarrow> Fail (replyCode st)
      | Some (tok, _, s) \<Rightarrow>
          (case matchJobs n e tok user (replyCode st) (Some (opFlag st)) of
             None \<Rightarrow> NoFuel
           | Some f \<Rightarrow>
               (let num = (case f_num f of None \<Rightarrow> numJob st | Some k \<Rightarrow> k) in
                if f_jobs f = [] \<and> \<not> inReplay e then Fail (f_reply f)
                else if num > 1 \<and> f_jobs f = [] then Fault
                else obind (parse_suffix ty (f_reply f) s) (\<lambda>(lim, s).
                     obind (found_node ty lim f num) (\<lambda>(x, flag).
                     Done (push_operand x (st\<lparr>replyCode := f_reply f, numJob := num, opFlag := flag\<rparr>), s)))))))"

text \<open>The case \<open>DPT_NAME\<close>.\<close>

definition parse_name :: "nat \<Rightarrow> depEnv \<Rightarrow> string \<Rightarrow> string \<Rightarrow> 'w pst \<Rightarrow> 'w pst outcome" where
  "parse_name n e user tok st =
     (case matchJobs n e tok user (replyCode st) None of
        None \<Rightarrow> NoFuel
      | Some f \<Rightarrow>
          (let num = (case f_num f of None \<Rightarrow> numJob st | Some k \<Rightarrow> k) in
           if f_jobs f = [] \<and> \<not> inReplay e then Fail (f_reply f)
           else obind (found_node DPT_DONE None f num) (\<lambda>(x, _).
                Done (push_operand x (st\<lparr>replyCode := f_reply f, numJob := num\<rparr>)))))"

text \<open>The cases \<open>DPT_NUMPEND\<close> to \<open>DPT_NUMENDED\<close>.\<close>

definition parse_num :: "depEnv \<Rightarrow> dptType \<Rightarrow> string \<Rightarrow> 'w pst \<Rightarrow> ('w pst \<times> string) outcome" where
  "parse_num e ty s st =
     obind (expect DPT_LEFT (replyCode st) s) (\<lambda>s.
     (case getToken s of
        None \<Rightarrow> Fail (replyCode st)
      | Some (tok, _, s) \<Rightarrow>
          (let jpbw = (if isint (Some tok) then getJobData e (word_of_int (atoi tok)) else 0);
               base = (if jpbw = 0 then 0 else dj_jgrp (depJobs e jpbw));
               reply = (if base = 0 then LSBE_ARRAY_NULL else replyCode st) in
           if base = 0 \<and> \<not> inReplay e then Fail LSBE_ARRAY_NULL
           else if base = 0 \<and> jpbw \<noteq> 0 then Fault
           else obind (parse_limit True reply s) (\<lambda>(lim, s).
                let (t, c) = (case lim of None \<Rightarrow> (DPT_NE, 0) | Some l \<Rightarrow> l) in
                Done (push_operand (JgrpNode ty DP_FALSE \<lparr>jg_opType = t, jg_num = c, jgArrayBase = base\<rparr>)
                        (st\<lparr>replyCode := reply\<rparr>), s)))))"

text \<open>One round of the loop of \<open>parseDepCond\<close>; \<open>conf\<close> is the flag \<open>WINDOW_CONF\<close>.\<close>

definition parse_token :: "nat \<Rightarrow> int \<Rightarrow> depEnv \<Rightarrow> 'w windows \<Rightarrow> string \<Rightarrow> bool \<Rightarrow> string \<Rightarrow> dptType \<Rightarrow> string \<Rightarrow> 'w pst \<Rightarrow> ('w pst \<times> string) outcome" where
  "parse_token n oob e W user conf tok ty s st =
     (if ty \<in> {DPT_AND, DPT_OR, DPT_NOT} then obind (push_opr oob ty st) (\<lambda>st. Done (st, s))
      else if ty = DPT_LEFT then Done (st\<lparr>ops := DPT_LEFT # ops st\<rparr>, s)
      else if ty = DPT_RIGHT then
        (case merge_left (ops st) (operands st) of
           None \<Rightarrow> Fail (replyCode st)
         | Some (os, xs) \<Rightarrow> Done (st\<lparr>ops := os, operands := xs\<rparr>, s))
      else if ty = DPT_WINDOW then parse_window n W s st
      else if ty \<in> {DPT_DONE, DPT_POST_DONE, DPT_POST_ERR, DPT_EXIT, DPT_STARTED, DPT_ENDED} then
        (if conf then Fail (replyCode st) else parse_job n e user ty s st)
      else if ty = DPT_NAME then
        (if conf then Fail (replyCode st) else obind (parse_name n e user tok st) (\<lambda>st. Done (st, s)))
      else if ty \<in> {DPT_NUMPEND, DPT_NUMHOLD, DPT_NUMRUN, DPT_NUMEXIT, DPT_NUMDONE, DPT_NUMSTART, DPT_NUMENDED} then
        parse_num e ty s st
      else Fail (replyCode st))"

fun parse_loop :: "nat \<Rightarrow> nat \<Rightarrow> int \<Rightarrow> depEnv \<Rightarrow> 'w windows \<Rightarrow> string \<Rightarrow> bool \<Rightarrow> string \<Rightarrow> 'w pst \<Rightarrow> 'w pst outcome" where
  "parse_loop 0 n oob e W user conf s st = NoFuel"
| "parse_loop (Suc k) n oob e W user conf s st =
     (case getToken s of
        None \<Rightarrow> Done st
      | Some (tok, ty, s) \<Rightarrow>
          obind (parse_token n oob e W user conf tok ty s st) (\<lambda>(st, s). parse_loop k n oob e W user conf s st))"

text \<open>After the loop everything is merged; exactly one operand and no operator may be left.\<close>

definition parse_root :: "'w pst \<Rightarrow> 'w dptNode outcome" where
  "parse_root st =
     (case merge_all (ops st) (operands st) of
        ([], [root]) \<Rightarrow> Done root
      | _ \<Rightarrow> Fail (replyCode st))"

definition parseDepCond :: "nat \<Rightarrow> int \<Rightarrow> depEnv \<Rightarrow> 'w windows \<Rightarrow> string \<Rightarrow> bool \<Rightarrow> string \<Rightarrow> 'w dptNode outcome" where
  "parseDepCond n oob e W user conf dependCond =
     obind (parse_loop n n oob e W user conf dependCond
              \<lparr>ops = [], operands = [], replyCode = LSBE_DEPEND_SYNTAX, numJob = 0, opFlag = False\<rparr>) parse_root"

section \<open>Evaluation\<close>

definition opExpr :: "dptType \<Rightarrow> int \<Rightarrow> int \<Rightarrow> bool" where
  "opExpr op operand1 operand2 =
     (case op of
        DPT_LT \<Rightarrow> operand1 < operand2
      | DPT_LE \<Rightarrow> operand1 \<le> operand2
      | DPT_GT \<Rightarrow> operand1 > operand2
      | DPT_GE \<Rightarrow> operand1 \<ge> operand2
      | DPT_EQ \<Rightarrow> operand1 = operand2
      | DPT_NE \<Rightarrow> operand1 \<noteq> operand2
      | DPT_TRUE \<Rightarrow> True
      | _ \<Rightarrow> False)"

definition getCounterOfDep :: "dptType \<Rightarrow> (nat \<Rightarrow> int) \<Rightarrow> int" where
  "getCounterOfDep type counts =
     (case type of
        DPT_NUMPEND \<Rightarrow> counts JGRP_COUNT_PEND
      | DPT_NUMRUN \<Rightarrow> counts JGRP_COUNT_NRUN
      | DPT_NUMHOLD \<Rightarrow> counts JGRP_COUNT_NPSUSP
      | DPT_NUMEXIT \<Rightarrow> counts JGRP_COUNT_NEXIT
      | DPT_NUMDONE \<Rightarrow> counts JGRP_COUNT_NDONE
      | DPT_NUMSTART \<Rightarrow> c_int (c_int (counts JGRP_COUNT_NJOBS - counts JGRP_COUNT_PEND) - counts JGRP_COUNT_NPSUSP)
      | DPT_NUMENDED \<Rightarrow> c_int (counts JGRP_COUNT_NEXIT + counts JGRP_COUNT_NDONE)
      | _ \<Rightarrow> 0)"

text \<open>\<open>evalJobDep\<close>; \<open>dep\<close> is the waiting job, \<open>None\<close> for NULL, and \<open>>> 8\<close> is an arithmetic shift.\<close>

definition after_end :: "depJob option \<Rightarrow> int \<Rightarrow> bool" where
  "after_end dep t = (case dep of None \<Rightarrow> True | Some d \<Rightarrow> dj_endTime d < t)"

definition evalJobDep :: "dptType \<Rightarrow> jobPart \<Rightarrow> depJob \<Rightarrow> depJob option \<Rightarrow> bool" where
  "evalJobDep type part j dep =
     (let s = dj_status j; succ = has (dj_flags j) JFLAG_LASTRUN_SUCC in
      case type of
        DPT_DONE \<Rightarrow> after_end dep (dj_endTime j) \<and> (has s JOB_STAT_DONE \<or> (IS_PEND s \<and> succ))
      | DPT_POST_DONE \<Rightarrow> after_end dep (dj_endTime j) \<and> IS_POST_DONE s \<and> has s JOB_STAT_DONE
      | DPT_POST_ERR \<Rightarrow> after_end dep (dj_endTime j) \<and> IS_POST_ERR s \<and> has s JOB_STAT_DONE
      | DPT_EXIT \<Rightarrow> after_end dep (dj_endTime j) \<and> opExpr (opType part) (dj_exitStatus j div 256) (exitCode part)
                    \<and> (IS_FINISH s \<or> (IS_PEND s \<and> \<not> succ)) \<and> \<not> has s JOB_STAT_DONE
      | DPT_ENDED \<Rightarrow> after_end dep (dj_endTime j) \<and> (IS_FINISH s \<or> IS_PEND s)
      | DPT_STARTED \<Rightarrow> dj_startTime j \<noteq> 0 \<and> after_end dep (dj_startTime j) \<and> \<not> has s JOB_STAT_PRE_EXEC
      | _ \<Rightarrow> False)"

text \<open>
  One round of the loop over the jobs of a node: the value after it, and whether the loop is left.
  A job that is not in the index list is skipped.  When the condition cannot become true any more the value is
  \<open>DP_INVALID\<close>.
\<close>

definition never_true :: "dptType \<Rightarrow> jstatus \<Rightarrow> bool" where
  "never_true type s \<longleftrightarrow>
     has s JOB_STAT_VOID \<or>
     (IS_FINISH s \<and> \<not> (\<not> IS_POST_FINISH s \<and> has s JOB_STAT_DONE \<and> (type = DPT_POST_DONE \<or> type = DPT_POST_ERR)))"

definition eval_job :: "dptType \<Rightarrow> jobPart \<Rightarrow> depJob option \<Rightarrow> depJob \<Rightarrow> int \<Rightarrow> bool \<times> int" where
  "eval_job type part dep j v =
     (if (case dptJobIdx part of None \<Rightarrow> False | Some i \<Rightarrow> \<not> inIdxList (dj_jobId j) (idxList i)) \<and> \<not> one_to_one part then (False, v)
      else if evalJobDep type part j dep then (False, DP_TRUE)
      else if never_true type (dj_status j) then (True, DP_INVALID)
      else (True, DP_FALSE))"

text \<open>The loop over \<open>depJobList\<close>, and over the chain of \<open>nextJob\<close>.\<close>

fun eval_set :: "depEnv \<Rightarrow> dptType \<Rightarrow> jobPart \<Rightarrow> depJob option \<Rightarrow> pointer list \<Rightarrow> int \<Rightarrow> int" where
  "eval_set e type part dep [] v = v"
| "eval_set e type part dep (p # ps) v =
     (case eval_job type part dep (depJobs e p) v of
        (leave, v) \<Rightarrow> if leave then v else eval_set e type part dep ps v)"

fun eval_chain :: "nat \<Rightarrow> depEnv \<Rightarrow> dptType \<Rightarrow> jobPart \<Rightarrow> depJob option \<Rightarrow> pointer \<Rightarrow> int \<Rightarrow> int outcome" where
  "eval_chain 0 e type part dep p v = NoFuel"
| "eval_chain (Suc n) e type part dep p v =
     (if p = 0 then Done v
      else (case eval_job type part dep (depJobs e p) v of
              (leave, v) \<Rightarrow> if leave then Done v else eval_chain n e type part dep (dj_next (depJobs e p)) v))"

text \<open>
  Each element of an array waits for the element with its index.  When that is not in the table the list kept in
  the node is searched; if it is not there either, the last element of the list is used.
\<close>

fun find_element :: "depEnv \<Rightarrow> int \<Rightarrow> pointer list \<Rightarrow> pointer" where
  "find_element e i [] = 0"
| "find_element e i (p # ps) = (if i = LSB_ARRAY_IDX (dj_jobId (depJobs e p)) \<or> ps = [] then p else find_element e i ps)"

definition eval_one_to_one :: "depEnv \<Rightarrow> dptType \<Rightarrow> jobPart \<Rightarrow> depJob option \<Rightarrow> int \<Rightarrow> int outcome" where
  "eval_one_to_one e type part dep v =
     (case dep of
        None \<Rightarrow> Fault
      | Some d \<Rightarrow>
          (let i = LSB_ARRAY_IDX (dj_jobId d);
               p = getJobData e (push_bit 32 (word_of_int i) OR dj_jobId (depJobs e (jobRec part))) in
           if p \<noteq> 0 then Done (snd (eval_job type part dep (depJobs e p) v))
           else (case dptJobIdx part of
                   None \<Rightarrow> Done DP_INVALID
                 | Some x \<Rightarrow>
                     (if depJobList x = [] then Fault
                      else Done (snd (eval_job type part dep (depJobs e (find_element e i (depJobList x))) v)))))) "

definition eval_jobs :: "nat \<Rightarrow> depEnv \<Rightarrow> dptType \<Rightarrow> jobPart \<Rightarrow> depJob option \<Rightarrow> int \<Rightarrow> int outcome" where
  "eval_jobs n e type part dep v =
     (let p = jobRec part; j = depJobs e p; set = (case dptJobIdx part of None \<Rightarrow> [] | Some x \<Rightarrow> depJobList x) in
      if p = 0 then Done DP_INVALID
      else if \<not> dj_array j then Done (snd (eval_job type part dep j v))
      else if one_to_one part then eval_one_to_one e type part dep v
      else if set \<noteq> [] then Done (eval_set e type part dep set v)
      else eval_chain n e type part dep (dj_next j) v)"

text \<open>The cases \<open>DPT_NUMPEND\<close> to \<open>DPT_NUMENDED\<close>: the array may have been deleted, and is forgotten then.\<close>

definition eval_jgrp :: "depEnv \<Rightarrow> dptType \<Rightarrow> jgrpPart \<Rightarrow> int \<times> jgrpPart" where
  "eval_jgrp e type g =
     (let a = jgArrays e (jgArrayBase g) in
      if jgArrayBase g = 0 then (DP_INVALID, g)
      else if ja_void a then (DP_INVALID, g\<lparr>jgArrayBase := 0\<rparr>)
      else (let num = (if jg_num g = INFINIT_INT
                       then (if ja_counts a JGRP_COUNT_NJOBS \<le> 0 then INFINIT_INT else ja_counts a JGRP_COUNT_NJOBS)
                       else jg_num g) in
            (if opExpr (jg_opType g) (getCounterOfDep type (ja_counts a)) num then DP_TRUE else DP_FALSE, g)))"

fun node_value :: "'w dptNode \<Rightarrow> int" where
  "node_value (OprNode type v l r) = v"
| "node_value (NotNode v l) = v"
| "node_value (JobNode type v part) = v"
| "node_value (WindowNode v w) = v"
| "node_value (JgrpNode type v g) = v"

text \<open>\<open>evalDepCond\<close>: the node with the values it then holds; its own value is the result.\<close>

definition or_right :: "int \<Rightarrow> int \<Rightarrow> int" where
  "or_right l r = (if l = DP_FALSE then (if r = DP_REJECT then DP_REJECT else if r = DP_TRUE then DP_TRUE else DP_FALSE) else r)"

definition and_right :: "int \<Rightarrow> int \<Rightarrow> int" where
  "and_right l r = (if l = DP_FALSE then (if r = DP_INVALID \<or> r = DP_REJECT then r else DP_FALSE) else r)"

fun evalDepCond :: "nat \<Rightarrow> depEnv \<Rightarrow> 'w windows \<Rightarrow> depJob option \<Rightarrow> 'w dptNode \<Rightarrow> 'w dptNode outcome" where
  "evalDepCond n e W dep (OprNode type v l r) =
     (if type = DPT_OR then
        obind (evalDepCond n e W dep l) (\<lambda>l.
        if node_value l = DP_REJECT \<or> node_value l = DP_TRUE then Done (OprNode type (node_value l) l r)
        else obind (evalDepCond n e W dep r) (\<lambda>r. Done (OprNode type (or_right (node_value l) (node_value r)) l r)))
      else if type = DPT_AND then
        obind (evalDepCond n e W dep l) (\<lambda>l.
        if node_value l = DP_INVALID \<or> node_value l = DP_REJECT then Done (OprNode type (node_value l) l r)
        else obind (evalDepCond n e W dep r) (\<lambda>r. Done (OprNode type (and_right (node_value l) (node_value r)) l r)))
      else Done (OprNode type v l r))"
| "evalDepCond n e W dep (NotNode v l) =
     obind (evalDepCond n e W dep l) (\<lambda>l.
     let v = node_value l in
     Done (NotNode (if v = DP_REJECT then v else if v = DP_FALSE \<or> v = DP_INVALID then DP_TRUE
                    else if v = DP_TRUE then DP_FALSE else v) l))"
| "evalDepCond n e W dep (JobNode type v part) = obind (eval_jobs n e type part dep v) (\<lambda>v. Done (JobNode type v part))"
| "evalDepCond n e W dep (WindowNode v w) =
     (let w = updateTimeWindow W w in Done (WindowNode (if window_open W w then DP_TRUE else DP_FALSE) w))"
| "evalDepCond n e W dep (JgrpNode type v g) = (case eval_jgrp e type g of (v, g) \<Rightarrow> Done (JgrpNode type v g))"

fun resetDepCond :: "'w dptNode \<Rightarrow> 'w dptNode" where
  "resetDepCond (OprNode type v l r) =
     (if type = DPT_AND \<or> type = DPT_OR then OprNode type DP_FALSE (resetDepCond l) (resetDepCond r)
      else OprNode type DP_FALSE l r)"
| "resetDepCond (NotNode v l) = NotNode DP_FALSE (resetDepCond l)"
| "resetDepCond (JobNode type v part) = JobNode type DP_FALSE part"
| "resetDepCond (WindowNode v w) = WindowNode DP_FALSE w"
| "resetDepCond (JgrpNode type v g) = JgrpNode type DP_FALSE g"

end
