(* ===== verification/Spec2Isabelle.thy ===== *)
theory Spec2Isabelle
  imports ListSet BitSet HashTab CString Words JobIndex Requeue JobStatus Counters DList JobLists JobChange JobRuns JobOrder Depend
begin

text \<open>
  A verification development of openlava, a batch scheduler for clusters written in C.  The program is a base
  system (lsf/: host load, remote execution, and the libraries everything is built on) and a batch system
  (lsbatch/) on top of it.  The master batch daemon \<open>mbatchd\<close> (lsbatch/daemons/mbd.*.c) keeps the jobs of the
  cluster in lists by state, counts their slots per queue, user, group and host, and decides on the counts
  which pending job may start.  It relies on the libraries modelled here: hash tables for jobs, users and
  hosts, linked lists for the jobs, sets of integers, and the scanners for configuration, event log and job ids.

  \<^bold>\<open>Conventions.\<close>  Definitions have the names of the C functions (a trailing underscore is dropped, and a loop is a
  function of its own).  A C \<open>int\<close> is an \<open>int\<close> cut by \<open>c_int\<close> or \<open>c_uint\<close> where the code can overflow, or a word where it
  is used bit by bit: status words are \<open>32 word\<close>, job ids \<open>64 word\<close>.  A \<open>struct\<close> is a record.  A pointer is the
  structure it reaches where nothing depends on identity, else an address, with 0 for NULL.  A memory fault (NULL
  dereferenced, an index outside an array) is the result \<open>None\<close>; error codes are values.  Global state is passed
  and returned.  Prelude has these conventions, the character classes and the shared rewrite rules.

  \<^bold>\<open>Contracts.\<close>  Interfaces has three locales: \<open>int_set_store\<close> (a set of integers with room for so many
  insertions), \<open>keyed_table\<close> (lookup after insertion and removal) and \<open>entry_list\<close> (entries put before another and
  taken out).  They are interpreted on the list sets and the bit sets, on the hash table, and on the doubly linked
  lists.  What a client needs is proved once from the contract.

  \<^bold>\<open>Libraries.\<close>
  \<^item> ListSet: lsf/intlib/listset.c, sets of numbers as sorted chains with a pool of free cells.  The
    operations compute the set operations on sorted chains without duplicates, and allocation failure is a branch.
    \<open>listSetUnion\<close> leaves duplicates.
  \<^item> BitSet: lsf/intlib/bitset.c, vectors of 32-bit words with iterators and observers.  The operations keep the
    invariant and compute the set operations; the bit counts equal the cardinality; \<open>setDup\<close> loses elements.
  \<^item> HashTab: lsf/lib/lib.table.c with growth and rehash, and the membership tables of lsbatch/lib/lsb.misc.c.
    The table refines a map from keys to data, and the iteration meets every entry once.
  \<^item> DList: lsf/intlib/list.c on an explicit store of cells.  On a ring that represents a list the operations
    compute the operations of lists, the loops end, and the observers are told of every entry.
  \<^item> CString: numbers in text (lsf/lib/lib.misc.c, my_atoi of mbd.init.c, matchName of lsf/intlib/misc.c).
  \<^item> Words: lsf/lib/lib.words.c, lines, words and quoted values, with the round trip of quoting.
  \<^item> JobIndex: the packing of job ids (lsbatch.h), the scanner and grammar of index lists (lsf/intlib cal.l, callex.c, idx.y,
    jidx.c), and the array operations of mbd.jarray.c and \<open>getNextJobId\<close> of mbd.job.c.  Printing and parsing of index
    lists is a round trip; the ids of an index list are the ids it denotes; the next id is unused.

  \<^bold>\<open>The master batch daemon.\<close>
  \<^item> JobStatus: the status bits and macros of lsbatch.h and daemons.h, and which words are well formed.
  \<^item> Requeue: mbd.requeue.c, the exit values after which a job is requeued, and the hosts it is then kept from.
  \<^item> Counters: the counters of mbd.misc.c.  \<open>cinv\<close> says that every counter equals the number of slots of the jobs in
    question.  Submission, change of state, reservation and switching keep it, and the recount after a
    restart establishes it.
  \<^item> JobLists: the four job lists, \<open>inPendJobList\<close>, \<open>inStartJobList\<close>, \<open>jStatusChange\<close>, \<open>handleRequeueJob\<close>,
    \<open>handleNewJob\<close>, \<open>removeJob\<close> and the commit of a switch (mbd.job.c), over \<open>Counters\<close> and over the counters of job
    groups (mbd.jgrp.c).  The state \<open>sys\<close> has the jobs by address, the lists, the counters and the groups.
    \<open>sys_inv\<close> says that every job is on exactly one list, the one of its state, that lists and counts fit, and that all
    counters are right.
  \<^item> JobChange and JobRuns: every operation keeps \<open>sys_inv\<close>.  \<open>daemon_step\<close> is the relation of one operation with
    the conditions under which the callers invoke it, \<open>running\<close> the states reached from an empty daemon;
    \<open>sys_inv\<close> holds in all of them.
  \<^item> JobOrder: the lists are in the order in which jobs are served, by the priority of the queue in every
    reachable state, and by job priority and age after an insertion.

  \<^bold>\<open>Bounds and fuel.\<close>  Word buffers have the sizes of the source and a word that does not fit is a fault.  Loops
  over arithmetic progressions of array indices (\<open>for_values\<close>) and the search for a free id have fuel; it is
  proved that the number of possible values is enough, except where the C step overflows and the loop does not end,
  which is a theorem as well.  The loops of DList are partial functions that are proved to return on every ring.

  \<^bold>\<open>Not modelled.\<close>  Network and file I/O, process control and the coding of messages (mbd.main.c, mbd.serv.c,
  mbd.comm.c, the slave daemon, res, lim, the client libraries and commands); the event log, apart from its quoting
  and the recount after replay; the choice of hosts for a job (mbd.policy.c), which works on
  floating-point load and on Tcl expressions whose evaluator is not part of the sources; configuration
  tables.  In the modelled files: messages and logging, replies to clients, and the release of
  memory where nothing else depends on it.  Allocation succeeds unless a theory says otherwise.
\<close>

end
